theory Spec2Isabelle
  imports Main "HOL-Library.Word" "HOL-Library.List_Lexorder"
begin

unbundle bit_operations_syntax

section \<open>Basic types\<close>

text \<open>
  Go's \<^verbatim>\<open>uint64\<close> is a 64-bit word (arithmetic wraps), a \<^verbatim>\<open>[]byte\<close> or a Go string is a
  list of 8-bit words, compared as \<^verbatim>\<open>bytes.Compare\<close> does (lexicographically, unsigned;
  the order of the theory List-Lexorder). Where the source tests a slice against
  \<^verbatim>\<open>nil\<close>, the slice is a \<open>bytes option\<close> with \<open>None\<close> for \<^verbatim>\<open>nil\<close>. A returned error and
  a panic are the two constructors of \<open>error\<close>.
\<close>

type_synonym u64 = "64 word"
type_synonym byte = "8 word"
type_synonym bytes = "byte list"
type_synonym gobytes = "bytes option"

datatype error = Panic string | Error string

definition glen :: "gobytes \<Rightarrow> nat" where
  "glen v = (case v of None \<Rightarrow> 0 | Some b \<Rightarrow> length b)"

section \<open>Existence filter (util.go, \<^verbatim>\<open>ExistenceFilter\<close>)\<close>

text \<open>
  The bloom filter itself is the external package \<^verbatim>\<open>holiman/bloomfilter/v2\<close>. Its four
  operations used by the source are taken as a parameter: a record of functions over an
  arbitrary filter type \<open>'f\<close>.
\<close>

record 'f bloomfilter =
  OptimalM :: "u64 \<Rightarrow> u64"
  New :: "u64 \<Rightarrow> error + 'f"
  libAddHash :: "'f \<Rightarrow> u64 \<Rightarrow> 'f"
  libContainsHash :: "'f \<Rightarrow> u64 \<Rightarrow> bool"

text \<open>\<^verbatim>\<open>ExistenceFilter\<close>; its field \<^verbatim>\<open>filter\<close> is \<open>bfilter\<close> here.\<close>

record 'f ExistenceFilter =
  bfilter :: "'f option"
  empty :: bool
  FileName :: string
  FilePath :: string

text \<open>\<^verbatim>\<open>filepath.Split\<close>: the directory up to and including the last separator, and the rest.\<close>

definition filepath_Split :: "string \<Rightarrow> string \<times> string" where
  "filepath_Split p =
     (let f = rev (takeWhile (\<lambda>c. c \<noteq> CHR ''/'') (rev p))
      in (take (length p - length f) p, f))"

definition NewExistenceFilter ::
  "'f bloomfilter \<Rightarrow> u64 \<Rightarrow> string \<Rightarrow> error + 'f ExistenceFilter" where
  "NewExistenceFilter lib keysCount filePath =
     (let m = OptimalM lib keysCount;
          fileName = snd (filepath_Split filePath);
          e = \<lparr>bfilter = None, empty = False, FileName = fileName, FilePath = filePath\<rparr>
      in if keysCount < 2 then Inr (e\<lparr>empty := True\<rparr>)
         else (case New lib m of
                 Inl err \<Rightarrow> Inl err
               | Inr f \<Rightarrow> Inr (e\<lparr>bfilter := Some f\<rparr>)))"

text \<open>A call through a nil \<^verbatim>\<open>*bloomfilter.Filter\<close> dereferences nil: a panic.\<close>

definition AddHash :: "'f bloomfilter \<Rightarrow> 'f ExistenceFilter \<Rightarrow> u64 \<Rightarrow> error + 'f ExistenceFilter" where
  "AddHash lib b h =
     (if empty b then Inr b
      else (case bfilter b of
              None \<Rightarrow> Inl (Panic ''nil pointer dereference'')
            | Some f \<Rightarrow> Inr (b\<lparr>bfilter := Some (libAddHash lib f h)\<rparr>)))"

definition ContainsHash :: "'f bloomfilter \<Rightarrow> 'f ExistenceFilter \<Rightarrow> u64 \<Rightarrow> error + bool" where
  "ContainsHash lib b v =
     (if empty b then Inr True
      else (case bfilter b of
              None \<Rightarrow> Inl (Panic ''nil pointer dereference'')
            | Some f \<Rightarrow> Inr (libContainsHash lib f v)))"

text \<open>Adding a sequence of hashes, one \<^verbatim>\<open>AddHash\<close> call after the other.\<close>

fun AddHashes :: "'f bloomfilter \<Rightarrow> 'f ExistenceFilter \<Rightarrow> u64 list \<Rightarrow> error + 'f ExistenceFilter" where
  "AddHashes lib b [] = Inr b"
| "AddHashes lib b (h # hs) =
     (case AddHash lib b h of Inl e \<Rightarrow> Inl e | Inr b' \<Rightarrow> AddHashes lib b' hs)"

text \<open>
  The contract of the external filter: a hash that was added is reported, and adding
  further hashes never removes one.
\<close>

definition no_false_negatives :: "'f bloomfilter \<Rightarrow> bool" where
  "no_false_negatives lib \<longleftrightarrow>
     (\<forall>f h. libContainsHash lib (libAddHash lib f h) h) \<and>
     (\<forall>f h g. libContainsHash lib f h \<longrightarrow> libContainsHash lib (libAddHash lib f g) h)"

text \<open>A filter value as \<^verbatim>\<open>NewExistenceFilter\<close> and \<^verbatim>\<open>AddHash\<close> leave it.\<close>

definition wf_filter :: "'f ExistenceFilter \<Rightarrow> bool" where
  "wf_filter b \<longleftrightarrow> (empty b \<or> bfilter b \<noteq> None)"

text \<open>A toy instance of the library for concrete runs: the filter is the list of hashes.\<close>

definition listFilter :: "(u64 list) bloomfilter" where
  "listFilter = \<lparr>OptimalM = (\<lambda>n. 10 * n), New = (\<lambda>m. Inr []),
                 libAddHash = (\<lambda>f h. h # f), libContainsHash = (\<lambda>f h. h \<in> set f)\<rparr>"

section \<open>File items and the file registry (util.go)\<close>

definition StepsInColdFile :: u64 where
  "StepsInColdFile = 64"

text \<open>
  \<^verbatim>\<open>filesItem\<close>. The decompressor is the sequence of (key, value) words of the \<^verbatim>\<open>.kv\<close> file,
  \<open>None\<close> for a nil pointer; the two accessor indexes are present or not.
\<close>

record 'f filesItem =
  decompressor :: "(bytes \<times> bytes) list option"
  index :: bool
  bindex :: bool
  existence :: "'f ExistenceFilter option"
  startTxNum :: u64
  endTxNum :: u64
  frozen :: bool

text \<open>Unsigned division by zero panics in Go.\<close>

definition newFilesItem :: "u64 \<Rightarrow> u64 \<Rightarrow> u64 \<Rightarrow> error + 'f filesItem" where
  "newFilesItem startTx endTx stepSize =
     (if stepSize = 0 then Inl (Panic ''integer divide by zero'')
      else let startStep = startTx div stepSize;
               endStep = endTx div stepSize;
               fr = (endStep - startStep = StepsInColdFile)
           in Inr \<lparr>decompressor = None, index = False, bindex = False, existence = None,
                   startTxNum = startTx, endTxNum = endTx, frozen = fr\<rparr>)"

definition isSubsetOf :: "'f filesItem \<Rightarrow> 'f filesItem \<Rightarrow> bool" where
  "isSubsetOf i j \<longleftrightarrow>
     (startTxNum j \<le> startTxNum i \<and> endTxNum i \<le> endTxNum j) \<and>
     (startTxNum j \<noteq> startTxNum i \<or> endTxNum i \<noteq> endTxNum j)"

definition filesItemLess :: "'f filesItem \<Rightarrow> 'f filesItem \<Rightarrow> bool" where
  "filesItemLess i j =
     (if endTxNum i = endTxNum j then startTxNum i > startTxNum j
      else endTxNum i < endTxNum j)"

text \<open>
  The registry \<^verbatim>\<open>d.files\<close> is a B-tree ordered by \<^verbatim>\<open>filesItemLess\<close>: here the list of its
  items in that order. \<^verbatim>\<open>Get\<close> finds the item equal to the probe under the order, \<^verbatim>\<open>Set\<close>
  inserts an item or replaces the equal one, \<^verbatim>\<open>Walk\<close> visits the items in order.
\<close>

definition files_Get :: "'f filesItem list \<Rightarrow> 'f filesItem \<Rightarrow> 'f filesItem option" where
  "files_Get fs x = find (\<lambda>y. \<not> filesItemLess x y \<and> \<not> filesItemLess y x) fs"

fun files_Set :: "'f filesItem list \<Rightarrow> 'f filesItem \<Rightarrow> 'f filesItem list" where
  "files_Set [] x = [x]"
| "files_Set (y # ys) x =
     (if filesItemLess x y then x # y # ys
      else if filesItemLess y x then y # files_Set ys x
      else x # ys)"

record 'f Domain =
  filenameBase :: string
  aggregationStep :: u64
  files :: "'f filesItem list"
  withExistenceIndex :: bool
  keysTable :: string
  valsTable :: string

subsection \<open>Scanning file names\<close>

definition isDigit :: "char \<Rightarrow> bool" where
  "isDigit c \<longleftrightarrow> c \<in> set ''0123456789''"

definition digitVal :: "char \<Rightarrow> nat" where
  "digitVal c = of_char c - 48"

text \<open>\<^verbatim>\<open>strconv.ParseUint(s, 10, 64)\<close> on a non-empty string of digits: out of range is an error.\<close>

definition ParseUint :: "string \<Rightarrow> u64 option" where
  "ParseUint s =
     (let n = foldl (\<lambda>a c. 10 * a + digitVal c) 0 s
      in if n < 2 ^ 64 then Some (of_nat n) else None)"

text \<open>
  The match of \<^verbatim>\<open>"^v([0-9]+)-" + filenameBase + ".([0-9]+)-([0-9]+).kv$"\<close> against a name,
  for a base without regular-expression operators (the bases are lower-case words). The
  unescaped dots match any character but a newline. Each group of digits is followed by a
  character that is no digit, so the groups are determined. The result are the three groups.
\<close>

definition anyChar :: "char \<Rightarrow> bool" where
  "anyChar c \<longleftrightarrow> c \<noteq> CHR 0x0A"

definition matchTail :: "string \<Rightarrow> string option" where
  "matchTail r =
     (let n = length r
      in if n < 4 then None
         else let d = take (n - 3) r; c = r ! (n - 3)
              in if list_all isDigit d \<and> anyChar c \<and> drop (n - 2) r = ''kv''
                 then Some d else None)"

text \<open>A group \<^verbatim>\<open>([0-9]+)\<close> followed by \<^verbatim>\<open>-\<close>: the digits and the rest after the dash.\<close>

definition matchDigitsDash :: "string \<Rightarrow> (string \<times> string) option" where
  "matchDigitsDash r =
     (let d = takeWhile isDigit r
      in if d = [] then None
         else (case dropWhile isDigit r of
                 [] \<Rightarrow> None
               | c # r' \<Rightarrow> if c = CHR ''-'' then Some (d, r') else None))"

definition FindStringSubmatch :: "string \<Rightarrow> string \<Rightarrow> (string \<times> string \<times> string) option" where
  "FindStringSubmatch base name =
     (case name of
        [] \<Rightarrow> None
      | c0 # r0 \<Rightarrow>
          if c0 \<noteq> CHR ''v'' then None
          else (case matchDigitsDash r0 of
                  None \<Rightarrow> None
                | Some (d1, r2) \<Rightarrow>
                    if take (length base) r2 \<noteq> base then None
                    else (case drop (length base) r2 of
                            [] \<Rightarrow> None
                          | c2 # r3 \<Rightarrow>
                              if \<not> anyChar c2 then None
                              else (case matchDigitsDash r3 of
                                      None \<Rightarrow> None
                                    | Some (d2, r5) \<Rightarrow>
                                        (case matchTail r5 of
                                           None \<Rightarrow> None
                                         | Some d3 \<Rightarrow> Some (d1, d2, d3))))))"

text \<open>
  The callback of \<^verbatim>\<open>d.files.Walk\<close> in \<^verbatim>\<open>scanStateFiles\<close>, over the items in order; the state is
  \<^verbatim>\<open>addNewFile\<close>, \<^verbatim>\<open>subSets\<close> and \<^verbatim>\<open>garbageFiles\<close>.
\<close>

fun scanWalk ::
  "'f filesItem \<Rightarrow> 'f filesItem list \<Rightarrow> bool \<times> 'f filesItem list \<times> 'f filesItem list \<Rightarrow>
   bool \<times> 'f filesItem list \<times> 'f filesItem list" where
  "scanWalk newFile [] st = st"
| "scanWalk newFile (item # items) (addNewFile, subSets, garbageFiles) =
     (if isSubsetOf item newFile
      then scanWalk newFile items (addNewFile, subSets @ [item], garbageFiles)
      else if isSubsetOf newFile item
      then (if frozen item
            then scanWalk newFile items (False, subSets, garbageFiles @ [newFile])
            else scanWalk newFile items (addNewFile, subSets, garbageFiles))
      else scanWalk newFile items (addNewFile, subSets, garbageFiles))"

text \<open>One iteration of the loop over the file names: the registry and the garbage list.\<close>

definition scanStateFile ::
  "string \<Rightarrow> u64 \<Rightarrow> string \<Rightarrow> 'f filesItem list \<times> 'f filesItem list \<Rightarrow>
   error + 'f filesItem list \<times> 'f filesItem list" where
  "scanStateFile base aggStep name st =
     (case FindStringSubmatch base name of
        None \<Rightarrow> Inr st
      | Some (g1, g2, g3) \<Rightarrow>
          (case ParseUint g2 of
             None \<Rightarrow> Inr st
           | Some startStep \<Rightarrow>
               (case ParseUint g3 of
                  None \<Rightarrow> Inr st
                | Some endStep \<Rightarrow>
                    if startStep > endStep then Inr st
                    else (case newFilesItem (startStep * aggStep) (endStep * aggStep) aggStep of
                            Inl e \<Rightarrow> Inl e
                          | Inr nf \<Rightarrow>
                              let newFile = nf\<lparr>frozen := False\<rparr>
                              in if files_Get (fst st) newFile \<noteq> None then Inr st
                                 else (case scanWalk newFile (fst st) (True, [], snd st) of
                                         (addNewFile, subSets, garbageFiles) \<Rightarrow>
                                           if addNewFile
                                           then Inr (files_Set (fst st) newFile, garbageFiles)
                                           else Inr (fst st, garbageFiles))))))"

fun scanStateFilesLoop ::
  "string \<Rightarrow> u64 \<Rightarrow> string list \<Rightarrow> 'f filesItem list \<times> 'f filesItem list \<Rightarrow>
   error + 'f filesItem list \<times> 'f filesItem list" where
  "scanStateFilesLoop base aggStep [] st = Inr st"
| "scanStateFilesLoop base aggStep (name # names) st =
     (case scanStateFile base aggStep name st of
        Inl e \<Rightarrow> Inl e
      | Inr st' \<Rightarrow> scanStateFilesLoop base aggStep names st')"

text \<open>\<^verbatim>\<open>Domain.scanStateFiles\<close>: the domain with its registry updated, and the garbage files.\<close>

definition scanStateFiles ::
  "'f Domain \<Rightarrow> string list \<Rightarrow> error + 'f Domain \<times> 'f filesItem list" where
  "scanStateFiles d fileNames =
     (case scanStateFilesLoop (filenameBase d) (aggregationStep d) fileNames (files d, []) of
        Inl e \<Rightarrow> Inl e
      | Inr (fs, garbageFiles) \<Rightarrow> Inr (d\<lparr>files := fs\<rparr>, garbageFiles))"

subsection \<open>Integrating built files\<close>

record 'f StaticFiles =
  valuesDecomp :: "(bytes \<times> bytes) list option"
  valuesIdx :: bool
  valuesBt :: bool
  bloom :: "'f ExistenceFilter option"

text \<open>
  \<^verbatim>\<open>Domain.integrateFiles\<close>, the part on the domain's own registry (the history's registry and
  the recomputed read-only view are not part of this record).
\<close>

definition integrateFiles :: "'f Domain \<Rightarrow> 'f StaticFiles \<Rightarrow> u64 \<Rightarrow> u64 \<Rightarrow> error + 'f Domain" where
  "integrateFiles d sf txNumFrom txNumTo =
     (case newFilesItem txNumFrom txNumTo (aggregationStep d) of
        Inl e \<Rightarrow> Inl e
      | Inr fi0 \<Rightarrow>
          let fi = fi0\<lparr>frozen := False, decompressor := valuesDecomp sf, index := valuesIdx sf,
                       bindex := valuesBt sf, existence := bloom sf\<rparr>
          in Inr (d\<lparr>files := files_Set (files d) fi\<rparr>))"

definition emptyDomain :: "string \<Rightarrow> u64 \<Rightarrow> unit Domain" where
  "emptyDomain base aggStep =
     \<lparr>filenameBase = base, aggregationStep = aggStep, files = [], withExistenceIndex = True,
      keysTable = base @ ''Keys'', valsTable = base @ ''Vals''\<rparr>"

definition itemRange :: "'f filesItem \<Rightarrow> u64 \<times> u64 \<times> bool" where
  "itemRange fi = (startTxNum fi, endTxNum fi, frozen fi)"

definition registryRanges :: "error + 'f Domain \<times> 'f filesItem list \<Rightarrow> (u64 \<times> u64 \<times> bool) list" where
  "registryRanges r = (case r of Inl e \<Rightarrow> [] | Inr (d, g) \<Rightarrow> map itemRange (files d))"

definition coldItem :: "unit filesItem" where
  "coldItem = \<lparr>decompressor = None, index = False, bindex = False, existence = None,
                startTxNum = 0, endTxNum = 256, frozen = True\<rparr>"

definition scannedDomain :: "unit Domain" where
  "scannedDomain =
     \<lparr>filenameBase = ''accounts'', aggregationStep = 4,
      files = [\<lparr>decompressor = None, index = False, bindex = False, existence = None,
                startTxNum = 0, endTxNum = 4, frozen = False\<rparr>],
      withExistenceIndex = True, keysTable = ''accountsKeys'', valsTable = ''accountsVals''\<rparr>"

definition builtFiles :: "unit StaticFiles" where
  "builtFiles = \<lparr>valuesDecomp = Some [], valuesIdx = False, valuesBt = True, bloom = None\<rparr>"

definition integratedDomain :: "unit Domain" where
  "integratedDomain =
     \<lparr>filenameBase = ''accounts'', aggregationStep = 4,
      files = [\<lparr>decompressor = Some [], index = False, bindex = True, existence = None,
                startTxNum = 0, endTxNum = 4, frozen = False\<rparr>],
      withExistenceIndex = True, keysTable = ''accountsKeys'', valsTable = ''accountsVals''\<rparr>"

section \<open>The hot tier: tables and cursors\<close>

text \<open>
  Modelled from the spec: the external transactional key-value store (package \<^verbatim>\<open>kv\<close> and its
  MDBX binding are not part of these sources). A table is the list of its rows in cursor
  order: a plain table has one row per key, in ascending key order; a duplicate-sorted table
  (the keys table, "mapping key to a set of inverted steps, duplicate-sorted") has one row
  per (key, value), ascending by key and then by value. A cursor is the list of the rows from
  its position on, the first of them being the current row; the empty list is the exhausted
  cursor, which the interface reports by a nil key. Reads of this in-memory store never fail.
\<close>

type_synonym table = "(bytes \<times> bytes) list"

record kvTx =
  tables :: "string \<Rightarrow> table"
  history :: "string \<Rightarrow> (bytes \<times> u64 \<times> bytes) list"

definition GetOne :: "kvTx \<Rightarrow> string \<Rightarrow> bytes \<Rightarrow> gobytes" where
  "GetOne tx tbl k = map_of (tables tx tbl) k"

definition cursorSeek :: "table \<Rightarrow> bytes \<Rightarrow> table" where
  "cursorSeek rows k = dropWhile (\<lambda>r. fst r < k) rows"

definition cursorNext :: "table \<Rightarrow> table" where
  "cursorNext pos = tl pos"

definition cursorNextNoDup :: "table \<Rightarrow> table" where
  "cursorNextNoDup pos =
     (case pos of [] \<Rightarrow> [] | r # rest \<Rightarrow> dropWhile (\<lambda>r'. fst r' = fst r) rest)"

text \<open>\<^verbatim>\<open>SeekExact\<close> on a duplicate-sorted table: the first row of the key, if any.\<close>

definition cursorSeekExact :: "table \<Rightarrow> bytes \<Rightarrow> (bytes \<times> bytes) option" where
  "cursorSeekExact rows k = find (\<lambda>r. fst r = k) rows"

text \<open>Writing a row: a plain table replaces the value of the key, a duplicate-sorted one adds the pair.\<close>

fun tablePut :: "table \<Rightarrow> bytes \<Rightarrow> bytes \<Rightarrow> table" where
  "tablePut [] k v = [(k, v)]"
| "tablePut (r # rs) k v =
     (if k < fst r then (k, v) # r # rs
      else if k = fst r then (k, v) # rs
      else r # tablePut rs k v)"

fun dupPut :: "table \<Rightarrow> bytes \<Rightarrow> bytes \<Rightarrow> table" where
  "dupPut [] k v = [(k, v)]"
| "dupPut (r # rs) k v =
     (if (k, v) = r then r # rs
      else if k < fst r \<or> (k = fst r \<and> v < snd r) then (k, v) # r # rs
      else r # dupPut rs k v)"

definition tableDelete :: "table \<Rightarrow> bytes \<Rightarrow> table" where
  "tableDelete rows k = filter (\<lambda>r. fst r \<noteq> k) rows"

definition dupDelete :: "table \<Rightarrow> bytes \<Rightarrow> bytes \<Rightarrow> table" where
  "dupDelete rows k v = filter (\<lambda>r. r \<noteq> (k, v)) rows"

definition txUpdate :: "kvTx \<Rightarrow> string \<Rightarrow> table \<Rightarrow> kvTx" where
  "txUpdate tx tbl rows = tx\<lparr>tables := (tables tx)(tbl := rows)\<rparr>"

subsection \<open>Byte strings\<close>

definition hasPrefix :: "bytes \<Rightarrow> bytes \<Rightarrow> bool" where
  "hasPrefix s p \<longleftrightarrow> take (length p) s = p"

text \<open>\<^verbatim>\<open>binary.BigEndian.PutUint64\<close> and \<^verbatim>\<open>binary.BigEndian.Uint64\<close>; the latter panics on fewer than 8 bytes.\<close>

definition be_u64 :: "u64 \<Rightarrow> bytes" where
  "be_u64 w = map (\<lambda>i. ucast (drop_bit (8 * (7 - i)) w)) [0, 1, 2, 3, 4, 5, 6, 7]"

definition BigEndian_Uint64 :: "bytes \<Rightarrow> error + u64" where
  "BigEndian_Uint64 b =
     (if length b < 8 then Inl (Panic ''index out of range'')
      else Inr (foldl (\<lambda>a x. push_bit 8 a OR ucast x) 0 (take 8 b)))"

section \<open>The merge of cursors (util.go, \<^verbatim>\<open>CursorHeap\<close>; the loops of the prefix iterations)\<close>

datatype CursorType = FILE_CURSOR | DB_CURSOR | RAM_CURSOR

text \<open>
  \<^verbatim>\<open>CursorItem\<close>. The fields \<^verbatim>\<open>c\<close>, \<^verbatim>\<open>t\<close> and \<^verbatim>\<open>endTxNum\<close> are \<open>dbCursor\<close>, \<open>ctype\<close> and \<open>itemEndTxNum\<close>
  here. The three cursors are the rows, map entries and file words from the current one on.
\<close>

record CursorItem =
  dbCursor :: table
  iter :: "(bytes \<times> gobytes) list"
  btCursor :: "(bytes \<times> bytes) list"
  key :: bytes
  val :: gobytes
  itemEndTxNum :: u64
  ctype :: CursorType
  reverse :: bool

definition Less :: "CursorItem \<Rightarrow> CursorItem \<Rightarrow> bool" where
  "Less a b =
     (if key a = key b
      then (if reverse a then itemEndTxNum a > itemEndTxNum b
            else itemEndTxNum a < itemEndTxNum b)
      else key a < key b)"

text \<open>
  The heap of \<^verbatim>\<open>container/heap\<close> (the Go library) is modelled by its contract: index 0 holds
  a least item under \<^verbatim>\<open>Less\<close> and \<^verbatim>\<open>Pop\<close> removes it. The model keeps the items in a list
  ordered by \<^verbatim>\<open>Less\<close>; among items that \<^verbatim>\<open>Less\<close> does not order, the one pushed first comes
  first.
\<close>

fun heap_Push :: "CursorItem list \<Rightarrow> CursorItem \<Rightarrow> CursorItem list" where
  "heap_Push [] x = [x]"
| "heap_Push (y # ys) x = (if Less x y then x # y # ys else y # heap_Push ys x)"

text \<open>What the loops read of their surroundings.\<close>

record iterEnv =
  envPrefix :: bytes
  envStepSize :: u64
  envHaveRamUpdates :: bool
  envTxNum :: u64
  envRoTx :: kvTx
  envValsTable :: string

definition setTxNumError :: error where
  "setTxNumError = Error ''probably you didn't set SharedDomains.SetTxNum(). ram must be ahead of db''"

text \<open>
  The hot-tier row under the cursor becomes the item: its step is the inverted value, its
  \<^verbatim>\<open>endTxNum\<close> the first tx of that step, its value is read from the values table at the
  key followed by the 8 bytes of the step. \<^verbatim>\<open>IterateStoragePrefix\<close> returns an error here when
  the in-memory map has entries and the row is not behind the current tx number;
  \<^verbatim>\<open>IteratePrefix\<close> has no such check (\<open>envHaveRamUpdates\<close> is false for it).
\<close>

definition dbItem :: "iterEnv \<Rightarrow> CursorItem \<Rightarrow> table \<Rightarrow> bytes \<Rightarrow> bytes \<Rightarrow> error + CursorItem" where
  "dbItem env ci pos k v =
     (case BigEndian_Uint64 v of
        Inl e \<Rightarrow> Inl e
      | Inr w \<Rightarrow>
          let step = NOT w;
              endTx = step * envStepSize env
          in if envHaveRamUpdates env \<and> endTx \<ge> envTxNum env then Inl setTxNumError
             else Inr (ci\<lparr>dbCursor := pos, key := k, itemEndTxNum := endTx,
                         val := GetOne (envRoTx env) (envValsTable env) (k @ take 8 v)\<rparr>))"

text \<open>
  The body of the \<^verbatim>\<open>switch ci1.t\<close> of both loops, with \<^verbatim>\<open>UseBtree\<close> at its value \<^verbatim>\<open>true\<close>: the
  popped item moved to the next key of its cursor, or \<open>None\<close> when the cursor is exhausted or
  has left the prefix and the item is not pushed back.
\<close>

definition advance :: "iterEnv \<Rightarrow> CursorItem \<Rightarrow> error + CursorItem option" where
  "advance env ci1 =
     (case ctype ci1 of
        RAM_CURSOR \<Rightarrow>
          (case tl (iter ci1) of
             [] \<Rightarrow> Inr None
           | (k, v) # rest \<Rightarrow>
               if hasPrefix k (envPrefix env)
               then Inr (Some (ci1\<lparr>iter := tl (iter ci1), key := k, val := v\<rparr>))
               else Inr None)
      | FILE_CURSOR \<Rightarrow>
          (case tl (btCursor ci1) of
             [] \<Rightarrow> Inr None
           | (k, v) # rest \<Rightarrow>
               if hasPrefix k (envPrefix env)
               then Inr (Some (ci1\<lparr>btCursor := tl (btCursor ci1), key := k, val := Some v\<rparr>))
               else Inr None)
      | DB_CURSOR \<Rightarrow>
          (case cursorNextNoDup (dbCursor ci1) of
             [] \<Rightarrow> Inr None
           | (k, v) # rest \<Rightarrow>
               if hasPrefix k (envPrefix env)
               then (case dbItem env ci1 (cursorNextNoDup (dbCursor ci1)) k v of
                       Inl e \<Rightarrow> Inl e
                     | Inr ci' \<Rightarrow> Inr (Some ci'))
               else Inr None))"

text \<open>The entries a cursor still holds, the current one included: the measure of the loops.\<close>

definition remaining :: "CursorItem \<Rightarrow> nat" where
  "remaining ci =
     (case ctype ci of
        RAM_CURSOR \<Rightarrow> length (iter ci)
      | FILE_CURSOR \<Rightarrow> length (btCursor ci)
      | DB_CURSOR \<Rightarrow> length (dbCursor ci))"

definition heapSize :: "CursorItem list \<Rightarrow> nat" where
  "heapSize cp = sum_list (map (\<lambda>ci. Suc (remaining ci)) cp)"

lemma heapSize_Push: "heapSize (heap_Push cp x) = heapSize cp + Suc (remaining x)"
  by (induction cp) (auto simp: heapSize_def)

lemma length_cursorNextNoDup: "pos \<noteq> [] \<Longrightarrow> length (cursorNextNoDup pos) < length pos"
  by (cases pos) (auto simp: cursorNextNoDup_def intro: le_imp_less_Suc length_dropWhile_le)

lemma dbItem_remaining:
  "dbItem env ci pos k v = Inr ci' \<Longrightarrow> ctype ci' = ctype ci \<and> dbCursor ci' = pos"
  by (auto simp: dbItem_def Let_def split: sum.splits if_splits)

lemma advance_remaining:
  assumes "advance env ci = Inr (Some ci')"
  shows "remaining ci' < remaining ci"
proof (cases "ctype ci")
  case FILE_CURSOR
  with assms show ?thesis
    by (cases "btCursor ci")
       (auto simp: advance_def remaining_def split: list.splits if_splits)
next
  case RAM_CURSOR
  with assms show ?thesis
    by (cases "iter ci")
       (auto simp: advance_def remaining_def split: list.splits if_splits)
next
  case DB_CURSOR
  from assms DB_CURSOR obtain k v rest where
    pos: "cursorNextNoDup (dbCursor ci) = (k, v) # rest"
    and it: "dbItem env ci (cursorNextNoDup (dbCursor ci)) k v = Inr ci'"
    by (auto simp: advance_def split: list.splits if_splits sum.splits)
  from pos have ne: "dbCursor ci \<noteq> []" by (auto simp: cursorNextNoDup_def)
  from dbItem_remaining [OF it] length_cursorNextNoDup [OF ne] DB_CURSOR
  show ?thesis by (simp add: remaining_def)
qed

text \<open>
  The inner loop \<^verbatim>\<open>for cp.Len() > 0 && bytes.Equal(cp[0].key, lastKey)\<close>: every item at the
  last key is popped, advanced and, unless its cursor is done, pushed back.
\<close>

function advanceSame :: "iterEnv \<Rightarrow> bytes \<Rightarrow> CursorItem list \<Rightarrow> error + CursorItem list" where
  "advanceSame env lastKey cp =
     (case cp of
        [] \<Rightarrow> Inr []
      | ci1 # rest \<Rightarrow>
          if key ci1 = lastKey
          then (case advance env ci1 of
                  Inl e \<Rightarrow> Inl e
                | Inr None \<Rightarrow> advanceSame env lastKey rest
                | Inr (Some ci') \<Rightarrow> advanceSame env lastKey (heap_Push rest ci'))
          else Inr cp)"
  by pat_completeness auto
termination
proof (relation "measure (\<lambda>(env, k, cp). heapSize cp)", goal_cases)
  case 1
  show ?case by simp
next
  case (2 env lastKey cp ci1 rest)
  then show ?case by (simp add: heapSize_def)
next
  case (3 env lastKey cp ci1 rest x ci')
  then show ?case
    using advance_remaining [of env ci1 ci'] by (simp add: heapSize_Push) (simp add: heapSize_def)
qed

declare advanceSame.simps [simp del]

lemma advanceSame_Nil: "advanceSame env k [] = Inr []"
  by (simp add: advanceSame.simps)

lemma advanceSame_Cons:
  "advanceSame env k (ci1 # rest) =
     (if key ci1 = k
      then (case advance env ci1 of
              Inl e \<Rightarrow> Inl e
            | Inr None \<Rightarrow> advanceSame env k rest
            | Inr (Some ci') \<Rightarrow> advanceSame env k (heap_Push rest ci'))
      else Inr (ci1 # rest))"
  by (simp add: advanceSame.simps [of env k "ci1 # rest"])

lemma advanceSame_size:
  "advanceSame env k cp = Inr cp' \<Longrightarrow> heapSize cp' \<le> heapSize cp"
proof (induction env k cp arbitrary: cp' rule: advanceSame.induct)
  case (1 env lastKey cp)
  show ?case
  proof (cases cp)
    case Nil
    with "1.prems" show ?thesis by (simp add: advanceSame_Nil)
  next
    case (Cons ci1 rest)
    show ?thesis
    proof (cases "key ci1 = lastKey")
      case False
      with Cons "1.prems" show ?thesis by (simp add: advanceSame_Cons)
    next
      case True
      show ?thesis
      proof (cases "advance env ci1")
        case (Inl e)
        with Cons True "1.prems" show ?thesis by (simp add: advanceSame_Cons)
      next
        case (Inr x)
        show ?thesis
        proof (cases x)
          case None
          with Cons True Inr "1.prems" have "advanceSame env lastKey rest = Inr cp'"
            by (simp add: advanceSame_Cons)
          from "1.IH"(1) [OF Cons True Inr None this] Cons show ?thesis
            by (simp add: heapSize_def)
        next
          case (Some ci')
          with Cons True Inr "1.prems" have "advanceSame env lastKey (heap_Push rest ci') = Inr cp'"
            by (simp add: advanceSame_Cons)
          from "1.IH"(2) [OF Cons True Inr Some this] Cons advance_remaining [of env ci1 ci'] Inr Some
          show ?thesis by (simp add: heapSize_Push) (simp add: heapSize_def)
        qed
      qed
    qed
  qed
qed

lemma advanceSame_size_less:
  "advanceSame env (key ci0) (ci0 # rest) = Inr cp' \<Longrightarrow> heapSize cp' < heapSize (ci0 # rest)"
proof -
  assume a: "advanceSame env (key ci0) (ci0 # rest) = Inr cp'"
  show ?thesis
  proof (cases "advance env ci0")
    case (Inl e) with a show ?thesis by (simp add: advanceSame_Cons)
  next
    case (Inr x)
    show ?thesis
    proof (cases x)
      case None
      with a Inr have "advanceSame env (key ci0) rest = Inr cp'"
        by (simp add: advanceSame_Cons)
      from advanceSame_size [OF this] show ?thesis by (simp add: heapSize_def)
    next
      case (Some ci')
      with a Inr have "advanceSame env (key ci0) (heap_Push rest ci') = Inr cp'"
        by (simp add: advanceSame_Cons)
      from advanceSame_size [OF this] advance_remaining [of env ci0 ci'] Inr Some
      show ?thesis by (simp add: heapSize_Push) (simp add: heapSize_def)
    qed
  qed
qed

text \<open>
  The outer loop \<^verbatim>\<open>for cp.Len() > 0\<close>. The visitor \<^verbatim>\<open>it\<close> is a Go closure: here a function
  of the key, the value and the state it closes over, to an optional error and the new
  state. The loop returns the error, if any, and the visitor's last state.
\<close>

function mergeLoop ::
  "iterEnv \<Rightarrow> CursorItem list \<Rightarrow> (bytes \<Rightarrow> gobytes \<Rightarrow> 's \<Rightarrow> error option \<times> 's) \<Rightarrow> 's \<Rightarrow> error option \<times> 's" where
  "mergeLoop env cp it s =
     (case cp of
        [] \<Rightarrow> (None, s)
      | ci0 # rest \<Rightarrow>
          (case advanceSame env (key ci0) cp of
             Inl e \<Rightarrow> (Some e, s)
           | Inr cp' \<Rightarrow>
               if glen (val ci0) > 0
               then (case it (key ci0) (val ci0) s of
                       (Some e, s') \<Rightarrow> (Some e, s')
                     | (None, s') \<Rightarrow> mergeLoop env cp' it s')
               else mergeLoop env cp' it s))"
  by pat_completeness auto
termination
  by (relation "measure (\<lambda>(env, cp, it, s). heapSize cp)")
     (auto dest: advanceSame_size_less)


text \<open>
  The rows a cursor of a duplicate-sorted table stands on when it is moved by \<^verbatim>\<open>NextNoDup\<close> only:
  the first row of each run of rows of one key. \<open>seenRows\<close> are the rows the loops of the prefix
  iterations read from the keys table: from \<^verbatim>\<open>Seek(prefix)\<close> on, while the key is under the prefix.
\<close>

function noDupRows :: "table \<Rightarrow> table" where
  "noDupRows [] = []"
| "noDupRows (r # rs) = r # noDupRows (cursorNextNoDup (r # rs))"
  by pat_completeness auto
termination
proof (relation "measure length", goal_cases)
  case 1
  show ?case by simp
next
  case (2 r rs)
  from length_cursorNextNoDup [of "r # rs"] show ?case by simp
qed

definition seenRows :: "bytes \<Rightarrow> table \<Rightarrow> table" where
  "seenRows pfx rows = takeWhile (\<lambda>r. hasPrefix (fst r) pfx) (noDupRows (cursorSeek rows pfx))"

text \<open>The \<^verbatim>\<open>endTxNum\<close> the loops compute for a row of the keys table: the first tx of its step.\<close>

definition rowEndTxNum :: "u64 \<Rightarrow> bytes \<Rightarrow> u64" where
  "rowEndTxNum stepSize v = (case BigEndian_Uint64 v of Inr w \<Rightarrow> NOT w * stepSize | Inl e \<Rightarrow> 0)"

text \<open>
  The rows still ahead of the cursor of a hot-tier item, and whether one of them fails the check
  of \<^verbatim>\<open>IterateStoragePrefix\<close>, \<^verbatim>\<open>endTxNum >= sd.txNum\<close>.
\<close>

definition nextRows :: "iterEnv \<Rightarrow> CursorItem \<Rightarrow> table" where
  "nextRows env ci =
     takeWhile (\<lambda>r. hasPrefix (fst r) (envPrefix env)) (noDupRows (cursorNextNoDup (dbCursor ci)))"

definition badRow :: "iterEnv \<Rightarrow> bytes \<times> bytes \<Rightarrow> bool" where
  "badRow env r \<longleftrightarrow> envTxNum env \<le> rowEndTxNum (envStepSize env) (snd r)"

definition heapBad :: "iterEnv \<Rightarrow> CursorItem list \<Rightarrow> bool" where
  "heapBad env cp \<longleftrightarrow>
     (\<exists>ci \<in> set cp. ctype ci = DB_CURSOR \<and> (\<exists>r \<in> set (nextRows env ci). badRow env r))"

definition wfRows :: "CursorItem list \<Rightarrow> bool" where
  "wfRows cp \<longleftrightarrow>
     (\<forall>ci \<in> set cp. ctype ci = DB_CURSOR \<longrightarrow> (\<forall>r \<in> set (dbCursor ci). 8 \<le> length (snd r)))"

section \<open>Domain contexts (util.go, \<^verbatim>\<open>DomainContext\<close>)\<close>

text \<open>
  \<^verbatim>\<open>ctxItem\<close>: a file of the read-only view. Its own copies of the file's range are
  \<open>ctxStartTxNum\<close> and \<open>ctxEndTxNum\<close> here.
\<close>

record 'f ctxItem =
  ctxStartTxNum :: u64
  ctxEndTxNum :: u64
  src :: "'f filesItem"

text \<open>
  Modelled from the spec: the history and its inverted index (history.go and
  inverted_index.go are not part of these sources). "For every key mutation, records the
  transaction number in which it changed, plus the pre-image value": the history is the list
  of its records (key, txNum, pre-image), the hot ones in the transaction under the name of
  the history values table, the ones of the history files in the context.
\<close>

type_synonym historyRecord = "bytes \<times> u64 \<times> bytes"

record HistoryContext =
  historyValsTable :: string
  histFiles :: "historyRecord list"

text \<open>The fields \<^verbatim>\<open>d\<close>, \<^verbatim>\<open>files\<close> and \<^verbatim>\<open>hc\<close> of \<^verbatim>\<open>DomainContext\<close> are \<open>dc_d\<close>, \<open>dc_files\<close> and \<open>dc_hc\<close> here.\<close>

record 'f DomainContext =
  dc_d :: "'f Domain"
  dc_files :: "'f ctxItem list"
  dc_hc :: HistoryContext

definition allHistory :: "HistoryContext \<Rightarrow> kvTx \<Rightarrow> historyRecord list" where
  "allHistory h tx = history tx (historyValsTable h) @ histFiles h"

text \<open>
  Modelled from the spec: \<^verbatim>\<open>GetNoStateWithRecent(key, txNum)\<close> "returns the pre-image at
  txNum without consulting domain values": it finds "the smallest t \<ge> txNum for which key
  was mutated" and returns the pre-image of that mutation; of several records of one key
  and tx number the first one counts ("the first write wins").
\<close>

fun firstMutationFrom :: "historyRecord list \<Rightarrow> bytes \<Rightarrow> u64 \<Rightarrow> (u64 \<times> bytes) option" where
  "firstMutationFrom [] k txNum = None"
| "firstMutationFrom (r # rs) k txNum =
     (if fst r = k \<and> txNum \<le> fst (snd r)
      then (case firstMutationFrom rs k txNum of
              None \<Rightarrow> Some (snd r)
            | Some (t', v') \<Rightarrow> if t' < fst (snd r) then Some (t', v') else Some (snd r))
      else firstMutationFrom rs k txNum)"

definition GetNoStateWithRecent :: "HistoryContext \<Rightarrow> bytes \<Rightarrow> u64 \<Rightarrow> kvTx \<Rightarrow> gobytes \<times> bool" where
  "GetNoStateWithRecent h k txNum tx =
     (case firstMutationFrom (allHistory h tx) k txNum of
        None \<Rightarrow> (None, False)
      | Some (t, v) \<Rightarrow> (Some v, True))"

text \<open>
  Modelled from the spec: \<^verbatim>\<open>HistoryRange\<close> from a tx number on, ascending and without
  limit, as \<^verbatim>\<open>Unwind\<close> uses it: each key mutated at or after the tx number, once, in ascending
  key order, with its pre-image at that tx number (the pre-image of its first mutation from
  there on).
\<close>

definition HistoryRange :: "HistoryContext \<Rightarrow> u64 \<Rightarrow> kvTx \<Rightarrow> (bytes \<times> bytes) list" where
  "HistoryRange h fromTxNum tx =
     (let recs = allHistory h tx;
          ks = sort (remdups (map fst (filter (\<lambda>r. fromTxNum \<le> fst (snd r)) recs)))
      in map (\<lambda>k. (k, case firstMutationFrom recs k fromTxNum of
                          None \<Rightarrow> [] | Some (t, v) \<Rightarrow> v)) ks)"

text \<open>
  Modelled from the spec: \<^verbatim>\<open>IdxRange(key, [from, to), order.Desc, -1)\<close>, "a lazy sequence of
  txNums in the requested order": the tx numbers of the mutations of the key from \<open>from\<close>
  down to, and without, \<open>to\<close>, descending.
\<close>

definition IdxRangeDesc :: "HistoryContext \<Rightarrow> bytes \<Rightarrow> u64 \<Rightarrow> u64 \<Rightarrow> kvTx \<Rightarrow> u64 list" where
  "IdxRangeDesc h k fromTxNum toTxNum tx =
     rev (sort (remdups (map (\<lambda>r. fst (snd r))
        (filter (\<lambda>r. fst r = k \<and> toTxNum < fst (snd r) \<and> fst (snd r) \<le> fromTxNum)
           (allHistory h tx)))))"

text \<open>
  Modelled from the spec: the pruning of the history from a tx number on without limit, as
  \<^verbatim>\<open>Unwind\<close> calls it ("prunes history at txNumUnwindTo"): the hot records from there on go.
\<close>

definition historyPrune :: "HistoryContext \<Rightarrow> u64 \<Rightarrow> kvTx \<Rightarrow> kvTx" where
  "historyPrune h fromTxNum tx =
     tx\<lparr>history := (history tx)(historyValsTable h :=
          filter (\<lambda>r. fst (snd r) < fromTxNum) (history tx (historyValsTable h)))\<rparr>"

subsection \<open>Reading the latest value\<close>

text \<open>
  What the read path takes from code that is not part of these sources: the bloom filter
  package, the hash of a key (\<^verbatim>\<open>hashKey\<close>), and the deprecated lookup through locality
  indexes, which \<^verbatim>\<open>getLatestFromFiles\<close> uses for a domain without existence index.
\<close>

record 'f readLibs =
  bloomLib :: "'f bloomfilter"
  hashKey :: "bytes \<Rightarrow> u64"
  withoutExistenceIndex :: "'f DomainContext \<Rightarrow> bytes \<Rightarrow> error + gobytes \<times> bool"

text \<open>
  \<^verbatim>\<open>getFromFile\<close> with \<^verbatim>\<open>UseBtree\<close> at its value \<^verbatim>\<open>true\<close>. Modelled from the spec: the lookup
  \<^verbatim>\<open>BtIndex.Get\<close> (btree_index.go is not part of these sources) is the "probe of the B-tree
  for exact match": the value of the key in the words of the file. A nil decompressor or
  index is dereferenced: a panic.
\<close>

definition getFromFile :: "'f ctxItem \<Rightarrow> bytes \<Rightarrow> error + gobytes \<times> bool" where
  "getFromFile item filekey =
     (case decompressor (src item) of
        None \<Rightarrow> Inl (Panic ''nil pointer dereference'')
      | Some kvs \<Rightarrow>
          if \<not> bindex (src item) then Inl (Panic ''nil pointer dereference'')
          else (case map_of kvs filekey of
                  None \<Rightarrow> Inr (None, False)
                | Some v \<Rightarrow> Inr (Some v, True)))"

text \<open>The loop of \<^verbatim>\<open>getLatestFromFiles\<close> over the files, from the newest (the last) down.\<close>

fun getLatestFromFilesLoop ::
  "'f readLibs \<Rightarrow> 'f ctxItem list \<Rightarrow> bytes \<Rightarrow> u64 \<Rightarrow> error + gobytes \<times> bool" where
  "getLatestFromFilesLoop libs [] filekey hi = Inr (None, False)"
| "getLatestFromFilesLoop libs (item # older) filekey hi =
     (case (case existence (src item) of
              None \<Rightarrow> Inr True
            | Some ex \<Rightarrow> ContainsHash (bloomLib libs) ex hi) of
        Inl e \<Rightarrow> Inl e
      | Inr False \<Rightarrow> getLatestFromFilesLoop libs older filekey hi
      | Inr True \<Rightarrow>
          (case getFromFile item filekey of
             Inl e \<Rightarrow> Inl e
           | Inr (v, found) \<Rightarrow>
               if \<not> found then getLatestFromFilesLoop libs older filekey hi
               else Inr (v, True)))"

definition getLatestFromFiles ::
  "'f readLibs \<Rightarrow> 'f DomainContext \<Rightarrow> bytes \<Rightarrow> error + gobytes \<times> bool" where
  "getLatestFromFiles libs dc filekey =
     (if \<not> withExistenceIndex (dc_d dc) then withoutExistenceIndex libs dc filekey
      else getLatestFromFilesLoop libs (rev (dc_files dc)) filekey (hashKey libs filekey))"

text \<open>
  \<^verbatim>\<open>DomainContext.GetLatest\<close>. The key of the values table, the key followed by the 8 bytes
  of the inverted step, is built in the 60-byte buffer \<^verbatim>\<open>valKeyBuf\<close>: slicing it beyond its
  capacity panics.
\<close>

definition GetLatest ::
  "'f readLibs \<Rightarrow> 'f DomainContext \<Rightarrow> bytes \<Rightarrow> bytes \<Rightarrow> kvTx \<Rightarrow> error + gobytes \<times> bool" where
  "GetLatest libs dc key1 key2 tx =
     (let k = key1 @ key2
      in case cursorSeekExact (tables tx (keysTable (dc_d dc))) k of
           Some (k', foundInvStep) \<Rightarrow>
             if length k + 8 > 60 then Inl (Panic ''slice bounds out of range'')
             else Inr (GetOne tx (valsTable (dc_d dc)) (k @ take 8 foundInvStep), True)
         | None \<Rightarrow> getLatestFromFiles libs dc k)"

text \<open>\<^verbatim>\<open>DomainContext.GetAsOf\<close>.\<close>

definition GetAsOf ::
  "'f readLibs \<Rightarrow> 'f DomainContext \<Rightarrow> bytes \<Rightarrow> u64 \<Rightarrow> kvTx \<Rightarrow> error + gobytes" where
  "GetAsOf libs dc k txNum tx =
     (case GetNoStateWithRecent (dc_hc dc) k txNum tx of
        (v, hOk) \<Rightarrow>
          if hOk then (if glen v = 0 then Inr None else Inr v)
          else (case GetLatest libs dc k [] tx of
                  Inl e \<Rightarrow> Inl e
                | Inr (v', found) \<Rightarrow> Inr v'))"

subsection \<open>Prefix iteration over a domain\<close>

text \<open>
  Modelled from the spec: \<^verbatim>\<open>BtIndex.Seek\<close> (btree_index.go is not part of these sources), the
  ordered access to a file: the cursor at the first key not below the sought one, the nil
  cursor (here the empty list) when there is none.
\<close>

definition btSeek :: "'f filesItem \<Rightarrow> bytes \<Rightarrow> error + (bytes \<times> bytes) list" where
  "btSeek f k =
     (case decompressor f of
        None \<Rightarrow> Inl (Panic ''nil pointer dereference'')
      | Some kvs \<Rightarrow>
          if \<not> bindex f then Inl (Panic ''nil pointer dereference'')
          else Inr (dropWhile (\<lambda>r. fst r < k) kvs))"

definition fileItem :: "'f ctxItem \<Rightarrow> (bytes \<times> bytes) list \<Rightarrow> bytes \<Rightarrow> bytes \<Rightarrow> CursorItem" where
  "fileItem item cur k v =
     \<lparr>dbCursor = [], iter = [], btCursor = cur, key = k, val = Some v,
      itemEndTxNum = ctxEndTxNum item - 1, ctype = FILE_CURSOR, reverse = True\<rparr>"

text \<open>The loop over the files that pushes one cursor per file with a key under the prefix.\<close>

fun pushFiles :: "bytes \<Rightarrow> 'f ctxItem list \<Rightarrow> CursorItem list \<Rightarrow> error + CursorItem list" where
  "pushFiles pfx [] cp = Inr cp"
| "pushFiles pfx (item # items) cp =
     (case btSeek (src item) pfx of
        Inl e \<Rightarrow> Inl e
      | Inr [] \<Rightarrow> pushFiles pfx items cp
      | Inr ((k, v) # rest) \<Rightarrow>
          if hasPrefix k pfx
          then pushFiles pfx items (heap_Push cp (fileItem item ((k, v) # rest) k v))
          else pushFiles pfx items cp)"

definition newDbItem :: CursorItem where
  "newDbItem = \<lparr>dbCursor = [], iter = [], btCursor = [], key = [], val = None,
                itemEndTxNum = 0, ctype = DB_CURSOR, reverse = True\<rparr>"

text \<open>The cursor of the keys table, sought to the prefix and pushed if it is under it.\<close>

definition pushDb :: "iterEnv \<Rightarrow> table \<Rightarrow> CursorItem list \<Rightarrow> error + CursorItem list" where
  "pushDb env keysRows cp =
     (case cursorSeek keysRows (envPrefix env) of
        [] \<Rightarrow> Inr cp
      | (k, v) # rest \<Rightarrow>
          if hasPrefix k (envPrefix env)
          then (case dbItem env newDbItem ((k, v) # rest) k v of
                  Inl e \<Rightarrow> Inl e
                | Inr ci \<Rightarrow> Inr (heap_Push cp ci))
          else Inr cp)"

text \<open>\<^verbatim>\<open>DomainContext.IteratePrefix\<close>.\<close>

definition IteratePrefix ::
  "'f DomainContext \<Rightarrow> kvTx \<Rightarrow> bytes \<Rightarrow> (bytes \<Rightarrow> gobytes \<Rightarrow> 's \<Rightarrow> error option \<times> 's) \<Rightarrow> 's \<Rightarrow>
   error option \<times> 's" where
  "IteratePrefix dc tx pfx it s =
     (let env = \<lparr>envPrefix = pfx, envStepSize = aggregationStep (dc_d dc),
                 envHaveRamUpdates = False, envTxNum = 0, envRoTx = tx,
                 envValsTable = valsTable (dc_d dc)\<rparr>
      in case pushDb env (tables tx (keysTable (dc_d dc))) [] of
           Inl e \<Rightarrow> (Some e, s)
         | Inr cp1 \<Rightarrow>
             (case pushFiles pfx (dc_files dc) cp1 of
                Inl e \<Rightarrow> (Some e, s)
              | Inr cp2 \<Rightarrow> mergeLoop env cp2 it s))"

text \<open>A visitor that records its calls and never fails.\<close>

definition recordVisit :: "bytes \<Rightarrow> gobytes \<Rightarrow> (bytes \<times> gobytes) list \<Rightarrow> error option \<times> (bytes \<times> gobytes) list" where
  "recordVisit k v calls = (None, calls @ [(k, v)])"

text \<open>
  What a cursor item stands for in the merge: the entries (key, value, \<^verbatim>\<open>endTxNum\<close>) it yields
  from its current one on, while the keys are under the prefix. A hot-tier item yields one
  entry per key, from the first row of the key, a file item one per word pair of the file,
  an item of the in-memory map one per map entry.
\<close>

type_synonym entry = "bytes \<times> gobytes \<times> u64"

definition current :: "CursorItem \<Rightarrow> entry" where
  "current ci = (key ci, val ci, itemEndTxNum ci)"

definition dbEntry :: "iterEnv \<Rightarrow> bytes \<times> bytes \<Rightarrow> entry" where
  "dbEntry env r =
     (fst r, GetOne (envRoTx env) (envValsTable env) (fst r @ take 8 (snd r)),
      rowEndTxNum (envStepSize env) (snd r))"

definition fileEntry :: "u64 \<Rightarrow> bytes \<times> bytes \<Rightarrow> entry" where
  "fileEntry e r = (fst r, Some (snd r), e)"

definition ramEntry :: "u64 \<Rightarrow> bytes \<times> gobytes \<Rightarrow> entry" where
  "ramEntry e r = (fst r, snd r, e)"

definition underPrefix :: "bytes \<Rightarrow> (bytes \<times> 'a) list \<Rightarrow> (bytes \<times> 'a) list" where
  "underPrefix pfx xs = takeWhile (\<lambda>r. hasPrefix (fst r) pfx) xs"

definition fut :: "iterEnv \<Rightarrow> CursorItem \<Rightarrow> entry list" where
  "fut env ci =
     (case ctype ci of
        FILE_CURSOR \<Rightarrow> map (fileEntry (itemEndTxNum ci)) (underPrefix (envPrefix env) (btCursor ci))
      | RAM_CURSOR \<Rightarrow> map (ramEntry (itemEndTxNum ci)) (underPrefix (envPrefix env) (iter ci))
      | DB_CURSOR \<Rightarrow> map (dbEntry env) (underPrefix (envPrefix env) (noDupRows (dbCursor ci))))"

text \<open>
  The invariant of the loops: every item of the heap is at the first of its entries, which are
  in strictly ascending key order, and the heap is in the order of \<^verbatim>\<open>Less\<close>.
\<close>

definition itemOk :: "iterEnv \<Rightarrow> CursorItem \<Rightarrow> bool" where
  "itemOk env ci \<longleftrightarrow>
     reverse ci \<and> (\<exists>rest. fut env ci = current ci # rest) \<and> sorted_wrt (<) (map fst (fut env ci))"

definition heapOk :: "iterEnv \<Rightarrow> CursorItem list \<Rightarrow> bool" where
  "heapOk env cp \<longleftrightarrow> (\<forall>ci \<in> set cp. itemOk env ci) \<and> sorted_wrt (\<lambda>a b. \<not> Less b a) cp"

definition pending :: "iterEnv \<Rightarrow> CursorItem list \<Rightarrow> entry set" where
  "pending env cp = (\<Union>ci \<in> set cp. set (fut env ci))"

text \<open>
  A value is the newest of a key among entries: it is the value of an entry of the key whose
  \<^verbatim>\<open>endTxNum\<close> no entry of the key exceeds.
\<close>

definition newest :: "entry set \<Rightarrow> bytes \<Rightarrow> gobytes \<Rightarrow> bool" where
  "newest es k v \<longleftrightarrow> (\<exists>e. (k, v, e) \<in> es \<and> (\<forall>x \<in> es. fst x = k \<longrightarrow> snd (snd x) \<le> e))"

text \<open>
  The sources of \<^verbatim>\<open>IteratePrefix\<close> as data: every key of the keys table under the prefix, with
  the step of its first row (the greatest step, the rows of a key being in ascending order of
  the inverted step) and the value of that step, at the first tx number of the step; and every
  word pair of every file of the context under the prefix, at \<^verbatim>\<open>endTxNum - 1\<close> of the file.
\<close>

definition prefixEnv :: "'f DomainContext \<Rightarrow> kvTx \<Rightarrow> bytes \<Rightarrow> iterEnv" where
  "prefixEnv dc tx pfx =
     \<lparr>envPrefix = pfx, envStepSize = aggregationStep (dc_d dc),
      envHaveRamUpdates = False, envTxNum = 0, envRoTx = tx,
      envValsTable = valsTable (dc_d dc)\<rparr>"

definition fileWords :: "'f ctxItem \<Rightarrow> (bytes \<times> bytes) list" where
  "fileWords item = (case decompressor (src item) of Some kvs \<Rightarrow> kvs | None \<Rightarrow> [])"

definition dbEntries :: "iterEnv \<Rightarrow> table \<Rightarrow> entry list" where
  "dbEntries env rows =
     map (dbEntry env) (filter (\<lambda>r. hasPrefix (fst r) (envPrefix env)) (noDupRows rows))"

definition fileEntries :: "bytes \<Rightarrow> 'f ctxItem \<Rightarrow> entry list" where
  "fileEntries pfx item =
     map (fileEntry (ctxEndTxNum item - 1)) (filter (\<lambda>r. hasPrefix (fst r) pfx) (fileWords item))"

definition prefixEntries :: "'f DomainContext \<Rightarrow> kvTx \<Rightarrow> bytes \<Rightarrow> entry list" where
  "prefixEntries dc tx pfx =
     dbEntries (prefixEnv dc tx pfx) (tables tx (keysTable (dc_d dc))) @
     concat (map (fileEntries pfx) (dc_files dc))"

section \<open>Buffered writers (util.go, \<^verbatim>\<open>domainBufferedWriter\<close>)\<close>

text \<open>
  Modelled from the spec: the writer of the history (history.go is not part of these
  sources). \<^verbatim>\<open>AddPrevValue(key, txNum, preImage)\<close> "appends to both tables": the writer buffers
  the records (key, txNum, pre-image), and its flush adds them to the hot history.
\<close>

record historyBufferedWriter =
  hwTxNum :: u64
  hwRecords :: "(bytes \<times> u64 \<times> gobytes) list"
  hwTable :: string

definition AddPrevValue :: "historyBufferedWriter \<Rightarrow> bytes \<Rightarrow> bytes \<Rightarrow> gobytes \<Rightarrow> error + historyBufferedWriter" where
  "AddPrevValue hw key1 key2 original =
     Inr (hw\<lparr>hwRecords := hwRecords hw @ [(key1 @ key2, hwTxNum hw, original)]\<rparr>)"

definition gbytes :: "gobytes \<Rightarrow> bytes" where
  "gbytes v = (case v of None \<Rightarrow> [] | Some b \<Rightarrow> b)"

definition historyFlush :: "historyBufferedWriter \<Rightarrow> kvTx \<Rightarrow> kvTx" where
  "historyFlush hw tx =
     tx\<lparr>history := (history tx)(hwTable hw :=
          history tx (hwTable hw) @ map (\<lambda>r. (fst r, fst (snd r), gbytes (snd (snd r)))) (hwRecords hw))\<rparr>"

text \<open>
  \<^verbatim>\<open>domainBufferedWriter\<close>. The two collectors \<^verbatim>\<open>keys\<close> and \<^verbatim>\<open>values\<close> are the lists of the
  collected pairs, \<open>wKeys\<close> and \<open>wValues\<close>; \<^verbatim>\<open>h\<close> is \<open>wHistory\<close>, the table names are \<open>wKeysTable\<close>
  and \<open>wValsTable\<close>, and \<open>wAggregationStep\<close> is \<^verbatim>\<open>w.h.ii.aggregationStep\<close>.
\<close>

record domainBufferedWriter =
  wKeys :: "(bytes \<times> bytes) list"
  wValues :: "(bytes \<times> gobytes) list"
  setTxNumOnce :: bool
  discard :: bool
  wKeysTable :: string
  wValsTable :: string
  stepBytes :: bytes
  wHistory :: historyBufferedWriter
  wAggregationStep :: u64

text \<open>\<^verbatim>\<open>DomainContext.newWriter\<close>.\<close>

definition newWriter :: "'f DomainContext \<Rightarrow> bool \<Rightarrow> domainBufferedWriter" where
  "newWriter dc disc =
     \<lparr>wKeys = [], wValues = [], setTxNumOnce = False, discard = disc,
      wKeysTable = keysTable (dc_d dc), wValsTable = valsTable (dc_d dc),
      stepBytes = replicate 8 0,
      wHistory = \<lparr>hwTxNum = 0, hwRecords = [], hwTable = historyValsTable (dc_hc dc)\<rparr>,
      wAggregationStep = aggregationStep (dc_d dc)\<rparr>"

definition NewWriter :: "'f DomainContext \<Rightarrow> domainBufferedWriter" where
  "NewWriter dc = newWriter dc False"

text \<open>\<^verbatim>\<open>domainBufferedWriter.SetTxNum\<close>; the division by a zero step size panics.\<close>

definition SetTxNum :: "domainBufferedWriter \<Rightarrow> u64 \<Rightarrow> error + domainBufferedWriter" where
  "SetTxNum w v =
     (if wAggregationStep w = 0 then Inl (Panic ''integer divide by zero'')
      else Inr (w\<lparr>setTxNumOnce := True,
                  wHistory := (wHistory w)\<lparr>hwTxNum := v\<rparr>,
                  stepBytes := be_u64 (NOT (v div wAggregationStep w))\<rparr>))"

text \<open>\<^verbatim>\<open>domainBufferedWriter.addValue\<close> (the assertion under \<^verbatim>\<open>AGG_ASSERTS\<close> is off by default).\<close>

definition addValue :: "domainBufferedWriter \<Rightarrow> bytes \<Rightarrow> bytes \<Rightarrow> gobytes \<Rightarrow> error + domainBufferedWriter" where
  "addValue w key1 key2 v =
     (if discard w then Inr w
      else if \<not> setTxNumOnce w then Inl (Panic ''you forgot to call SetTxNum'')
      else let fullkey = key1 @ key2 @ stepBytes w
           in Inr (w\<lparr>wKeys := wKeys w @ [(key1 @ key2, stepBytes w)],
                      wValues := wValues w @ [(fullkey, v)]\<rparr>))"

definition PutWithPrev ::
  "domainBufferedWriter \<Rightarrow> bytes \<Rightarrow> bytes \<Rightarrow> gobytes \<Rightarrow> gobytes \<Rightarrow> error + domainBufferedWriter" where
  "PutWithPrev w key1 key2 v preval =
     (case AddPrevValue (wHistory w) key1 key2 preval of
        Inl e \<Rightarrow> Inl e
      | Inr h' \<Rightarrow> addValue (w\<lparr>wHistory := h'\<rparr>) key1 key2 v)"

definition DeleteWithPrev ::
  "domainBufferedWriter \<Rightarrow> bytes \<Rightarrow> bytes \<Rightarrow> gobytes \<Rightarrow> error + domainBufferedWriter" where
  "DeleteWithPrev w key1 key2 prev =
     (case AddPrevValue (wHistory w) key1 key2 prev of
        Inl e \<Rightarrow> Inl e
      | Inr h' \<Rightarrow> addValue (w\<lparr>wHistory := h'\<rparr>) key1 key2 None)"

text \<open>
  Modelled from the spec: the load of a collector (package \<^verbatim>\<open>etl\<close> and the \<^verbatim>\<open>loadFunc\<close> of the
  package are not part of these sources). "On flush, buffered writes land in the hot tier
  keyed by (key, inverted step)": the collected pairs are written to the table in key order,
  a later pair of the same key after an earlier one; a nil value is written as the empty
  value.
\<close>

definition loadKeys :: "(bytes \<times> bytes) list \<Rightarrow> table \<Rightarrow> table" where
  "loadKeys kvs rows = fold (\<lambda>r t. dupPut t (fst r) (snd r)) (sort_key fst kvs) rows"

definition loadValues :: "(bytes \<times> gobytes) list \<Rightarrow> table \<Rightarrow> table" where
  "loadValues kvs rows = fold (\<lambda>r t. tablePut t (fst r) (gbytes (snd r))) (sort_key fst kvs) rows"

text \<open>\<^verbatim>\<open>domainBufferedWriter.Flush\<close>: the history, then the keys, then the values.\<close>

definition writerFlush :: "domainBufferedWriter \<Rightarrow> kvTx \<Rightarrow> error + kvTx" where
  "writerFlush w tx =
     (if discard w then Inr tx
      else let tx1 = historyFlush (wHistory w) tx;
               tx2 = txUpdate tx1 (wKeysTable w) (loadKeys (wKeys w) (tables tx1 (wKeysTable w)));
               tx3 = txUpdate tx2 (wValsTable w) (loadValues (wValues w) (tables tx2 (wValsTable w)))
           in Inr tx3)"

text \<open>\<^verbatim>\<open>domainBufferedWriter.close\<close>: the collectors are closed, what they held is gone.\<close>

definition writerClose :: "domainBufferedWriter \<Rightarrow> domainBufferedWriter" where
  "writerClose w = w\<lparr>wKeys := [], wValues := [], wHistory := (wHistory w)\<lparr>hwRecords := []\<rparr>\<rparr>"

section \<open>Collation (util.go, \<^verbatim>\<open>Domain.collate\<close>)\<close>

text \<open>
  \<^verbatim>\<open>Collation\<close>: the words added to the compressor of the values in order (a key, its value,
  the next key, ...), the steps of the file name instead of its path, and the count. The
  collation of the history is of an arbitrary type \<open>'h\<close>.
\<close>

record 'h Collation =
  historyCollation :: "'h option"
  valuesComp :: "bytes list"
  valuesPath :: "u64 \<times> u64"
  valuesCount :: nat

definition assertTxFrom :: error where
  "assertTxFrom = Panic ''assert: unexpected txFrom''"

definition assertTxTo :: error where
  "assertTxTo = Panic ''assert: unexpected txTo''"

text \<open>
  The loop over the keys table, \<^verbatim>\<open>First\<close> and then \<^verbatim>\<open>Next\<close> through every row. The key of the
  values table is built in a buffer of 256 + 8 bytes: a longer key panics at the slice.
\<close>

fun collateLoop :: "kvTx \<Rightarrow> string \<Rightarrow> bytes \<Rightarrow> table \<Rightarrow> bytes list \<Rightarrow> error + bytes list" where
  "collateLoop tx valsT sb [] ws = Inr ws"
| "collateLoop tx valsT sb ((k, stepInDB) # rows) ws =
     (if sb \<noteq> stepInDB then collateLoop tx valsT sb rows ws
      else if length k > 256 then Inl (Panic ''slice bounds out of range'')
      else let v = GetOne tx valsT (k @ stepInDB)
           in collateLoop tx valsT sb rows (ws @ [k, gbytes v]))"

text \<open>
  \<^verbatim>\<open>Domain.collate\<close>. The collation of the history (\<^verbatim>\<open>d.History.collate\<close>) and the creation of
  the compressor are outside these sources: their results are the parameters \<open>histColl\<close> and
  \<open>newComp\<close> (an error or nothing). A remainder by a zero step size panics.
\<close>

definition collate ::
  "'f Domain \<Rightarrow> error + 'h \<Rightarrow> error option \<Rightarrow> u64 \<Rightarrow> u64 \<Rightarrow> u64 \<Rightarrow> kvTx \<Rightarrow> error + 'h Collation" where
  "collate d histColl newComp step txFrom txTo tx =
     (if aggregationStep d = 0 then Inl (Panic ''integer divide by zero'')
      else if txFrom mod aggregationStep d \<noteq> 0 then Inl assertTxFrom
      else if txTo mod aggregationStep d \<noteq> 0 then Inl assertTxTo
      else (case histColl of
              Inl e \<Rightarrow> Inl e
            | Inr hcoll \<Rightarrow>
                (case newComp of
                   Some e \<Rightarrow> Inl e
                 | None \<Rightarrow>
                     (case collateLoop tx (valsTable d) (be_u64 (NOT step))
                             (tables tx (keysTable d)) [] of
                        Inl e \<Rightarrow> Inl e
                      | Inr ws \<Rightarrow>
                          Inr \<lparr>historyCollation = Some hcoll, valuesComp = ws,
                               valuesPath = (step, step + 1),
                               valuesCount = length ws div 2\<rparr>))))"

text \<open>The (key, value) pairs of a sequence of words.\<close>

fun wordPairs :: "bytes list \<Rightarrow> (bytes \<times> bytes) list" where
  "wordPairs (k # v # ws) = (k, v) # wordPairs ws"
| "wordPairs ws = []"

section \<open>Unwind (util.go, \<^verbatim>\<open>DomainContext.Unwind\<close>)\<close>

text \<open>
  The first loop: for each key of the history range the writer's tx number is set and the
  pre-image is added as a value; the keys are collected in \<open>seen\<close>.
\<close>

fun unwindRestore ::
  "HistoryContext \<Rightarrow> kvTx \<Rightarrow> u64 \<Rightarrow> (bytes \<times> bytes) list \<Rightarrow> bytes set \<times> domainBufferedWriter \<Rightarrow>
   error + bytes set \<times> domainBufferedWriter" where
  "unwindRestore h tx txNumUnindTo [] st = Inr st"
| "unwindRestore h tx txNumUnindTo ((k, v) # others) (seen, restored) =
     (if \<not> txNumUnindTo > 0 then Inr (seen, restored)
      else (case (case IdxRangeDesc h k (txNumUnindTo - 1) 0 tx of
                    nextTxn # ic \<Rightarrow> SetTxNum restored nextTxn
                  | [] \<Rightarrow> SetTxNum restored (txNumUnindTo - 1)) of
              Inl e \<Rightarrow> Inl e
            | Inr w \<Rightarrow>
                (case addValue w k [] (Some v) of
                   Inl e \<Rightarrow> Inl e
                 | Inr w' \<Rightarrow> unwindRestore h tx txNumUnindTo others (insert k seen, w'))))"

text \<open>
  The second loop, over every row of the keys table: the rows of the step whose key was
  restored (all rows of the step when unwinding to 0) are deleted, with their values.
\<close>

definition unwindDeletes :: "bytes \<Rightarrow> bytes set \<Rightarrow> u64 \<Rightarrow> bytes \<times> bytes \<Rightarrow> bool" where
  "unwindDeletes sb seen txNumUnindTo r \<longleftrightarrow>
     snd r = sb \<and> \<not> (fst r \<notin> seen \<and> txNumUnindTo > 0)"

definition unwindDelete :: "'f Domain \<Rightarrow> bytes \<Rightarrow> bytes set \<Rightarrow> u64 \<Rightarrow> kvTx \<Rightarrow> kvTx" where
  "unwindDelete d sb seen txNumUnindTo tx =
     (let doomed = filter (unwindDeletes sb seen txNumUnindTo) (tables tx (keysTable d));
          tx1 = txUpdate tx (valsTable d)
                  (fold (\<lambda>r t. tableDelete t (fst r @ sb)) doomed (tables tx (valsTable d)));
          tx2 = txUpdate tx1 (keysTable d)
                  (fold (\<lambda>r t. dupDelete t (fst r) (snd r)) doomed (tables tx1 (keysTable d)))
      in tx2)"

definition Unwind :: "'f DomainContext \<Rightarrow> kvTx \<Rightarrow> u64 \<Rightarrow> u64 \<Rightarrow> error + kvTx" where
  "Unwind dc rwTx step txNumUnindTo =
     (let histRng = HistoryRange (dc_hc dc) txNumUnindTo rwTx
      in case unwindRestore (dc_hc dc) rwTx txNumUnindTo histRng ({}, NewWriter dc) of
           Inl e \<Rightarrow> Inl e
         | Inr (seen, restored) \<Rightarrow>
             let tx1 = unwindDelete (dc_d dc) (be_u64 (NOT step)) seen txNumUnindTo rwTx;
                 tx2 = historyPrune (dc_hc dc) txNumUnindTo tx1
             in writerFlush restored tx2)"

text \<open>A row of the hot tier: the key has a row for the step of a tx number, with the value.\<close>

definition recordedAt :: "'f Domain \<Rightarrow> kvTx \<Rightarrow> bytes \<Rightarrow> bytes \<Rightarrow> u64 \<Rightarrow> bool" where
  "recordedAt d tx k v txNum \<longleftrightarrow>
     (k, be_u64 (NOT (txNum div aggregationStep d))) \<in> set (tables tx (keysTable d)) \<and>
     GetOne tx (valsTable d) (k @ be_u64 (NOT (txNum div aggregationStep d))) = Some v"

section \<open>Shared domains (domain_shared.go)\<close>

text \<open>
  \<^verbatim>\<open>kv.Domain\<close> is a string type with four known values; any other value is \<open>OtherDomain\<close>.
\<close>

datatype kvDomain = AccountsDomain | StorageDomain | CodeDomain | CommitmentDomain | OtherDomain string

text \<open>
  \<^verbatim>\<open>AggregatorV3Context\<close> (its file is not part of these sources): what the shared domains use
  of it, the step size of the aggregator and the contexts of the four domains.
\<close>

record 'f AggregatorV3Context =
  aggStepSize :: u64
  ctxAccount :: "'f DomainContext"
  ctxStorage :: "'f DomainContext"
  ctxCode :: "'f DomainContext"
  ctxCommitment :: "'f DomainContext"

text \<open>
  Modelled from the spec: the commitment context's record of touched keys (\<^verbatim>\<open>UpdateTree\<close> is
  not part of these sources): each mutation "records a touch in the commitment context",
  classified as account, storage or code.
\<close>

datatype touchKind = TouchAccount | TouchStorage | TouchCode

record SharedDomainsCommitmentContext =
  sdcDiscard :: bool
  updates :: "(bytes \<times> gobytes \<times> touchKind) list"

definition TouchPlainKey ::
  "SharedDomainsCommitmentContext \<Rightarrow> bytes \<Rightarrow> gobytes \<Rightarrow> touchKind \<Rightarrow> SharedDomainsCommitmentContext" where
  "TouchPlainKey sdc k v fn =
     (if sdcDiscard sdc then sdc else sdc\<lparr>updates := updates sdc @ [(k, v, fn)]\<rparr>)"

text \<open>
  Modelled from the spec: the writer of an inverted index (inverted_index.go is not part of
  these sources); \<^verbatim>\<open>IndexAdd\<close> "appends to the named inverted index", the flush writes the
  pairs (key, tx number) to the table of the index.
\<close>

record invertedIndexBufferedWriter =
  iiTxNum :: u64
  iiRecords :: "(bytes \<times> u64) list"
  iiTable :: string

definition indexFlush :: "invertedIndexBufferedWriter \<Rightarrow> kvTx \<Rightarrow> error + kvTx" where
  "indexFlush w tx =
     Inr (txUpdate tx (iiTable w)
            (fold (\<lambda>r t. dupPut t (fst r) (be_u64 (snd r))) (iiRecords w) (tables tx (iiTable w))))"

definition indexClose :: "invertedIndexBufferedWriter \<Rightarrow> invertedIndexBufferedWriter" where
  "indexClose w = w\<lparr>iiRecords := []\<rparr>"

text \<open>
  \<^verbatim>\<open>SharedDomains\<close>. The three hash maps are maps, the ordered map \<^verbatim>\<open>storage\<close> is the list of
  its entries in key order. A value of a map can be nil.
\<close>

record 'f SharedDomains =
  noFlush :: int
  aggCtx :: "'f AggregatorV3Context"
  sdCtx :: SharedDomainsCommitmentContext
  roTx :: kvTx
  txNum :: u64
  blockNum :: u64
  estSize :: int
  account :: "bytes \<rightharpoonup> gobytes"
  code :: "bytes \<rightharpoonup> gobytes"
  storage :: "(bytes \<times> gobytes) list"
  commitment :: "bytes \<rightharpoonup> gobytes"
  accountWriter :: domainBufferedWriter
  storageWriter :: domainBufferedWriter
  codeWriter :: domainBufferedWriter
  commitmentWriter :: domainBufferedWriter
  logAddrsWriter :: invertedIndexBufferedWriter
  logTopicsWriter :: invertedIndexBufferedWriter
  tracesFromWriter :: invertedIndexBufferedWriter
  tracesToWriter :: invertedIndexBufferedWriter

text \<open>The ordered map: \<^verbatim>\<open>Set\<close> inserts or replaces, \<^verbatim>\<open>Get\<close> looks up, the iterator's \<^verbatim>\<open>Seek\<close> finds the first key not below.\<close>

fun btreeSet :: "(bytes \<times> gobytes) list \<Rightarrow> bytes \<Rightarrow> gobytes \<Rightarrow> (bytes \<times> gobytes) list" where
  "btreeSet [] k v = [(k, v)]"
| "btreeSet (r # rs) k v =
     (if k < fst r then (k, v) # r # rs
      else if k = fst r then (k, v) # rs
      else r # btreeSet rs k v)"

definition btreeSeek :: "(bytes \<times> gobytes) list \<Rightarrow> bytes \<Rightarrow> (bytes \<times> gobytes) list" where
  "btreeSeek m k = dropWhile (\<lambda>r. fst r < k) m"

definition sizeDelta :: "gobytes option \<Rightarrow> bytes \<Rightarrow> gobytes \<Rightarrow> int" where
  "sizeDelta old k v =
     (case old of
        Some old' \<Rightarrow> int (glen v) - int (glen old')
      | None \<Rightarrow> int (length k) + int (glen v))"

text \<open>\<^verbatim>\<open>SharedDomains.put\<close>; an unknown table panics.\<close>

definition put :: "'f SharedDomains \<Rightarrow> kvDomain \<Rightarrow> bytes \<Rightarrow> gobytes \<Rightarrow> error + 'f SharedDomains" where
  "put sd tbl k v =
     (case tbl of
        AccountsDomain \<Rightarrow>
          Inr (sd\<lparr>estSize := estSize sd + sizeDelta (account sd k) k v,
                   account := (account sd)(k \<mapsto> v)\<rparr>)
      | CodeDomain \<Rightarrow>
          Inr (sd\<lparr>estSize := estSize sd + sizeDelta (code sd k) k v,
                   code := (code sd)(k \<mapsto> v)\<rparr>)
      | StorageDomain \<Rightarrow>
          Inr (sd\<lparr>estSize := estSize sd + sizeDelta (map_of (storage sd) k) k v,
                   storage := btreeSet (storage sd) k v\<rparr>)
      | CommitmentDomain \<Rightarrow>
          Inr (sd\<lparr>estSize := estSize sd + sizeDelta (commitment sd k) k v,
                   commitment := (commitment sd)(k \<mapsto> v)\<rparr>)
      | OtherDomain n \<Rightarrow> Inl (Panic ''sharedDomains put to invalid table''))"

text \<open>\<^verbatim>\<open>SharedDomains.Get\<close>: the value and whether the key is in the map.\<close>

definition sdGet :: "'f SharedDomains \<Rightarrow> kvDomain \<Rightarrow> bytes \<Rightarrow> error + gobytes option" where
  "sdGet sd tbl k =
     (case tbl of
        AccountsDomain \<Rightarrow> Inr (account sd k)
      | CodeDomain \<Rightarrow> Inr (code sd k)
      | StorageDomain \<Rightarrow> Inr (map_of (storage sd) k)
      | CommitmentDomain \<Rightarrow> Inr (commitment sd k)
      | OtherDomain n \<Rightarrow> Inl (Panic n))"

text \<open>
  Modelled from the spec: \<^verbatim>\<open>AggregatorV3Context.GetLatest\<close> (not part of these sources); a
  miss of the in-memory map is "delegated to the domain's GetLatest".
\<close>

definition aggGetLatest ::
  "'f readLibs \<Rightarrow> 'f AggregatorV3Context \<Rightarrow> kvDomain \<Rightarrow> bytes \<Rightarrow> kvTx \<Rightarrow> error + gobytes \<times> bool" where
  "aggGetLatest libs ac domain k tx =
     (case domain of
        AccountsDomain \<Rightarrow> GetLatest libs (ctxAccount ac) k [] tx
      | StorageDomain \<Rightarrow> GetLatest libs (ctxStorage ac) k [] tx
      | CodeDomain \<Rightarrow> GetLatest libs (ctxCode ac) k [] tx
      | CommitmentDomain \<Rightarrow> GetLatest libs (ctxCommitment ac) k [] tx
      | OtherDomain n \<Rightarrow> Inl (Panic n))"

text \<open>
  \<^verbatim>\<open>LatestAccount\<close>, \<^verbatim>\<open>LatestStorage\<close>, \<^verbatim>\<open>LatestCode\<close> and \<^verbatim>\<open>LatestCommitment\<close> are the same code
  for their domain: the in-memory map, then the aggregator; an error is wrapped.
\<close>

definition Latest :: "'f readLibs \<Rightarrow> 'f SharedDomains \<Rightarrow> kvDomain \<Rightarrow> bytes \<Rightarrow> error + gobytes" where
  "Latest libs sd domain k =
     (case sdGet sd domain k of
        Inl e \<Rightarrow> Inl e
      | Inr (Some v) \<Rightarrow> Inr v
      | Inr None \<Rightarrow>
          (case aggGetLatest libs (aggCtx sd) domain k (roTx sd) of
             Inl (Error m) \<Rightarrow> Inl (Error (''read error: '' @ m))
           | Inl (Panic m) \<Rightarrow> Inl (Panic m)
           | Inr (v, found) \<Rightarrow> Inr v))"

text \<open>\<^verbatim>\<open>SharedDomains.DomainGet\<close>.\<close>

definition DomainGet ::
  "'f readLibs \<Rightarrow> 'f SharedDomains \<Rightarrow> kvDomain \<Rightarrow> bytes \<Rightarrow> gobytes \<Rightarrow> error + gobytes" where
  "DomainGet libs sd name k k2 =
     (case name of
        AccountsDomain \<Rightarrow> Latest libs sd AccountsDomain k
      | StorageDomain \<Rightarrow> Latest libs sd StorageDomain (k @ gbytes k2)
      | CodeDomain \<Rightarrow> Latest libs sd CodeDomain k
      | CommitmentDomain \<Rightarrow> Latest libs sd CommitmentDomain k
      | OtherDomain n \<Rightarrow> Inl (Panic n))"

text \<open>
  The writes return an error or nothing, and leave the shared domains changed as far as they
  got: the result is the optional error with the state.
\<close>

definition updateAccountData ::
  "'f SharedDomains \<Rightarrow> bytes \<Rightarrow> gobytes \<Rightarrow> gobytes \<Rightarrow> error option \<times> 'f SharedDomains" where
  "updateAccountData sd addr acc prevAccount =
     (let sd1 = sd\<lparr>sdCtx := TouchPlainKey (sdCtx sd) addr acc TouchAccount\<rparr>
      in case put sd1 AccountsDomain addr acc of
           Inl e \<Rightarrow> (Some e, sd1)
         | Inr sd2 \<Rightarrow>
             (case PutWithPrev (accountWriter sd2) addr [] acc prevAccount of
                Inl e \<Rightarrow> (Some e, sd2)
              | Inr w \<Rightarrow> (None, sd2\<lparr>accountWriter := w\<rparr>)))"

definition updateAccountCode ::
  "'f SharedDomains \<Rightarrow> bytes \<Rightarrow> gobytes \<Rightarrow> gobytes \<Rightarrow> error option \<times> 'f SharedDomains" where
  "updateAccountCode sd addr cd prevCode =
     (let sd1 = sd\<lparr>sdCtx := TouchPlainKey (sdCtx sd) addr cd TouchCode\<rparr>
      in case put sd1 CodeDomain addr cd of
           Inl e \<Rightarrow> (Some e, sd1)
         | Inr sd2 \<Rightarrow>
             (case (if glen cd = 0 then DeleteWithPrev (codeWriter sd2) addr [] prevCode
                    else PutWithPrev (codeWriter sd2) addr [] cd prevCode) of
                Inl e \<Rightarrow> (Some e, sd2)
              | Inr w \<Rightarrow> (None, sd2\<lparr>codeWriter := w\<rparr>)))"

definition updateCommitmentData ::
  "'f SharedDomains \<Rightarrow> bytes \<Rightarrow> gobytes \<Rightarrow> gobytes \<Rightarrow> error option \<times> 'f SharedDomains" where
  "updateCommitmentData sd pfx dat prev =
     (case put sd CommitmentDomain pfx dat of
        Inl e \<Rightarrow> (Some e, sd)
      | Inr sd2 \<Rightarrow>
          (case PutWithPrev (commitmentWriter sd2) pfx [] dat prev of
             Inl e \<Rightarrow> (Some e, sd2)
           | Inr w \<Rightarrow> (None, sd2\<lparr>commitmentWriter := w\<rparr>)))"

definition writeAccountStorage ::
  "'f SharedDomains \<Rightarrow> bytes \<Rightarrow> gobytes \<Rightarrow> gobytes \<Rightarrow> gobytes \<Rightarrow> error option \<times> 'f SharedDomains" where
  "writeAccountStorage sd addr loc v preVal =
     (let composite = addr @ gbytes loc;
          sd1 = sd\<lparr>sdCtx := TouchPlainKey (sdCtx sd) composite v TouchStorage\<rparr>
      in case put sd1 StorageDomain composite v of
           Inl e \<Rightarrow> (Some e, sd1)
         | Inr sd2 \<Rightarrow>
             (case PutWithPrev (storageWriter sd2) composite [] v preVal of
                Inl e \<Rightarrow> (Some e, sd2)
              | Inr w \<Rightarrow> (None, sd2\<lparr>storageWriter := w\<rparr>)))"

definition delAccountStorage ::
  "'f SharedDomains \<Rightarrow> bytes \<Rightarrow> gobytes \<Rightarrow> gobytes \<Rightarrow> error option \<times> 'f SharedDomains" where
  "delAccountStorage sd addr loc preVal =
     (let composite = addr @ gbytes loc;
          sd1 = sd\<lparr>sdCtx := TouchPlainKey (sdCtx sd) composite None TouchStorage\<rparr>
      in case put sd1 StorageDomain composite None of
           Inl e \<Rightarrow> (Some e, sd1)
         | Inr sd2 \<Rightarrow>
             (case DeleteWithPrev (storageWriter sd2) composite [] preVal of
                Inl e \<Rightarrow> (Some e, sd2)
              | Inr w \<Rightarrow> (None, sd2\<lparr>storageWriter := w\<rparr>)))"

definition putNilError :: error where
  "putNilError = Error ''DomainPut: trying to put nil value. not allowed''"

text \<open>
  \<^verbatim>\<open>SharedDomains.DomainPut\<close> (the debugging print for three tx numbers has no effect on the
  state). \<^verbatim>\<open>bytes.Equal\<close> takes nil and the empty slice for equal.
\<close>

definition DomainPut ::
  "'f readLibs \<Rightarrow> 'f SharedDomains \<Rightarrow> kvDomain \<Rightarrow> bytes \<Rightarrow> gobytes \<Rightarrow> gobytes \<Rightarrow> gobytes \<Rightarrow>
   error option \<times> 'f SharedDomains" where
  "DomainPut libs sd domain k1 k2 v prevVal =
     (if v = None then (Some putNilError, sd)
      else (case (if prevVal = None then DomainGet libs sd domain k1 k2 else Inr prevVal) of
              Inl e \<Rightarrow> (Some e, sd)
            | Inr pv \<Rightarrow>
                (case domain of
                   AccountsDomain \<Rightarrow> updateAccountData sd k1 v pv
                 | StorageDomain \<Rightarrow> writeAccountStorage sd k1 k2 v pv
                 | CodeDomain \<Rightarrow>
                     if gbytes pv = gbytes v then (None, sd)
                     else updateAccountCode sd k1 v pv
                 | CommitmentDomain \<Rightarrow> updateCommitmentData sd k1 v pv
                 | OtherDomain n \<Rightarrow> (Some (Panic n), sd))))"

subsection \<open>Iteration over the storage of a prefix\<close>

definition ramItem :: "'f SharedDomains \<Rightarrow> (bytes \<times> gobytes) list \<Rightarrow> bytes \<Rightarrow> gobytes \<Rightarrow> CursorItem" where
  "ramItem sd cur k v =
     \<lparr>dbCursor = [], iter = cur, btCursor = [], key = k, val = v,
      itemEndTxNum = txNum sd, ctype = RAM_CURSOR, reverse = True\<rparr>"

definition pushRam :: "'f SharedDomains \<Rightarrow> bytes \<Rightarrow> CursorItem list" where
  "pushRam sd pfx =
     (case btreeSeek (storage sd) pfx of
        [] \<Rightarrow> []
      | (kx, v) # rest \<Rightarrow>
          if length kx > 0 \<and> hasPrefix kx pfx
          then heap_Push [] (ramItem sd ((kx, v) # rest) kx v)
          else [])"

definition storageEnv :: "'f SharedDomains \<Rightarrow> bytes \<Rightarrow> iterEnv" where
  "storageEnv sd pfx =
     \<lparr>envPrefix = pfx, envStepSize = aggStepSize (aggCtx sd),
      envHaveRamUpdates = (length (storage sd) > 0), envTxNum = txNum sd, envRoTx = roTx sd,
      envValsTable = valsTable (dc_d (ctxStorage (aggCtx sd)))\<rparr>"

text \<open>\<^verbatim>\<open>SharedDomains.IterateStoragePrefix\<close>.\<close>

definition IterateStoragePrefix ::
  "'f SharedDomains \<Rightarrow> bytes \<Rightarrow> (bytes \<Rightarrow> gobytes \<Rightarrow> 's \<Rightarrow> error option \<times> 's) \<Rightarrow> 's \<Rightarrow> error option \<times> 's" where
  "IterateStoragePrefix sd pfx it s =
     (let env = storageEnv sd pfx
      in case pushDb env (tables (roTx sd) (keysTable (dc_d (ctxStorage (aggCtx sd))))) (pushRam sd pfx) of
           Inl e \<Rightarrow> (Some e, s)
         | Inr cp1 \<Rightarrow>
             (case pushFiles pfx (dc_files (ctxStorage (aggCtx sd))) cp1 of
                Inl e \<Rightarrow> (Some e, s)
              | Inr cp2 \<Rightarrow> mergeLoop env cp2 it s))"

subsection \<open>Deletion\<close>

text \<open>
  \<^verbatim>\<open>SharedDomains.DomainDel\<close> calls itself through \<^verbatim>\<open>deleteAccount\<close> and \<^verbatim>\<open>DomainDelPrefix\<close>, for the
  code and the storage domain only. The recursion is unfolded here: \<open>DomainDelLeaf\<close> is
  \<^verbatim>\<open>DomainDel\<close> for the domains other than accounts.
\<close>

definition DomainDelLeaf ::
  "'f readLibs \<Rightarrow> 'f SharedDomains \<Rightarrow> kvDomain \<Rightarrow> bytes \<Rightarrow> gobytes \<Rightarrow> gobytes \<Rightarrow>
   error option \<times> 'f SharedDomains" where
  "DomainDelLeaf libs sd domain k1 k2 prevVal =
     (case (if prevVal = None then DomainGet libs sd domain k1 k2 else Inr prevVal) of
        Inl e \<Rightarrow> (Some e, sd)
      | Inr pv \<Rightarrow>
          (case domain of
             StorageDomain \<Rightarrow> delAccountStorage sd k1 k2 pv
           | CodeDomain \<Rightarrow> if pv = None then (None, sd) else updateAccountCode sd k1 None pv
           | CommitmentDomain \<Rightarrow> updateCommitmentData sd k1 None pv
           | _ \<Rightarrow> (Some (Panic ''domain''), sd)))"

text \<open>The loop of \<^verbatim>\<open>DomainDelPrefix\<close> over the collected pairs.\<close>

fun delTombs ::
  "'f readLibs \<Rightarrow> 'f SharedDomains \<Rightarrow> (bytes \<times> gobytes) list \<Rightarrow> error option \<times> 'f SharedDomains" where
  "delTombs libs sd [] = (None, sd)"
| "delTombs libs sd (tomb # tombs) =
     (case DomainDelLeaf libs sd StorageDomain (fst tomb) None (snd tomb) of
        (Some e, sd') \<Rightarrow> (Some e, sd')
      | (None, sd') \<Rightarrow> delTombs libs sd' tombs)"

definition notSupportedError :: error where
  "notSupportedError = Error ''DomainDelPrefix: not supported''"

text \<open>
  \<^verbatim>\<open>SharedDomains.DomainDelPrefix\<close>. The check under \<^verbatim>\<open>assert.Enable\<close>, a constant that is false
  in a default build, is left out.
\<close>

definition DomainDelPrefix ::
  "'f readLibs \<Rightarrow> 'f SharedDomains \<Rightarrow> kvDomain \<Rightarrow> bytes \<Rightarrow> error option \<times> 'f SharedDomains" where
  "DomainDelPrefix libs sd domain pfx =
     (if domain \<noteq> StorageDomain then (Some notSupportedError, sd)
      else (case IterateStoragePrefix sd pfx recordVisit [] of
              (Some e, tombs) \<Rightarrow> (Some e, sd)
            | (None, tombs) \<Rightarrow> delTombs libs sd tombs))"

definition deleteAccount ::
  "'f readLibs \<Rightarrow> 'f SharedDomains \<Rightarrow> bytes \<Rightarrow> gobytes \<Rightarrow> error option \<times> 'f SharedDomains" where
  "deleteAccount libs sd addr prev =
     (let sd1 = sd\<lparr>sdCtx := TouchPlainKey (sdCtx sd) addr None TouchAccount\<rparr>
      in case put sd1 AccountsDomain addr None of
           Inl e \<Rightarrow> (Some e, sd1)
         | Inr sd2 \<Rightarrow>
             (case DeleteWithPrev (accountWriter sd2) addr [] prev of
                Inl e \<Rightarrow> (Some e, sd2)
              | Inr w \<Rightarrow>
                  (case DomainDelLeaf libs (sd2\<lparr>accountWriter := w\<rparr>) CodeDomain addr None None of
                     (Some e, sd3) \<Rightarrow> (Some e, sd3)
                   | (None, sd3) \<Rightarrow> DomainDelPrefix libs sd3 StorageDomain addr)))"

definition DomainDel ::
  "'f readLibs \<Rightarrow> 'f SharedDomains \<Rightarrow> kvDomain \<Rightarrow> bytes \<Rightarrow> gobytes \<Rightarrow> gobytes \<Rightarrow>
   error option \<times> 'f SharedDomains" where
  "DomainDel libs sd domain k1 k2 prevVal =
     (case domain of
        AccountsDomain \<Rightarrow>
          (case (if prevVal = None then DomainGet libs sd domain k1 k2 else Inr prevVal) of
             Inl e \<Rightarrow> (Some e, sd)
           | Inr pv \<Rightarrow> deleteAccount libs sd k1 pv)
      | _ \<Rightarrow> DomainDelLeaf libs sd domain k1 k2 prevVal)"

text \<open>
  The sources of \<^verbatim>\<open>IterateStoragePrefix\<close> as data: the entries of the in-memory map under the
  prefix, at the tx number of the shared domains, and below them the entries of the hot tier
  and of the files of the storage context. Entries are unambiguous when no two entries of one
  key share their \<^verbatim>\<open>endTxNum\<close>, so that the order of the heap decides between them.
\<close>

definition unambiguous :: "entry set \<Rightarrow> bool" where
  "unambiguous es \<longleftrightarrow>
     (\<forall>x \<in> es. \<forall>y \<in> es. fst x = fst y \<and> snd (snd x) = snd (snd y) \<longrightarrow> x = y)"

definition ramEntries :: "'f SharedDomains \<Rightarrow> bytes \<Rightarrow> entry list" where
  "ramEntries sd pfx =
     map (ramEntry (txNum sd)) (filter (\<lambda>r. hasPrefix (fst r) pfx) (storage sd))"

definition lowerEntries :: "'f SharedDomains \<Rightarrow> bytes \<Rightarrow> entry list" where
  "lowerEntries sd pfx =
     dbEntries (storageEnv sd pfx) (tables (roTx sd) (keysTable (dc_d (ctxStorage (aggCtx sd))))) @
     concat (map (fileEntries pfx) (dc_files (ctxStorage (aggCtx sd))))"

definition storageEntries :: "'f SharedDomains \<Rightarrow> bytes \<Rightarrow> entry list" where
  "storageEntries sd pfx = ramEntries sd pfx @ lowerEntries sd pfx"

subsection \<open>Nested views and flushing\<close>

text \<open>
  The \<^verbatim>\<open>kv.Tx\<close> handed to \<^verbatim>\<open>NewSharedDomains\<close>: a \<^verbatim>\<open>*SharedDomains\<close>, a transaction with an
  \<^verbatim>\<open>AggCtx\<close> method, or another one.
\<close>

datatype 'f anyTx =
  TxSharedDomains "'f SharedDomains"
| TxWithAggCtx "'f AggregatorV3Context" kvTx
| TxPlain kvTx

definition newIndexWriter :: "string \<Rightarrow> invertedIndexBufferedWriter" where
  "newIndexWriter tbl = \<lparr>iiTxNum = 0, iiRecords = [], iiTable = tbl\<rparr>"

text \<open>\<^verbatim>\<open>SharedDomains.SetTxNum\<close>.\<close>

definition sdSetTxNum :: "'f SharedDomains \<Rightarrow> u64 \<Rightarrow> error + 'f SharedDomains" where
  "sdSetTxNum sd n =
     (case SetTxNum (accountWriter sd) n of
        Inl e \<Rightarrow> Inl e
      | Inr aw \<Rightarrow>
          (case SetTxNum (codeWriter sd) n of
             Inl e \<Rightarrow> Inl e
           | Inr cw \<Rightarrow>
               (case SetTxNum (storageWriter sd) n of
                  Inl e \<Rightarrow> Inl e
                | Inr sw \<Rightarrow>
                    (case SetTxNum (commitmentWriter sd) n of
                       Inl e \<Rightarrow> Inl e
                     | Inr mw \<Rightarrow>
                         Inr (sd\<lparr>txNum := n, accountWriter := aw, codeWriter := cw,
                                  storageWriter := sw, commitmentWriter := mw,
                                  tracesToWriter := (tracesToWriter sd)\<lparr>iiTxNum := n\<rparr>,
                                  tracesFromWriter := (tracesFromWriter sd)\<lparr>iiTxNum := n\<rparr>,
                                  logAddrsWriter := (logAddrsWriter sd)\<lparr>iiTxNum := n\<rparr>,
                                  logTopicsWriter := (logTopicsWriter sd)\<lparr>iiTxNum := n\<rparr>\<rparr>)))))"

text \<open>
  \<^verbatim>\<open>NewSharedDomains\<close>. The search for the latest commitment (\<^verbatim>\<open>SeekCommitment\<close>) runs the trie
  of the package \<^verbatim>\<open>commitment\<close>, which is not part of these sources: it is the parameter
  \<open>seek\<close>.
\<close>

definition NewSharedDomains ::
  "('f SharedDomains \<Rightarrow> error + 'f SharedDomains) \<Rightarrow> 'f anyTx \<Rightarrow> error + 'f SharedDomains" where
  "NewSharedDomains seek tx =
     (case tx of
        TxSharedDomains casted \<Rightarrow> Inr (casted\<lparr>noFlush := noFlush casted + 1\<rparr>)
      | TxPlain t \<Rightarrow> Inl (Panic ''type need AggCtx method'')
      | TxWithAggCtx ac t \<Rightarrow>
          (let sd = \<lparr>noFlush = 0, aggCtx = ac,
                     sdCtx = \<lparr>sdcDiscard = False, updates = []\<rparr>,
                     roTx = t, txNum = 0, blockNum = 0, estSize = 0,
                     account = Map.empty, code = Map.empty, storage = [],
                     commitment = Map.empty,
                     accountWriter = NewWriter (ctxAccount ac),
                     storageWriter = NewWriter (ctxStorage ac),
                     codeWriter = NewWriter (ctxCode ac),
                     commitmentWriter = NewWriter (ctxCommitment ac),
                     logAddrsWriter = newIndexWriter ''LogAddrIdx'',
                     logTopicsWriter = newIndexWriter ''LogTopicIdx'',
                     tracesFromWriter = newIndexWriter ''TracesFromIdx'',
                     tracesToWriter = newIndexWriter ''TracesToIdx''\<rparr>
           in case sdSetTxNum sd 0 of
                Inl e \<Rightarrow> Inl e
              | Inr sd1 \<Rightarrow>
                  (case seek sd1 of
                     Inl (Error m) \<Rightarrow> Inl (Panic m)
                   | Inl (Panic m) \<Rightarrow> Inl (Panic m)
                   | Inr sd2 \<Rightarrow> Inr sd2)))"

text \<open>The eight flushes of \<^verbatim>\<open>SharedDomains.Flush\<close>, in their order, stopping at the first error.\<close>

definition flushWriters :: "'f SharedDomains \<Rightarrow> kvTx \<Rightarrow> error + kvTx" where
  "flushWriters sd tx =
     (case writerFlush (accountWriter sd) tx of
        Inl e \<Rightarrow> Inl e
      | Inr t1 \<Rightarrow>
     (case writerFlush (storageWriter sd) t1 of
        Inl e \<Rightarrow> Inl e
      | Inr t2 \<Rightarrow>
     (case writerFlush (codeWriter sd) t2 of
        Inl e \<Rightarrow> Inl e
      | Inr t3 \<Rightarrow>
     (case writerFlush (commitmentWriter sd) t3 of
        Inl e \<Rightarrow> Inl e
      | Inr t4 \<Rightarrow>
     (case indexFlush (logAddrsWriter sd) t4 of
        Inl e \<Rightarrow> Inl e
      | Inr t5 \<Rightarrow>
     (case indexFlush (logTopicsWriter sd) t5 of
        Inl e \<Rightarrow> Inl e
      | Inr t6 \<Rightarrow>
     (case indexFlush (tracesFromWriter sd) t6 of
        Inl e \<Rightarrow> Inl e
      | Inr t7 \<Rightarrow> indexFlush (tracesToWriter sd) t7)))))))"

definition closeWriters :: "'f SharedDomains \<Rightarrow> 'f SharedDomains" where
  "closeWriters sd =
     sd\<lparr>accountWriter := writerClose (accountWriter sd),
        storageWriter := writerClose (storageWriter sd),
        codeWriter := writerClose (codeWriter sd),
        commitmentWriter := writerClose (commitmentWriter sd),
        logAddrsWriter := indexClose (logAddrsWriter sd),
        logTopicsWriter := indexClose (logTopicsWriter sd),
        tracesFromWriter := indexClose (tracesFromWriter sd),
        tracesToWriter := indexClose (tracesToWriter sd)\<rparr>"

text \<open>
  \<^verbatim>\<open>SharedDomains.Flush\<close>. \<^verbatim>\<open>ComputeCommitment\<close> (domain_shared.go, lines 565 and 1060 to 1110)
  hands the touched keys to the trie of the package \<^verbatim>\<open>commitment\<close>, which is not part of these
  sources, and returns the root hash or an error: an error of the trie, of an unknown
  commitment mode, or of storing the commitment state. It is the parameter
  \<open>computeCommitment\<close>, from the shared domains to the root hash or an error and the shared
  domains it leaves. It is not given the transaction. \<^verbatim>\<open>Flush\<close> returns its error first, before
  the counter \<^verbatim>\<open>noFlush\<close> is looked at. The result is the optional error, the shared domains and
  the transaction.
\<close>

definition Flush ::
  "('f SharedDomains \<Rightarrow> (error + bytes) \<times> 'f SharedDomains) \<Rightarrow> 'f SharedDomains \<Rightarrow> kvTx \<Rightarrow>
   error option \<times> 'f SharedDomains \<times> kvTx" where
  "Flush computeCommitment sd tx =
     (case computeCommitment sd of
        (Inl e, sd1) \<Rightarrow> (Some e, sd1, tx)
      | (Inr fh, sd1) \<Rightarrow>
          let sd2 = (if noFlush sd1 > 0 then sd1\<lparr>noFlush := noFlush sd1 - 1\<rparr> else sd1)
          in if noFlush sd2 = 0
             then (case flushWriters sd2 tx of
                     Inl e \<Rightarrow> (Some e, sd2, tx)
                   | Inr tx' \<Rightarrow> (None, closeWriters sd2, tx'))
             else (None, sd2, tx))"

text \<open>
  The code of \<^verbatim>\<open>SharedDomainsCommitmentContext.ComputeCommitment\<close> never assigns the counter
  \<^verbatim>\<open>noFlush\<close>: the condition on the parameter under which flushes in a row are counted.
\<close>

definition keepsCounter :: "('f SharedDomains \<Rightarrow> (error + bytes) \<times> 'f SharedDomains) \<Rightarrow> bool" where
  "keepsCounter cc \<longleftrightarrow> (\<forall>sd. noFlush (snd (cc sd)) = noFlush sd)"

text \<open>
  What the eight flushes leave in the transaction. The history records of every domain writer
  that does not discard are in the history under the name of its table, and the pairs of
  every index writer are in its table. The rows of the keys collector of a domain writer are
  in its keys table if no keys table of a writer goes by the name of a values table of a
  writer (a load of values replaces rows). The values of its values collector, if it holds
  one value per key, are the values of their keys in its values table if the keys and values
  tables of the writers all go by different names, none of them that of the table of an index
  writer.
\<close>

definition historyRows :: "historyBufferedWriter \<Rightarrow> historyRecord list" where
  "historyRows hw = map (\<lambda>r. (fst r, fst (snd r), gbytes (snd (snd r)))) (hwRecords hw)"

definition indexRows :: "invertedIndexBufferedWriter \<Rightarrow> table" where
  "indexRows w = map (\<lambda>r. (fst r, be_u64 (snd r))) (iiRecords w)"

definition domainWriters :: "'f SharedDomains \<Rightarrow> domainBufferedWriter list" where
  "domainWriters sd = [accountWriter sd, storageWriter sd, codeWriter sd, commitmentWriter sd]"

definition indexWriters :: "'f SharedDomains \<Rightarrow> invertedIndexBufferedWriter list" where
  "indexWriters sd = [logAddrsWriter sd, logTopicsWriter sd, tracesFromWriter sd, tracesToWriter sd]"

definition keysApart :: "'f SharedDomains \<Rightarrow> bool" where
  "keysApart sd \<longleftrightarrow>
     (\<forall>w \<in> set (domainWriters sd). \<forall>w' \<in> set (domainWriters sd). wKeysTable w \<noteq> wValsTable w')"

definition tablesApart :: "'f SharedDomains \<Rightarrow> bool" where
  "tablesApart sd \<longleftrightarrow>
     distinct (map wKeysTable (domainWriters sd) @ map wValsTable (domainWriters sd)) \<and>
     (\<forall>i \<in> set (indexWriters sd). \<forall>w \<in> set (domainWriters sd). iiTable i \<noteq> wValsTable w)"

definition materialized :: "'f SharedDomains \<Rightarrow> kvTx \<Rightarrow> bool" where
  "materialized sd tx' \<longleftrightarrow>
     (\<forall>w \<in> set (domainWriters sd).
        discard w \<or>
        (set (historyRows (wHistory w)) \<subseteq> set (history tx' (hwTable (wHistory w))) \<and>
         (keysApart sd \<longrightarrow> set (wKeys w) \<subseteq> set (tables tx' (wKeysTable w))) \<and>
         (tablesApart sd \<and> distinct (map fst (wValues w)) \<longrightarrow>
            (\<forall>r \<in> set (wValues w). GetOne tx' (wValsTable w) (fst r) = Some (gbytes (snd r)))))) \<and>
     (\<forall>w \<in> set (indexWriters sd). set (indexRows w) \<subseteq> set (tables tx' (iiTable w)))"

text \<open>
  A transaction holds what another one does, but for the tables of some names.
\<close>

definition grows :: "string set \<Rightarrow> kvTx \<Rightarrow> kvTx \<Rightarrow> bool" where
  "grows V tx tx' \<longleftrightarrow>
     (\<forall>t. set (history tx t) \<subseteq> set (history tx' t)) \<and>
     (\<forall>t. t \<notin> V \<longrightarrow> set (tables tx t) \<subseteq> set (tables tx' t))"

text \<open>A number of calls of \<^verbatim>\<open>Flush\<close> in a row, up to the first error.\<close>

fun flushes ::
  "('f SharedDomains \<Rightarrow> (error + bytes) \<times> 'f SharedDomains) \<Rightarrow> nat \<Rightarrow> 'f SharedDomains \<Rightarrow> kvTx \<Rightarrow>
   error option \<times> 'f SharedDomains \<times> kvTx" where
  "flushes cc 0 sd tx = (None, sd, tx)"
| "flushes cc (Suc n) sd tx =
     (case Flush cc sd tx of
        (Some e, sd', tx') \<Rightarrow> (Some e, sd', tx')
      | (None, sd', tx') \<Rightarrow> flushes cc n sd' tx')"

text \<open>A commitment that computes nothing, as with \<^verbatim>\<open>dbg.DiscardCommitment\<close>.\<close>

definition noCommitment :: "'f SharedDomains \<Rightarrow> (error + bytes) \<times> 'f SharedDomains" where
  "noCommitment sd = (Inr [], sd)"

text \<open>A commitment that fails, as with a commitment mode that \<^verbatim>\<open>ComputeCommitment\<close> does not know.\<close>

definition failedCommitment :: "'f SharedDomains \<Rightarrow> (error + bytes) \<times> 'f SharedDomains" where
  "failedCommitment sd = (Inl (Error ''invalid commitment mode''), sd)"

text \<open>
  The rows of the keys table whose stored inverted step is that of a step, and the (key,
  value) pairs they stand for: the key with its value of that step in the values table.
\<close>

definition stepRows :: "'f Domain \<Rightarrow> kvTx \<Rightarrow> u64 \<Rightarrow> table" where
  "stepRows d tx step = filter (\<lambda>r. snd r = be_u64 (NOT step)) (tables tx (keysTable d))"

definition stepPairs :: "'f Domain \<Rightarrow> kvTx \<Rightarrow> u64 \<Rightarrow> (bytes \<times> bytes) list" where
  "stepPairs d tx step =
     map (\<lambda>r. (fst r, gbytes (GetOne tx (valsTable d) (fst r @ snd r)))) (stepRows d tx step)"

section \<open>Concrete values for the runs of the theorems\<close>

definition demoLibs :: "unit readLibs" where
  "demoLibs =
     \<lparr>bloomLib = \<lparr>OptimalM = (\<lambda>n. n), New = (\<lambda>m. Inr ()), libAddHash = (\<lambda>f h. f),
                   libContainsHash = (\<lambda>f h. True)\<rparr>,
      hashKey = (\<lambda>k. 0), withoutExistenceIndex = (\<lambda>dc k. Inr (None, False))\<rparr>"

definition demoContext :: "string \<Rightarrow> unit DomainContext" where
  "demoContext base =
     \<lparr>dc_d = emptyDomain base 4, dc_files = [],
      dc_hc = \<lparr>historyValsTable = base @ ''History'', histFiles = []\<rparr>\<rparr>"

definition demoAgg :: "unit AggregatorV3Context" where
  "demoAgg = \<lparr>aggStepSize = 4, ctxAccount = demoContext ''accounts'',
               ctxStorage = demoContext ''storage'', ctxCode = demoContext ''code'',
               ctxCommitment = demoContext ''commitment''\<rparr>"

definition emptyTx :: kvTx where
  "emptyTx = \<lparr>tables = (\<lambda>n. []), history = (\<lambda>n. [])\<rparr>"

definition demoSD :: "unit SharedDomains" where
  "demoSD = (case NewSharedDomains Inr (TxWithAggCtx demoAgg emptyTx) of Inr sd \<Rightarrow> sd)"

definition demoSDA :: "unit SharedDomains" where
  "demoSDA = demoSD\<lparr>account := [[0xAA] \<mapsto> Some [1]]\<rparr>"

lemmas demo_defs = demoSDA_def demoSD_def NewSharedDomains_def sdSetTxNum_def SetTxNum_def NewWriter_def
  newWriter_def demoAgg_def demoContext_def emptyDomain_def emptyTx_def demoLibs_def newIndexWriter_def

definition demoSDB :: "unit SharedDomains" where
  "demoSDB = snd (DomainPut demoLibs demoSDA AccountsDomain [0xAA] None (Some [2]) (Some [1]))"

text \<open>
  The first scenario of the spec at step size 4: the key A (one byte) is put as 1 at tx 0, as
  2 at tx 2 and as 3 at tx 5. The hot tier holds its value 2 at step 0 and 3 at step 1.
\<close>

definition historyTx :: kvTx where
  "historyTx =
     \<lparr>tables = (\<lambda>n. if n = ''accountsKeys''
                      then [([0xA], [255, 255, 255, 255, 255, 255, 255, 254]),
                            ([0xA], [255, 255, 255, 255, 255, 255, 255, 255])]
                      else if n = ''accountsVals''
                      then [([0xA, 255, 255, 255, 255, 255, 255, 255, 254], [3]),
                            ([0xA, 255, 255, 255, 255, 255, 255, 255, 255], [2])]
                      else []),
      history = (\<lambda>n. if n = ''accountsHistory''
                       then [([0xA], 0, []), ([0xA], 2, [1]), ([0xA], 5, [2])]
                       else [])\<rparr>"

text \<open>
  The tx number that \<^verbatim>\<open>Unwind\<close> hands to \<^verbatim>\<open>restored.SetTxNum\<close> for a key: the first element
  of \<^verbatim>\<open>IdxRange(k, txNumUnindTo-1, 0, order.Desc)\<close> when the iterator has one, else
  \<^verbatim>\<open>txNumUnindTo - 1\<close>.
\<close>

definition unwindTarget :: "HistoryContext \<Rightarrow> kvTx \<Rightarrow> u64 \<Rightarrow> bytes \<Rightarrow> u64" where
  "unwindTarget h tx unwindTo k =
     (case IdxRangeDesc h k (unwindTo - 1) 0 tx of nextTxn # ic \<Rightarrow> nextTxn | [] \<Rightarrow> unwindTo - 1)"

text \<open>
  The order of the rows of a duplicate-sorted table: by key, then by value.
\<close>

definition dupLess :: "bytes \<times> bytes \<Rightarrow> bytes \<times> bytes \<Rightarrow> bool" where
  "dupLess a b \<longleftrightarrow> fst a < fst b \<or> (fst a = fst b \<and> snd a < snd b)"

definition dupSorted :: "table \<Rightarrow> bool" where
  "dupSorted rows \<longleftrightarrow> sorted_wrt dupLess rows"

text \<open>
  A hot tier at step size 4 for an unwind to tx 9 of step 2: the key A was set to 2 at tx 4 (its
  value before was 1) and to 3 at tx 10 (its value before was 2). The keys table holds A at
  step 2 only, with the value 3 (the rows of step 1 are pruned once they are in a file).
\<close>

definition unwindTx :: kvTx where
  "unwindTx =
     \<lparr>tables = (\<lambda>n. if n = ''accountsKeys''
                      then [([0xA], [255, 255, 255, 255, 255, 255, 255, 253])]
                      else if n = ''accountsVals''
                      then [([0xA, 255, 255, 255, 255, 255, 255, 255, 253], [3])]
                      else []),
      history = (\<lambda>n. if n = ''accountsHistory''
                       then [([0xA], 4, [1]), ([0xA], 10, [2])]
                       else [])\<rparr>"

definition unwoundTx :: kvTx where
  "unwoundTx = (case Unwind (demoContext ''accounts'') unwindTx 2 9 of Inr t \<Rightarrow> t | Inl e \<Rightarrow> unwindTx)"

text \<open>
  The same key three steps deep: set to 2 at tx 4, to 3 at tx 10 and to 4 at tx 13, with its rows
  of the steps 3, 2 and 1 in the keys table.
\<close>

definition deepTx :: kvTx where
  "deepTx =
     \<lparr>tables = (\<lambda>n. if n = ''accountsKeys''
                      then [([0xA], [255, 255, 255, 255, 255, 255, 255, 252]),
                            ([0xA], [255, 255, 255, 255, 255, 255, 255, 253]),
                            ([0xA], [255, 255, 255, 255, 255, 255, 255, 254])]
                      else if n = ''accountsVals''
                      then [([0xA, 255, 255, 255, 255, 255, 255, 255, 252], [4]),
                            ([0xA, 255, 255, 255, 255, 255, 255, 255, 253], [3]),
                            ([0xA, 255, 255, 255, 255, 255, 255, 255, 254], [2])]
                      else []),
      history = (\<lambda>n. if n = ''accountsHistory''
                       then [([0xA], 4, [1]), ([0xA], 10, [2]), ([0xA], 13, [3])]
                       else [])\<rparr>"

definition deepUnwoundTx :: kvTx where
  "deepUnwoundTx = (case Unwind (demoContext ''accounts'') deepTx 2 9 of Inr t \<Rightarrow> t | Inl e \<Rightarrow> deepTx)"

text \<open>
  Shared domains at step size 4 whose tx number 8 is the first of step 2, over a hot tier that
  holds the storage key \<open>A1\<close> at step 2; \<open>boundaryRam\<close> has the key \<open>A2\<close> put in memory on top.
\<close>

definition storageTx :: kvTx where
  "storageTx =
     \<lparr>tables = (\<lambda>n. if n = ''storageKeys''
                      then [([0xA, 1], [255, 255, 255, 255, 255, 255, 255, 253])]
                      else if n = ''storageVals''
                      then [([0xA, 1, 255, 255, 255, 255, 255, 255, 255, 253], [7])]
                      else []),
      history = (\<lambda>n. [])\<rparr>"

definition boundarySD :: "unit SharedDomains" where
  "boundarySD = (case sdSetTxNum (demoSD\<lparr>roTx := storageTx\<rparr>) 8 of Inr sd \<Rightarrow> sd | Inl e \<Rightarrow> demoSD)"

definition boundaryRam :: "unit SharedDomains" where
  "boundaryRam = snd (DomainPut demoLibs boundarySD StorageDomain [0xA, 2] None (Some [5]) None)"

text \<open>
  A storage domain at step size 4 with one file of the steps 0 and 1, which holds \<open>A1\<close>, the
  tombstone of \<open>A2\<close> and \<open>B\<close>, over a hot tier that holds \<open>A1\<close> and \<open>A3\<close> at step 2.
\<close>

definition mergeContext :: "unit DomainContext" where
  "mergeContext =
     \<lparr>dc_d = emptyDomain ''storage'' 4,
      dc_files = [\<lparr>ctxStartTxNum = 0, ctxEndTxNum = 8,
                   src = \<lparr>decompressor = Some [([0xA, 1], [1]), ([0xA, 2], []), ([0xB], [9])],
                          index = False, bindex = True, existence = None,
                          startTxNum = 0, endTxNum = 8, frozen = False\<rparr>\<rparr>],
      dc_hc = \<lparr>historyValsTable = ''storageHistory'', histFiles = []\<rparr>\<rparr>"

definition mergeTx :: kvTx where
  "mergeTx =
     \<lparr>tables = (\<lambda>n. if n = ''storageKeys''
                      then [([0xA, 1], [255, 255, 255, 255, 255, 255, 255, 253]),
                            ([0xA, 3], [255, 255, 255, 255, 255, 255, 255, 253])]
                      else if n = ''storageVals''
                      then [([0xA, 1, 255, 255, 255, 255, 255, 255, 255, 253], [7]),
                            ([0xA, 3, 255, 255, 255, 255, 255, 255, 255, 253], [8])]
                      else []),
      history = (\<lambda>n. [])\<rparr>"

text \<open>
  Shared domains over the file and the hot tier of the example of the prefix iteration: at tx
  number 9, ahead of the hot tier (step 2, from tx 8) and of the file (to tx 7), and, without
  a hot tier, at tx number 0, behind the file. The states after the deletion of the prefix
  \<open>A\<close> from these and from the shared domains at tx number 8.
\<close>

definition fileAgg :: "unit AggregatorV3Context" where
  "fileAgg = demoAgg\<lparr>ctxStorage := mergeContext\<rparr>"

definition aheadSD :: "unit SharedDomains" where
  "aheadSD = (case sdSetTxNum (demoSD\<lparr>roTx := mergeTx, aggCtx := fileAgg\<rparr>) 9 of
                Inr sd \<Rightarrow> sd | Inl e \<Rightarrow> demoSD)"

definition aheadDeleted :: "unit SharedDomains" where
  "aheadDeleted = snd (DomainDelPrefix demoLibs aheadSD StorageDomain [0xA])"

definition boundaryDeleted :: "unit SharedDomains" where
  "boundaryDeleted = snd (DomainDelPrefix demoLibs boundarySD StorageDomain [0xA])"

definition staleSD :: "unit SharedDomains" where
  "staleSD = demoSD\<lparr>aggCtx := fileAgg\<rparr>"

definition staleDeleted :: "unit SharedDomains" where
  "staleDeleted = snd (DomainDelPrefix demoLibs staleSD StorageDomain [0xA])"

section \<open>Theorems\<close>

subsection \<open>Existence filter\<close>

lemma AddHash_wf:
  "wf_filter b \<Longrightarrow> \<exists>b'. AddHash lib b h = Inr b' \<and> wf_filter b' \<and> empty b' = empty b"
  by (auto simp: AddHash_def wf_filter_def split: option.splits)

lemma AddHashes_wf:
  "wf_filter b \<Longrightarrow> \<exists>b'. AddHashes lib b hs = Inr b' \<and> wf_filter b' \<and> empty b' = empty b"
proof (induction hs arbitrary: b)
  case Nil
  then show ?case by simp
next
  case (Cons h hs)
  from AddHash_wf [OF Cons.prems] obtain b1 where
    b1: "AddHash lib b h = Inr b1" "wf_filter b1" "empty b1 = empty b"
    by blast
  from Cons.IH [OF b1(2)] b1 show ?case by auto
qed

lemma NewExistenceFilter_wf:
  "NewExistenceFilter lib n p = Inr b \<Longrightarrow> wf_filter b"
  by (auto simp: NewExistenceFilter_def wf_filter_def Let_def split: if_splits sum.splits)

lemma ContainsHash_empty:
  "empty b \<Longrightarrow> ContainsHash lib b v = Inr True"
  by (simp add: ContainsHash_def)

lemma ContainsHash_AddHash:
  assumes "no_false_negatives lib" "wf_filter b" "AddHash lib b h = Inr b'"
  shows "ContainsHash lib b' h = Inr True"
  using assms
  by (auto simp: AddHash_def ContainsHash_def wf_filter_def no_false_negatives_def
           split: if_splits option.splits)

lemma ContainsHash_AddHash_mono:
  assumes "no_false_negatives lib" "ContainsHash lib b h = Inr True" "AddHash lib b g = Inr b'"
  shows "ContainsHash lib b' h = Inr True"
  using assms
  by (auto simp: AddHash_def ContainsHash_def no_false_negatives_def
           split: if_splits option.splits)

lemma ContainsHash_AddHashes_mono:
  assumes "no_false_negatives lib"
  shows "ContainsHash lib b h = Inr True \<Longrightarrow> AddHashes lib b gs = Inr b' \<Longrightarrow>
         ContainsHash lib b' h = Inr True"
proof (induction gs arbitrary: b)
  case Nil
  then show ?case by simp
next
  case (Cons g gs)
  from Cons.prems(2) obtain b1 where
    b1: "AddHash lib b g = Inr b1" "AddHashes lib b1 gs = Inr b'"
    by (auto split: sum.splits)
  from ContainsHash_AddHash_mono [OF assms Cons.prems(1) b1(1)]
  have "ContainsHash lib b1 h = Inr True" .
  from Cons.IH [OF this b1(2)] show ?case .
qed

lemma listFilter_no_false_negatives: "no_false_negatives listFilter"
  by (simp add: no_false_negatives_def listFilter_def)

text \<open>
  Claim C8. A filter made by \<^verbatim>\<open>NewExistenceFilter\<close> accepts every \<^verbatim>\<open>AddHash\<close>, and, the external
  bloom filter having no false negatives, once a hash \<open>h\<close> was added \<^verbatim>\<open>ContainsHash(h)\<close> is
  true after any further additions. A filter made for fewer than 2 keys is marked empty,
  stays so, and answers true for every hash.
\<close>

theorem ExistenceFilter_no_false_negatives:
  assumes lib: "no_false_negatives lib"
    and new: "NewExistenceFilter lib keysCount filePath = Inr b0"
  shows "\<exists>b1 b2 b3. AddHashes lib b0 before = Inr b1 \<and> AddHash lib b1 h = Inr b2 \<and>
            AddHashes lib b2 after = Inr b3 \<and>
            ContainsHash lib b2 h = Inr True \<and> ContainsHash lib b3 h = Inr True \<and>
            (keysCount < 2 \<longrightarrow> empty b0 \<and> empty b3 \<and> (\<forall>v. ContainsHash lib b0 v = Inr True)
                \<and> (\<forall>v. ContainsHash lib b3 v = Inr True))"
proof -
  have wf0: "wf_filter b0" using new by (rule NewExistenceFilter_wf)
  from AddHashes_wf [OF wf0] obtain b1 where
    b1: "AddHashes lib b0 before = Inr b1" "wf_filter b1" "empty b1 = empty b0" by blast
  from AddHash_wf [OF b1(2)] obtain b2 where
    b2: "AddHash lib b1 h = Inr b2" "wf_filter b2" "empty b2 = empty b1" by blast
  from AddHashes_wf [OF b2(2)] obtain b3 where
    b3: "AddHashes lib b2 after = Inr b3" "wf_filter b3" "empty b3 = empty b2" by blast
  have c2: "ContainsHash lib b2 h = Inr True"
    by (rule ContainsHash_AddHash [OF lib b1(2) b2(1)])
  have c3: "ContainsHash lib b3 h = Inr True"
    by (rule ContainsHash_AddHashes_mono [OF lib c2 b3(1)])
  have e0: "keysCount < 2 \<Longrightarrow> empty b0"
    using new by (auto simp: NewExistenceFilter_def Let_def)
  show ?thesis
    using b1 b2 b3 c2 c3 e0 by (auto simp: ContainsHash_empty)
qed

theorem ExistenceFilter_no_false_negatives_witness:
  "no_false_negatives listFilter \<and>
   NewExistenceFilter listFilter 5 ''d/v1-accounts.0-1.kvei''
     = Inr \<lparr>bfilter = Some [], empty = False, FileName = ''v1-accounts.0-1.kvei'',
            FilePath = ''d/v1-accounts.0-1.kvei''\<rparr> \<and>
   (\<exists>b1 b2 b3.
      AddHashes listFilter \<lparr>bfilter = Some [], empty = False, FileName = ''v1-accounts.0-1.kvei'',
            FilePath = ''d/v1-accounts.0-1.kvei''\<rparr> [1, 2] = Inr b1 \<and>
      AddHash listFilter b1 7 = Inr b2 \<and> AddHashes listFilter b2 [9] = Inr b3 \<and>
      ContainsHash listFilter b3 7 = Inr True)"
proof -
  have new: "NewExistenceFilter listFilter 5 ''d/v1-accounts.0-1.kvei''
     = Inr \<lparr>bfilter = Some [], empty = False, FileName = ''v1-accounts.0-1.kvei'',
            FilePath = ''d/v1-accounts.0-1.kvei''\<rparr>"
    by (simp add: NewExistenceFilter_def listFilter_def filepath_Split_def Let_def)
  from ExistenceFilter_no_false_negatives
         [OF listFilter_no_false_negatives new, of "[1, 2]" 7 "[9]"]
  show ?thesis using new listFilter_no_false_negatives by blast
qed

subsection \<open>Frozen flag of file items\<close>

lemma newFilesItem_frozen:
  "newFilesItem s e sz = Inr (fi :: 'f filesItem) \<Longrightarrow>
   frozen fi \<longleftrightarrow> e div sz - s div sz = StepsInColdFile"
  by (auto simp: newFilesItem_def Let_def split: if_splits)

lemma files_Set_set: "set (files_Set fs x) \<subseteq> insert x (set fs)"
  by (induction fs) auto

lemma scanStateFile_frozen:
  assumes "scanStateFile base aggStep name st = Inr st'"
    and "fi \<in> set (fst st')" and "fi \<notin> set (fst st)"
  shows "\<not> frozen fi"
  using assms files_Set_set
  by (fastforce simp: scanStateFile_def Let_def
           split: option.splits prod.splits sum.splits if_splits)

lemma scanStateFilesLoop_frozen:
  "scanStateFilesLoop base aggStep names st = Inr st' \<Longrightarrow>
   fi \<in> set (fst st') \<Longrightarrow> fi \<notin> set (fst st) \<Longrightarrow> \<not> frozen fi"
proof (induction names arbitrary: st)
  case Nil
  then show ?case by simp
next
  case (Cons name names)
  from Cons.prems(1) obtain st1 where
    st1: "scanStateFile base aggStep name st = Inr st1"
         "scanStateFilesLoop base aggStep names st1 = Inr st'"
    by (auto split: sum.splits)
  show ?case
  proof (cases "fi \<in> set (fst st1)")
    case True
    with scanStateFile_frozen [OF st1(1)] Cons.prems(3) show ?thesis by blast
  next
    case False
    from Cons.IH [OF st1(2) Cons.prems(2) False] show ?thesis .
  qed
qed

text \<open>
  Claim C3, as the code has it. \<^verbatim>\<open>newFilesItem\<close> marks an item frozen exactly when its range
  is \<^verbatim>\<open>StepsInColdFile\<close> = 64 steps (the steps being the tx numbers divided by the step
  size). \<^verbatim>\<open>Domain.scanStateFiles\<close> and \<^verbatim>\<open>Domain.integrateFiles\<close> reset the flag: every item they
  add to the registry of a domain is not frozen, whatever its range.
\<close>

theorem frozen_flag_of_new_items:
  "(newFilesItem s e sz = Inr (fi0 :: 'f filesItem) \<longrightarrow>
      (frozen fi0 \<longleftrightarrow> e div sz - s div sz = 64)) \<and>
   (scanStateFiles d fileNames = Inr (d1, garbage) \<longrightarrow>
      (\<forall>fi \<in> set (files d1). fi \<notin> set (files d) \<longrightarrow> \<not> frozen fi)) \<and>
   (integrateFiles d sf txNumFrom txNumTo = Inr d2 \<longrightarrow>
      (\<forall>fi \<in> set (files d2). fi \<notin> set (files d) \<longrightarrow> \<not> frozen fi))"
proof (intro conjI impI ballI)
  assume "newFilesItem s e sz = Inr fi0"
  then show "frozen fi0 \<longleftrightarrow> e div sz - s div sz = 64"
    by (simp add: newFilesItem_frozen StepsInColdFile_def)
next
  fix fi
  assume scan: "scanStateFiles d fileNames = Inr (d1, garbage)"
    and fi: "fi \<in> set (files d1)" "fi \<notin> set (files d)"
  from scan obtain fs where
    loop: "scanStateFilesLoop (filenameBase d) (aggregationStep d) fileNames (files d, [])
             = Inr (fs, garbage)"
    and d1: "d1 = d\<lparr>files := fs\<rparr>"
    by (auto simp: scanStateFiles_def split: sum.splits prod.splits)
  from scanStateFilesLoop_frozen [OF loop, of fi] fi d1 show "\<not> frozen fi" by simp
next
  fix fi
  assume int: "integrateFiles d sf txNumFrom txNumTo = Inr d2"
    and fi: "fi \<in> set (files d2)" "fi \<notin> set (files d)"
  from int obtain x where x: "files d2 = files_Set (files d) x" "\<not> frozen x"
    by (auto simp: integrateFiles_def Let_def split: sum.splits)
  with fi files_Set_set [of "files d" x] show "\<not> frozen fi" by auto
qed

theorem frozen_flag_of_new_items_witness:
  "newFilesItem 0 256 4 = Inr coldItem \<and> frozen coldItem \<and>
   scanStateFiles (emptyDomain ''accounts'' 4) [''v1-accounts.0-1.kv''] = Inr (scannedDomain, []) \<and>
   list_all (\<lambda>fi. \<not> frozen fi) (files scannedDomain) \<and>
   integrateFiles (emptyDomain ''accounts'' 4) builtFiles 0 4 = Inr integratedDomain \<and>
   list_all (\<lambda>fi. \<not> frozen fi) (files integratedDomain)"
proof -
  have a: "newFilesItem 0 256 4 = Inr coldItem"
    by (simp add: newFilesItem_def StepsInColdFile_def coldItem_def)
  have b: "scanStateFiles (emptyDomain ''accounts'' 4) [''v1-accounts.0-1.kv'']
             = Inr (scannedDomain, [])"
    by (simp add: scanStateFiles_def scanStateFile_def emptyDomain_def scannedDomain_def
          FindStringSubmatch_def matchDigitsDash_def matchTail_def isDigit_def anyChar_def
          ParseUint_def digitVal_def newFilesItem_def StepsInColdFile_def files_Get_def Let_def)
  have c: "integrateFiles (emptyDomain ''accounts'' 4) builtFiles 0 4 = Inr integratedDomain"
    by (simp add: integrateFiles_def emptyDomain_def newFilesItem_def StepsInColdFile_def
          builtFiles_def integratedDomain_def Let_def)
  have e: "files (emptyDomain ''accounts'' 4) = []"
    by (simp add: emptyDomain_def)
  have n: "(256 :: u64) div 4 - 0 div 4 = 64"
    by simp
  note inst = frozen_flag_of_new_items
    [of 0 256 4 coldItem "emptyDomain ''accounts'' 4" "[''v1-accounts.0-1.kv'']"
        scannedDomain "[]" builtFiles 0 4 integratedDomain]
  from inst a n have "frozen coldItem" by blast
  moreover from inst b e have "list_all (\<lambda>fi. \<not> frozen fi) (files scannedDomain)"
    by (simp add: list_all_iff)
  moreover from inst c e have "list_all (\<lambda>fi. \<not> frozen fi) (files integratedDomain)"
    by (simp add: list_all_iff)
  ultimately show ?thesis using a b c by blast
qed

text \<open>
  The claim as stated fails: scanning the name of a 64-step file gives a registry item of
  range \<open>[0, 256)\<close> at step size 4, that is 64 steps, which is not frozen.
\<close>

theorem scanStateFiles_cold_file_not_frozen:
  "registryRanges (scanStateFiles (emptyDomain ''accounts'' 4) [''v1-accounts.0-64.kv''])
     = [(0, 256, False)] \<and> (256 :: u64) div 4 - 0 div 4 = StepsInColdFile"
  by (simp add: registryRanges_def scanStateFiles_def scanStateFile_def emptyDomain_def
        FindStringSubmatch_def matchDigitsDash_def matchTail_def isDigit_def anyChar_def ParseUint_def digitVal_def
        newFilesItem_def StepsInColdFile_def files_Get_def itemRange_def Let_def)

subsection \<open>Writes to the shared domains\<close>

lemma DomainPut_lookup:
  "DomainGet libs sd domain k1 k2 = Inr pv \<Longrightarrow>
   DomainPut libs sd domain k1 k2 (Some v) None = DomainPut libs sd domain k1 k2 (Some v) pv"
  by (cases pv) (simp_all add: DomainPut_def)

text \<open>
  Claim C7. \<^verbatim>\<open>DomainPut\<close> with a nil value returns the error and the shared domains as they
  were: no map, writer or commitment context is touched. With a nil \<^verbatim>\<open>prevVal\<close> the previous
  value is the result of \<^verbatim>\<open>DomainGet(domain, k1, k2)\<close>: an error of the lookup is returned with
  the state unchanged, otherwise the call does what the call with that previous value does;
  for the accounts domain the looked-up value is the pre-image the writer buffers.
\<close>

theorem DomainPut_nil_value_and_prev:
  "DomainPut libs sd domain k1 k2 None prevVal = (Some putNilError, sd) \<and>
   (DomainGet libs sd domain k1 k2 = Inl e \<longrightarrow>
      DomainPut libs sd domain k1 k2 (Some v) None = (Some e, sd)) \<and>
   (DomainGet libs sd domain k1 k2 = Inr pv \<longrightarrow>
      DomainPut libs sd domain k1 k2 (Some v) None = DomainPut libs sd domain k1 k2 (Some v) pv) \<and>
   (DomainGet libs sd AccountsDomain k1 k2 = Inr pv \<longrightarrow>
    DomainPut libs sd AccountsDomain k1 k2 (Some v) None = (None, sd') \<longrightarrow>
      hwRecords (wHistory (accountWriter sd'))
        = hwRecords (wHistory (accountWriter sd)) @ [(k1, hwTxNum (wHistory (accountWriter sd)), pv)])"
proof (intro conjI impI)
  show "DomainPut libs sd domain k1 k2 None prevVal = (Some putNilError, sd)"
    by (simp add: DomainPut_def)
next
  assume "DomainGet libs sd domain k1 k2 = Inl e"
  then show "DomainPut libs sd domain k1 k2 (Some v) None = (Some e, sd)"
    by (simp add: DomainPut_def)
next
  assume "DomainGet libs sd domain k1 k2 = Inr pv"
  then show "DomainPut libs sd domain k1 k2 (Some v) None = DomainPut libs sd domain k1 k2 (Some v) pv"
    by (rule DomainPut_lookup)
next
  assume g: "DomainGet libs sd AccountsDomain k1 k2 = Inr pv"
    and p: "DomainPut libs sd AccountsDomain k1 k2 (Some v) None = (None, sd')"
  from g p have "updateAccountData sd k1 (Some v) pv = (None, sd')"
    by (simp add: DomainPut_def)
  then show "hwRecords (wHistory (accountWriter sd'))
        = hwRecords (wHistory (accountWriter sd)) @ [(k1, hwTxNum (wHistory (accountWriter sd)), pv)]"
    by (auto simp: updateAccountData_def put_def PutWithPrev_def AddPrevValue_def addValue_def Let_def
             split: sum.splits if_splits)
qed

lemma demoSD_eq: "NewSharedDomains Inr (TxWithAggCtx demoAgg emptyTx) = Inr demoSD"
  by (simp add: demoSD_def NewSharedDomains_def sdSetTxNum_def SetTxNum_def NewWriter_def newWriter_def
        demoAgg_def demoContext_def emptyDomain_def Let_def)


theorem DomainPut_nil_value_and_prev_witness:
  "DomainPut demoLibs demoSDA AccountsDomain [0xAA] None None (Some [1]) = (Some putNilError, demoSDA) \<and>
   DomainGet demoLibs demoSDA (OtherDomain ''x'') [0xAA] None = Inl (Panic ''x'') \<and>
   DomainPut demoLibs demoSDA (OtherDomain ''x'') [0xAA] None (Some [2]) None = (Some (Panic ''x''), demoSDA) \<and>
   DomainGet demoLibs demoSDA AccountsDomain [0xAA] None = Inr (Some [1]) \<and>
   (\<exists>sd'. DomainPut demoLibs demoSDA AccountsDomain [0xAA] None (Some [2]) None = (None, sd') \<and>
          DomainPut demoLibs demoSDA AccountsDomain [0xAA] None (Some [2]) (Some [1]) = (None, sd') \<and>
          hwRecords (wHistory (accountWriter sd')) = [([0xAA], 0, Some [1])])"
proof -
  have g1: "DomainGet demoLibs demoSDA (OtherDomain ''x'') [0xAA] None = Inl (Panic ''x'')"
    by (simp add: DomainGet_def)
  have g2: "DomainGet demoLibs demoSDA AccountsDomain [0xAA] None = Inr (Some [1])"
    by (simp add: DomainGet_def Latest_def sdGet_def demoSDA_def)
  have w0: "hwRecords (wHistory (accountWriter demoSDA)) = []"
           "hwTxNum (wHistory (accountWriter demoSDA)) = 0"
    by (simp_all add: demo_defs Let_def)
  have aw: "discard (accountWriter demoSDA) = False" "setTxNumOnce (accountWriter demoSDA) = True"
    by (simp_all add: demo_defs Let_def)
  have "fst (DomainPut demoLibs demoSDA AccountsDomain [0xAA] None (Some [2]) (Some [1])) = None"
    by (simp add: DomainPut_def updateAccountData_def put_def PutWithPrev_def AddPrevValue_def
          addValue_def aw Let_def)
  then obtain sd' where
    q: "DomainPut demoLibs demoSDA AccountsDomain [0xAA] None (Some [2]) (Some [1]) = (None, sd')"
    by (cases "DomainPut demoLibs demoSDA AccountsDomain [0xAA] None (Some [2]) (Some [1])") auto
  note inst1 = DomainPut_nil_value_and_prev
    [of demoLibs demoSDA AccountsDomain "[0xAA]" None "Some [1]" "Panic ''x''" "[2]" "Some [1]" sd']
  note inst2 = DomainPut_nil_value_and_prev
    [of demoLibs demoSDA "OtherDomain ''x''" "[0xAA]" None "Some [1]" "Panic ''x''" "[2]" "Some [1]" sd']
  from inst1 have c1: "DomainPut demoLibs demoSDA AccountsDomain [0xAA] None None (Some [1])
      = (Some putNilError, demoSDA)" by blast
  from inst2 g1 have c2: "DomainPut demoLibs demoSDA (OtherDomain ''x'') [0xAA] None (Some [2]) None
      = (Some (Panic ''x''), demoSDA)" by blast
  from inst1 g2 q have p: "DomainPut demoLibs demoSDA AccountsDomain [0xAA] None (Some [2]) None
      = (None, sd')" by metis
  from inst1 g2 p have "hwRecords (wHistory (accountWriter sd'))
        = hwRecords (wHistory (accountWriter demoSDA))
            @ [([0xAA], hwTxNum (wHistory (accountWriter demoSDA)), Some [1])]" by blast
  with w0 have c4: "hwRecords (wHistory (accountWriter sd')) = [([0xAA], 0, Some [1])]" by simp
  from c1 c2 c4 g1 g2 p q show ?thesis by blast
qed

subsection \<open>Nested views and flushing\<close>

lemma map_of_tablePut: "map_of (tablePut t k v) = (map_of t)(k \<mapsto> v)"
proof (induction t)
  case Nil
  show ?case by simp
next
  case (Cons r rs)
  obtain a b where r: "r = (a, b)" by (cases r)
  show ?case
  proof (cases "k < a")
    case True
    then show ?thesis by (simp add: r fun_eq_iff)
  next
    case False
    show ?thesis
    proof (cases "k = a")
      case True
      then show ?thesis by (simp add: r fun_eq_iff)
    next
      case ne: False
      with False have "tablePut (r # rs) k v = r # tablePut rs k v" by (simp add: r)
      with ne show ?thesis by (simp add: r Cons.IH fun_eq_iff)
    qed
  qed
qed

lemma fold_tablePut_notin:
  "k \<notin> fst ` set xs \<Longrightarrow>
   map_of (fold (\<lambda>r t. tablePut t (fst r) (g (snd r))) xs t) k = map_of t k"
  by (induction xs arbitrary: t) (auto simp: map_of_tablePut)

lemma fold_tablePut_in:
  "distinct (map fst xs) \<Longrightarrow> (k, v) \<in> set xs \<Longrightarrow>
   map_of (fold (\<lambda>r t. tablePut t (fst r) (g (snd r))) xs t) k = Some (g v)"
proof (induction xs arbitrary: t)
  case Nil
  then show ?case by simp
next
  case (Cons x xs)
  show ?case
  proof (cases "x = (k, v)")
    case True
    with Cons.prems(1) have "k \<notin> fst ` set xs" by auto
    from fold_tablePut_notin [OF this] True show ?thesis
      by (simp add: map_of_tablePut)
  next
    case False
    with Cons.prems have "(k, v) \<in> set xs" "distinct (map fst xs)" by auto
    from Cons.IH [OF this(2) this(1)] show ?thesis by simp
  qed
qed

lemma map_of_loadValues:
  assumes "distinct (map fst kvs)" "(k, v) \<in> set kvs"
  shows "map_of (loadValues kvs rows) k = Some (gbytes v)"
proof -
  have "distinct (map fst (sort_key fst kvs))"
    using assms(1) by (simp add: distinct_map)
  moreover have "(k, v) \<in> set (sort_key fst kvs)"
    using assms(2) by simp
  ultimately show ?thesis
    unfolding loadValues_def by (rule fold_tablePut_in)
qed

lemma set_dupPut: "set (dupPut t k v) = insert (k, v) (set t)"
  by (induction t) auto

lemma set_loadKeys: "set (loadKeys kvs rows) = set kvs \<union> set rows"
proof -
  have "set (fold (\<lambda>r t. dupPut t (fst r) (snd r)) xs t) = set xs \<union> set t" for xs t
    by (induction xs arbitrary: t) (auto simp: set_dupPut)
  then show ?thesis by (simp add: loadKeys_def)
qed

lemma grows_refl: "grows V tx tx"
  by (simp add: grows_def)

lemma grows_trans: "grows V a b \<Longrightarrow> grows V b c \<Longrightarrow> grows V a c"
  unfolding grows_def by (meson subset_trans)

lemma writerFlush_grows:
  assumes "writerFlush w tx = Inr tx'" "wValsTable w \<in> V"
  shows "grows V tx tx'"
proof (cases "discard w")
  case True
  with assms show ?thesis by (simp add: writerFlush_def grows_refl)
next
  case False
  with assms(1) have e: "tx' = txUpdate
      (txUpdate (historyFlush (wHistory w) tx) (wKeysTable w)
         (loadKeys (wKeys w) (tables (historyFlush (wHistory w) tx) (wKeysTable w))))
      (wValsTable w)
      (loadValues (wValues w)
         (tables (txUpdate (historyFlush (wHistory w) tx) (wKeysTable w)
            (loadKeys (wKeys w) (tables (historyFlush (wHistory w) tx) (wKeysTable w)))) (wValsTable w)))"
    by (simp add: writerFlush_def Let_def)
  have h: "set (history tx t) \<subseteq> set (history tx' t)" for t
    unfolding e by (auto simp: txUpdate_def historyFlush_def)
  have t: "set (tables tx t) \<subseteq> set (tables tx' t)" if "t \<notin> V" for t
  proof -
    from that assms(2) have "t \<noteq> wValsTable w" by blast
    then show ?thesis unfolding e by (auto simp: txUpdate_def historyFlush_def set_loadKeys)
  qed
  from h t show ?thesis by (simp add: grows_def)
qed

lemma writerFlush_rows:
  assumes "writerFlush w tx = Inr tx'" "\<not> discard w"
  shows "set (historyRows (wHistory w)) \<subseteq> set (history tx' (hwTable (wHistory w)))"
    and "wKeysTable w \<noteq> wValsTable w \<Longrightarrow> set (wKeys w) \<subseteq> set (tables tx' (wKeysTable w))"
proof -
  from assms have e: "tx' = txUpdate
      (txUpdate (historyFlush (wHistory w) tx) (wKeysTable w)
         (loadKeys (wKeys w) (tables (historyFlush (wHistory w) tx) (wKeysTable w))))
      (wValsTable w)
      (loadValues (wValues w)
         (tables (txUpdate (historyFlush (wHistory w) tx) (wKeysTable w)
            (loadKeys (wKeys w) (tables (historyFlush (wHistory w) tx) (wKeysTable w)))) (wValsTable w)))"
    by (simp add: writerFlush_def Let_def)
  show "set (historyRows (wHistory w)) \<subseteq> set (history tx' (hwTable (wHistory w)))"
    unfolding e by (auto simp: txUpdate_def historyFlush_def historyRows_def)
  show "set (wKeys w) \<subseteq> set (tables tx' (wKeysTable w))" if "wKeysTable w \<noteq> wValsTable w"
    using that unfolding e by (auto simp: txUpdate_def historyFlush_def set_loadKeys)
qed

lemma set_index_fold:
  "set (fold (\<lambda>r t. dupPut t (fst r) (be_u64 (snd r))) xs t)
     = set (map (\<lambda>r. (fst r, be_u64 (snd r))) xs) \<union> set t"
  by (induction xs arbitrary: t) (auto simp: set_dupPut)

lemma indexFlush_grows:
  assumes "indexFlush w tx = Inr tx'"
  shows "grows V tx tx'" and "set (indexRows w) \<subseteq> set (tables tx' (iiTable w))"
proof -
  from assms have e: "tx' = txUpdate tx (iiTable w)
      (fold (\<lambda>r t. dupPut t (fst r) (be_u64 (snd r))) (iiRecords w) (tables tx (iiTable w)))"
    by (simp add: indexFlush_def)
  show "grows V tx tx'"
    unfolding e grows_def by (auto simp: txUpdate_def set_index_fold)
  show "set (indexRows w) \<subseteq> set (tables tx' (iiTable w))"
    unfolding e by (auto simp: txUpdate_def set_index_fold indexRows_def)
qed

lemma writerFlush_other:
  assumes "writerFlush w tx = Inr tx'" "t \<noteq> wKeysTable w" "t \<noteq> wValsTable w"
  shows "tables tx' t = tables tx t"
  using assms by (auto simp: writerFlush_def txUpdate_def historyFlush_def Let_def split: if_splits)

lemma indexFlush_other:
  assumes "indexFlush w tx = Inr tx'" "t \<noteq> iiTable w"
  shows "tables tx' t = tables tx t"
  using assms by (auto simp: indexFlush_def txUpdate_def)

lemma writerFlush_values:
  assumes "writerFlush w tx = Inr tx'" "\<not> discard w" "distinct (map fst (wValues w))"
    "r \<in> set (wValues w)"
  shows "GetOne tx' (wValsTable w) (fst r) = Some (gbytes (snd r))"
proof -
  from assms(1,2) obtain rows where "tables tx' (wValsTable w) = loadValues (wValues w) rows"
    by (auto simp: writerFlush_def txUpdate_def Let_def)
  moreover from assms(4) have "(fst r, snd r) \<in> set (wValues w)" by simp
  ultimately show ?thesis
    using map_of_loadValues [OF assms(3), of "fst r" "snd r" rows] by (simp add: GetOne_def)
qed

lemma grows_history: "grows V a b \<Longrightarrow> set xs \<subseteq> set (history a t) \<Longrightarrow> set xs \<subseteq> set (history b t)"
  unfolding grows_def by (meson subset_trans)

lemma grows_tables:
  "grows V a b \<Longrightarrow> t \<notin> V \<Longrightarrow> set xs \<subseteq> set (tables a t) \<Longrightarrow> set xs \<subseteq> set (tables b t)"
  unfolding grows_def by (meson subset_trans)

lemma flushWriters_materialized:
  assumes f: "flushWriters sd tx = Inr tx'"
  shows "materialized sd tx'"
proof -
  let ?V = "set (map wValsTable (domainWriters sd))"
  from f obtain t1 t2 t3 t4 t5 t6 t7 where
    s1: "writerFlush (accountWriter sd) tx = Inr t1" and
    s2: "writerFlush (storageWriter sd) t1 = Inr t2" and
    s3: "writerFlush (codeWriter sd) t2 = Inr t3" and
    s4: "writerFlush (commitmentWriter sd) t3 = Inr t4" and
    s5: "indexFlush (logAddrsWriter sd) t4 = Inr t5" and
    s6: "indexFlush (logTopicsWriter sd) t5 = Inr t6" and
    s7: "indexFlush (tracesFromWriter sd) t6 = Inr t7" and
    s8: "indexFlush (tracesToWriter sd) t7 = Inr tx'"
    by (auto simp: flushWriters_def split: sum.splits)
  have g2: "grows ?V t1 t2" by (rule writerFlush_grows [OF s2]) (simp add: domainWriters_def)
  have g3: "grows ?V t2 t3" by (rule writerFlush_grows [OF s3]) (simp add: domainWriters_def)
  have g4: "grows ?V t3 t4" by (rule writerFlush_grows [OF s4]) (simp add: domainWriters_def)
  note g5 = indexFlush_grows(1) [OF s5, of ?V]
  note g6 = indexFlush_grows(1) [OF s6, of ?V]
  note g7 = indexFlush_grows(1) [OF s7, of ?V]
  note g8 = indexFlush_grows(1) [OF s8, of ?V]
  have e7: "grows ?V t7 tx'" by (rule g8)
  have e6: "grows ?V t6 tx'" by (rule grows_trans [OF g7 e7])
  have e5: "grows ?V t5 tx'" by (rule grows_trans [OF g6 e6])
  have e4: "grows ?V t4 tx'" by (rule grows_trans [OF g5 e5])
  have e3: "grows ?V t3 tx'" by (rule grows_trans [OF g4 e4])
  have e2: "grows ?V t2 tx'" by (rule grows_trans [OF g3 e3])
  have e1: "grows ?V t1 tx'" by (rule grows_trans [OF g2 e2])
  have dom: "set (historyRows (wHistory w)) \<subseteq> set (history tx' (hwTable (wHistory w))) \<and>
             (keysApart sd \<longrightarrow> set (wKeys w) \<subseteq> set (tables tx' (wKeysTable w))) \<and>
             (tablesApart sd \<and> distinct (map fst (wValues w)) \<longrightarrow>
                (\<forall>r \<in> set (wValues w). GetOne tx' (wValsTable w) (fst r) = Some (gbytes (snd r))))"
    if w: "w \<in> set (domainWriters sd)" "\<not> discard w" "writerFlush w a = Inr b" "grows ?V b tx'"
      and same: "tablesApart sd \<Longrightarrow> tables tx' (wValsTable w) = tables b (wValsTable w)"
    for w a b
  proof (intro conjI impI ballI)
    fix r
    assume ap: "tablesApart sd \<and> distinct (map fst (wValues w))" and r: "r \<in> set (wValues w)"
    from writerFlush_values [OF w(3) w(2) _ r] ap
    have "GetOne b (wValsTable w) (fst r) = Some (gbytes (snd r))" by blast
    with same ap show "GetOne tx' (wValsTable w) (fst r) = Some (gbytes (snd r))"
      by (simp add: GetOne_def)
  next
    from writerFlush_rows(1) [OF w(3) w(2)] w(4)
    show "set (historyRows (wHistory w)) \<subseteq> set (history tx' (hwTable (wHistory w)))"
      by (rule grows_history [rotated])
  next
    assume k: "keysApart sd"
    with w(1) have ne: "wKeysTable w \<noteq> wValsTable w" and nv: "wKeysTable w \<notin> ?V"
      by (auto simp: keysApart_def)
    from writerFlush_rows(2) [OF w(3) w(2) ne] w(4) nv
    show "set (wKeys w) \<subseteq> set (tables tx' (wKeysTable w))"
      by (metis grows_tables)
  qed
  have ne: "wKeysTable (accountWriter sd) \<noteq> wValsTable (accountWriter sd)"
      "wKeysTable (storageWriter sd) \<noteq> wValsTable (accountWriter sd)"
      "wValsTable (storageWriter sd) \<noteq> wValsTable (accountWriter sd)"
      "wKeysTable (codeWriter sd) \<noteq> wValsTable (accountWriter sd)"
      "wValsTable (codeWriter sd) \<noteq> wValsTable (accountWriter sd)"
      "wKeysTable (commitmentWriter sd) \<noteq> wValsTable (accountWriter sd)"
      "wValsTable (commitmentWriter sd) \<noteq> wValsTable (accountWriter sd)"
      "wKeysTable (codeWriter sd) \<noteq> wValsTable (storageWriter sd)"
      "wValsTable (codeWriter sd) \<noteq> wValsTable (storageWriter sd)"
      "wKeysTable (commitmentWriter sd) \<noteq> wValsTable (storageWriter sd)"
      "wValsTable (commitmentWriter sd) \<noteq> wValsTable (storageWriter sd)"
      "wKeysTable (commitmentWriter sd) \<noteq> wValsTable (codeWriter sd)"
      "wValsTable (commitmentWriter sd) \<noteq> wValsTable (codeWriter sd)"
      "iiTable (logAddrsWriter sd) \<noteq> wValsTable w"
      "iiTable (logTopicsWriter sd) \<noteq> wValsTable w"
      "iiTable (tracesFromWriter sd) \<noteq> wValsTable w"
      "iiTable (tracesToWriter sd) \<noteq> wValsTable w"
    if "tablesApart sd" "w \<in> set (domainWriters sd)" for w
    using that by (auto simp: tablesApart_def domainWriters_def indexWriters_def)
  have idxsame: "tables tx' (wValsTable w) = tables t4 (wValsTable w)"
    if "tablesApart sd" "w \<in> set (domainWriters sd)" for w
    using indexFlush_other [OF s5, of "wValsTable w"] indexFlush_other [OF s6, of "wValsTable w"]
      indexFlush_other [OF s7, of "wValsTable w"] indexFlush_other [OF s8, of "wValsTable w"]
      ne(14-17) [OF that] by simp
  have aw: "accountWriter sd \<in> set (domainWriters sd)" and sw: "storageWriter sd \<in> set (domainWriters sd)"
    and cw: "codeWriter sd \<in> set (domainWriters sd)" and mw: "commitmentWriter sd \<in> set (domainWriters sd)"
    by (simp_all add: domainWriters_def)
  have same4: "tables tx' (wValsTable (commitmentWriter sd)) = tables t4 (wValsTable (commitmentWriter sd))"
    if "tablesApart sd" using idxsame [OF that mw] .
  have same3: "tables tx' (wValsTable (codeWriter sd)) = tables t3 (wValsTable (codeWriter sd))"
    if "tablesApart sd"
    using idxsame [OF that cw] writerFlush_other [OF s4, of "wValsTable (codeWriter sd)"]
      ne(12,13) [OF that aw] by simp
  have same2: "tables tx' (wValsTable (storageWriter sd)) = tables t2 (wValsTable (storageWriter sd))"
    if "tablesApart sd"
    using idxsame [OF that sw] writerFlush_other [OF s4, of "wValsTable (storageWriter sd)"]
      writerFlush_other [OF s3, of "wValsTable (storageWriter sd)"]
      ne(8-11) [OF that aw] by simp
  have same1: "tables tx' (wValsTable (accountWriter sd)) = tables t1 (wValsTable (accountWriter sd))"
    if "tablesApart sd"
    using idxsame [OF that aw] writerFlush_other [OF s4, of "wValsTable (accountWriter sd)"]
      writerFlush_other [OF s3, of "wValsTable (accountWriter sd)"]
      writerFlush_other [OF s2, of "wValsTable (accountWriter sd)"]
      ne(2-7) [OF that aw] by simp
  have a: "\<forall>w \<in> set (domainWriters sd). discard w \<or>
        (set (historyRows (wHistory w)) \<subseteq> set (history tx' (hwTable (wHistory w))) \<and>
         (keysApart sd \<longrightarrow> set (wKeys w) \<subseteq> set (tables tx' (wKeysTable w))) \<and>
         (tablesApart sd \<and> distinct (map fst (wValues w)) \<longrightarrow>
            (\<forall>r \<in> set (wValues w). GetOne tx' (wValsTable w) (fst r) = Some (gbytes (snd r)))))"
  proof
    fix w
    assume w: "w \<in> set (domainWriters sd)"
    show "discard w \<or>
        (set (historyRows (wHistory w)) \<subseteq> set (history tx' (hwTable (wHistory w))) \<and>
         (keysApart sd \<longrightarrow> set (wKeys w) \<subseteq> set (tables tx' (wKeysTable w))) \<and>
         (tablesApart sd \<and> distinct (map fst (wValues w)) \<longrightarrow>
            (\<forall>r \<in> set (wValues w). GetOne tx' (wValsTable w) (fst r) = Some (gbytes (snd r)))))"
    proof (cases "discard w")
      case True
      then show ?thesis by simp
    next
      case False
      from w consider "w = accountWriter sd" | "w = storageWriter sd" | "w = codeWriter sd"
        | "w = commitmentWriter sd" by (auto simp: domainWriters_def)
      then have "set (historyRows (wHistory w)) \<subseteq> set (history tx' (hwTable (wHistory w))) \<and>
             (keysApart sd \<longrightarrow> set (wKeys w) \<subseteq> set (tables tx' (wKeysTable w))) \<and>
             (tablesApart sd \<and> distinct (map fst (wValues w)) \<longrightarrow>
                (\<forall>r \<in> set (wValues w). GetOne tx' (wValsTable w) (fst r) = Some (gbytes (snd r))))"
      proof cases
        case 1
        from False 1 have d: "\<not> discard (accountWriter sd)" by simp
        from dom [OF aw d s1 e1 same1] 1 show ?thesis by simp
      next
        case 2
        from False 2 have d: "\<not> discard (storageWriter sd)" by simp
        from dom [OF sw d s2 e2 same2] 2 show ?thesis by simp
      next
        case 3
        from False 3 have d: "\<not> discard (codeWriter sd)" by simp
        from dom [OF cw d s3 e3 same3] 3 show ?thesis by simp
      next
        case 4
        from False 4 have d: "\<not> discard (commitmentWriter sd)" by simp
        from dom [OF mw d s4 e4 same4] 4 show ?thesis by simp
      qed
      then show ?thesis by simp
    qed
  qed
  have none: "{} \<inter> ?V = {}" by simp
  have idx: "set (indexRows w) \<subseteq> set (tables tx' (iiTable w))"
    if "indexFlush w a = Inr b" "grows {} b tx'" for w a b
    using indexFlush_grows(2) [OF that(1)] that(2) by (metis empty_iff grows_tables)
  have i5: "grows {} t5 tx'"
    by (rule grows_trans [OF indexFlush_grows(1) [OF s6] grows_trans [OF indexFlush_grows(1) [OF s7] indexFlush_grows(1) [OF s8]]])
  have i6: "grows {} t6 tx'"
    by (rule grows_trans [OF indexFlush_grows(1) [OF s7] indexFlush_grows(1) [OF s8]])
  have i7: "grows {} t7 tx'" by (rule indexFlush_grows(1) [OF s8])
  have b: "\<forall>w \<in> set (indexWriters sd). set (indexRows w) \<subseteq> set (tables tx' (iiTable w))"
    using idx [OF s5 i5] idx [OF s6 i6] idx [OF s7 i7] idx [OF s8 grows_refl]
    by (simp add: indexWriters_def)
  from a b show ?thesis by (simp add: materialized_def)
qed

lemma flushes_pending:
  assumes k: "keepsCounter cc"
  shows "noFlush sd > int n \<Longrightarrow>
     \<exists>r sd'. flushes cc n sd tx = (r, sd', tx) \<and>
        (r = None \<longrightarrow> noFlush sd' = noFlush sd - int n) \<and>
        (r \<noteq> None \<longrightarrow> noFlush sd' > noFlush sd - int n)"
proof (induction n arbitrary: sd)
  case 0
  then show ?case by simp
next
  case (Suc n)
  obtain res sd1 where c: "cc sd = (res, sd1)" by (cases "cc sd")
  with k have n1: "noFlush sd1 = noFlush sd" by (metis keepsCounter_def snd_conv)
  show ?case
  proof (cases res)
    case (Inl e)
    with c have "Flush cc sd tx = (Some e, sd1, tx)" by (simp add: Flush_def)
    with n1 show ?thesis by simp
  next
    case (Inr fh)
    from Suc.prems n1 have "noFlush sd1 > 1" by simp
    with c Inr have f: "Flush cc sd tx = (None, sd1\<lparr>noFlush := noFlush sd1 - 1\<rparr>, tx)"
      by (simp add: Flush_def Let_def)
    from Suc.prems n1 have "noFlush (sd1\<lparr>noFlush := noFlush sd1 - 1\<rparr>) > int n" by simp
    from Suc.IH [OF this] obtain r sd' where
      i: "flushes cc n (sd1\<lparr>noFlush := noFlush sd1 - 1\<rparr>) tx = (r, sd', tx)"
         "r = None \<longrightarrow> noFlush sd' = noFlush (sd1\<lparr>noFlush := noFlush sd1 - 1\<rparr>) - int n"
         "r \<noteq> None \<longrightarrow> noFlush sd' > noFlush (sd1\<lparr>noFlush := noFlush sd1 - 1\<rparr>) - int n"
      by blast
    from f i(1) have "flushes cc (Suc n) sd tx = (r, sd', tx)" by (cases r) simp_all
    with i(2,3) n1 show ?thesis by auto
  qed
qed

lemma Flush_last:
  assumes c: "cc sd = (Inr fh, sd1)" and n: "noFlush sd1 = 1 \<or> noFlush sd1 = 0"
  shows "Flush cc sd tx =
             (case flushWriters (sd1\<lparr>noFlush := 0\<rparr>) tx of
                Inl e \<Rightarrow> (Some e, sd1\<lparr>noFlush := 0\<rparr>, tx)
              | Inr tx' \<Rightarrow> (None, closeWriters (sd1\<lparr>noFlush := 0\<rparr>), tx'))"
proof (cases "noFlush sd1 = 1")
  case True
  then have "sd1\<lparr>noFlush := noFlush sd1 - 1\<rparr> = sd1\<lparr>noFlush := 0\<rparr>" by simp
  with c True show ?thesis by (simp add: Flush_def Let_def split: sum.splits)
next
  case False
  with n have z: "noFlush sd1 = 0" by simp
  then have eq: "sd1\<lparr>noFlush := 0\<rparr> = sd1" by simp
  from c z have "Flush cc sd tx =
           (case flushWriters sd1 tx of
              Inl e \<Rightarrow> (Some e, sd1, tx)
            | Inr tx' \<Rightarrow> (None, closeWriters sd1, tx'))"
    by (simp add: Flush_def Let_def)
  then show ?thesis by (simp only: eq)
qed

text \<open>
  Claim C10, as the code has it. \<^verbatim>\<open>NewSharedDomains\<close> on a transaction that is a \<^verbatim>\<open>*SharedDomains\<close>
  returns that instance with \<^verbatim>\<open>noFlush\<close> incremented. A \<^verbatim>\<open>Flush\<close> whose \<^verbatim>\<open>ComputeCommitment\<close>
  returns an error returns that error at once: the counter is not decremented and the
  transaction is not written. A \<^verbatim>\<open>Flush\<close> whose commitment succeeds decrements a counter above
  zero; while the counter was above 1 it writes nothing to the transaction and keeps the
  writers; when the counter is (then) zero it flushes the eight writers into the transaction
  and closes them; a counter below zero is left alone and nothing is written. What the eight
  flushes write is \<open>materialized\<close>: the buffered rows of the writers are in the transaction.
  So with more than n views pending and a commitment that keeps the counter, n flushes in a
  row leave the transaction as it was; the counter is down by n if none of them failed and
  by less if one did.
\<close>

theorem nested_flush:
  "NewSharedDomains seek (TxSharedDomains sd) = Inr (sd\<lparr>noFlush := noFlush sd + 1\<rparr>) \<and>
   (cc sd = (Inl e, sd1) \<longrightarrow> Flush cc sd tx = (Some e, sd1, tx)) \<and>
   (cc sd = (Inr fh, sd1) \<and> noFlush sd1 > 1 \<longrightarrow>
      Flush cc sd tx = (None, sd1\<lparr>noFlush := noFlush sd1 - 1\<rparr>, tx)) \<and>
   (cc sd = (Inr fh, sd1) \<and> (noFlush sd1 = 1 \<or> noFlush sd1 = 0) \<longrightarrow>
      Flush cc sd tx =
        (case flushWriters (sd1\<lparr>noFlush := 0\<rparr>) tx of
           Inl e \<Rightarrow> (Some e, sd1\<lparr>noFlush := 0\<rparr>, tx)
         | Inr tx' \<Rightarrow> (None, closeWriters (sd1\<lparr>noFlush := 0\<rparr>), tx'))) \<and>
   (cc sd = (Inr fh, sd1) \<and> noFlush sd1 < 0 \<longrightarrow> Flush cc sd tx = (None, sd1, tx)) \<and>
   (flushWriters sd tx = Inr tx' \<longrightarrow> materialized sd tx') \<and>
   (keepsCounter cc \<and> noFlush sd > int n \<longrightarrow>
      (\<exists>r sd'. flushes cc n sd tx = (r, sd', tx) \<and>
         (r = None \<longrightarrow> noFlush sd' = noFlush sd - int n) \<and>
         (r \<noteq> None \<longrightarrow> noFlush sd' > noFlush sd - int n)))"
proof (intro conjI impI)
  show "NewSharedDomains seek (TxSharedDomains sd) = Inr (sd\<lparr>noFlush := noFlush sd + 1\<rparr>)"
    by (simp add: NewSharedDomains_def)
next
  assume "cc sd = (Inl e, sd1)"
  then show "Flush cc sd tx = (Some e, sd1, tx)" by (simp add: Flush_def)
next
  assume "cc sd = (Inr fh, sd1) \<and> noFlush sd1 > 1"
  then show "Flush cc sd tx = (None, sd1\<lparr>noFlush := noFlush sd1 - 1\<rparr>, tx)"
    by (simp add: Flush_def Let_def)
next
  assume "cc sd = (Inr fh, sd1) \<and> (noFlush sd1 = 1 \<or> noFlush sd1 = 0)"
  then show "Flush cc sd tx =
        (case flushWriters (sd1\<lparr>noFlush := 0\<rparr>) tx of
           Inl e \<Rightarrow> (Some e, sd1\<lparr>noFlush := 0\<rparr>, tx)
         | Inr tx' \<Rightarrow> (None, closeWriters (sd1\<lparr>noFlush := 0\<rparr>), tx'))"
    using Flush_last [of cc sd fh sd1 tx] by blast
next
  assume "cc sd = (Inr fh, sd1) \<and> noFlush sd1 < 0"
  then show "Flush cc sd tx = (None, sd1, tx)" by (simp add: Flush_def Let_def)
next
  assume "flushWriters sd tx = Inr tx'"
  then show "materialized sd tx'" by (rule flushWriters_materialized)
next
  assume "keepsCounter cc \<and> noFlush sd > int n"
  then show "\<exists>r sd'. flushes cc n sd tx = (r, sd', tx) \<and>
         (r = None \<longrightarrow> noFlush sd' = noFlush sd - int n) \<and>
         (r \<noteq> None \<longrightarrow> noFlush sd' > noFlush sd - int n)"
    using flushes_pending [of cc n sd tx] by blast
qed


lemma be_u64_minus1: "be_u64 (- 1) = [255, 255, 255, 255, 255, 255, 255, 255]"
  by code_simp

lemma keepsCounter_noCommitment: "keepsCounter noCommitment"
  by (simp add: keepsCounter_def noCommitment_def)

lemma demoSDB_writers:
  "accountWriter demoSDB =
     \<lparr>wKeys = [([0xAA], [255, 255, 255, 255, 255, 255, 255, 255])],
      wValues = [([0xAA, 255, 255, 255, 255, 255, 255, 255, 255], Some [2])],
      setTxNumOnce = True, discard = False, wKeysTable = ''accountsKeys'',
      wValsTable = ''accountsVals'', stepBytes = [255, 255, 255, 255, 255, 255, 255, 255],
      wHistory = \<lparr>hwTxNum = 0, hwRecords = [([0xAA], 0, Some [1])], hwTable = ''accountsHistory''\<rparr>,
      wAggregationStep = 4\<rparr>"
  "noFlush demoSDB = 0"
  by (simp_all add: demoSDB_def DomainPut_def updateAccountData_def put_def PutWithPrev_def
        AddPrevValue_def addValue_def TouchPlainKey_def demo_defs be_u64_minus1 Let_def)

lemmas demoB_defs = demoSDB_def DomainPut_def updateAccountData_def put_def PutWithPrev_def
  AddPrevValue_def addValue_def TouchPlainKey_def demo_defs be_u64_minus1

lemma demoSDB_flush:
  "\<exists>tx'. flushWriters (demoSDB\<lparr>noFlush := 0\<rparr>) emptyTx = Inr tx' \<and>
         tables tx' ''accountsKeys'' = [([0xAA], [255, 255, 255, 255, 255, 255, 255, 255])] \<and>
         GetOne tx' ''accountsVals'' [0xAA, 255, 255, 255, 255, 255, 255, 255, 255] = Some [2] \<and>
         history tx' ''accountsHistory'' = [([0xAA], 0, [1])]"
  by (simp add: flushWriters_def writerFlush_def indexFlush_def historyFlush_def txUpdate_def
        loadKeys_def loadValues_def GetOne_def gbytes_def demoB_defs Let_def)


theorem nested_flush_witness:
  "keepsCounter (noCommitment :: unit SharedDomains \<Rightarrow> (error + bytes) \<times> unit SharedDomains) \<and>
   NewSharedDomains Inr (TxSharedDomains demoSDB) = Inr (demoSDB\<lparr>noFlush := 1\<rparr>) \<and>
   Flush failedCommitment (demoSDB\<lparr>noFlush := 2\<rparr>) emptyTx
     = (Some (Error ''invalid commitment mode''), demoSDB\<lparr>noFlush := 2\<rparr>, emptyTx) \<and>
   Flush noCommitment (demoSDB\<lparr>noFlush := 2\<rparr>) emptyTx = (None, demoSDB\<lparr>noFlush := 1\<rparr>, emptyTx) \<and>
   (\<exists>r sd1. flushes noCommitment 1 (demoSDB\<lparr>noFlush := 2\<rparr>) emptyTx = (r, sd1, emptyTx) \<and>
          noFlush sd1 = 1) \<and>
   (\<exists>sd' tx'. Flush noCommitment (demoSDB\<lparr>noFlush := 1\<rparr>) emptyTx = (None, sd', tx') \<and>
          materialized (demoSDB\<lparr>noFlush := 0\<rparr>) tx' \<and>
          tables tx' ''accountsKeys'' = [([0xAA], [255, 255, 255, 255, 255, 255, 255, 255])] \<and>
          GetOne tx' ''accountsVals'' [0xAA, 255, 255, 255, 255, 255, 255, 255, 255] = Some [2] \<and>
          history tx' ''accountsHistory'' = [([0xAA], 0, [1])])"
proof -
  note ok = keepsCounter_noCommitment [where ?'a = unit]
  let ?fail = "Error ''invalid commitment mode''"
  note i0 = nested_flush [of Inr demoSDB noCommitment ?fail demoSDB emptyTx "[]" emptyTx 0]
  note iF = nested_flush [of Inr "demoSDB\<lparr>noFlush := 2\<rparr>" failedCommitment ?fail
      "demoSDB\<lparr>noFlush := 2\<rparr>" emptyTx "[]" emptyTx 0]
  note i2 = nested_flush [of Inr "demoSDB\<lparr>noFlush := 2\<rparr>" noCommitment ?fail
      "demoSDB\<lparr>noFlush := 2\<rparr>" emptyTx "[]" emptyTx 1]
  from i0 have c1: "NewSharedDomains Inr (TxSharedDomains demoSDB) = Inr (demoSDB\<lparr>noFlush := 1\<rparr>)"
    by (simp add: demoSDB_writers(2))
  from iF have cF: "Flush failedCommitment (demoSDB\<lparr>noFlush := 2\<rparr>) emptyTx
      = (Some ?fail, demoSDB\<lparr>noFlush := 2\<rparr>, emptyTx)"
    by (simp add: failedCommitment_def)
  from i2 have c2: "Flush noCommitment (demoSDB\<lparr>noFlush := 2\<rparr>) emptyTx
      = (None, demoSDB\<lparr>noFlush := 1\<rparr>, emptyTx)"
    by (simp add: noCommitment_def)
  from i2 ok have "\<exists>r sd'. flushes noCommitment 1 (demoSDB\<lparr>noFlush := 2\<rparr>) emptyTx = (r, sd', emptyTx) \<and>
         (r = None \<longrightarrow> noFlush sd' = noFlush (demoSDB\<lparr>noFlush := 2\<rparr>) - int 1) \<and>
         (r \<noteq> None \<longrightarrow> noFlush sd' > noFlush (demoSDB\<lparr>noFlush := 2\<rparr>) - int 1)"
    by simp
  then obtain r sd1 where fl: "flushes noCommitment 1 (demoSDB\<lparr>noFlush := 2\<rparr>) emptyTx = (r, sd1, emptyTx)"
    and rn: "r = None \<longrightarrow> noFlush sd1 = noFlush (demoSDB\<lparr>noFlush := 2\<rparr>) - int 1" by blast
  from fl c2 have "r = None" by simp
  with rn have "noFlush sd1 = 1" by simp
  with fl have c3: "\<exists>r sd1. flushes noCommitment 1 (demoSDB\<lparr>noFlush := 2\<rparr>) emptyTx = (r, sd1, emptyTx) \<and>
          noFlush sd1 = 1" by blast
  from demoSDB_flush obtain tx' where
    f: "flushWriters (demoSDB\<lparr>noFlush := 0\<rparr>) emptyTx = Inr tx'"
    and t: "tables tx' ''accountsKeys'' = [([0xAA], [255, 255, 255, 255, 255, 255, 255, 255])]"
       "GetOne tx' ''accountsVals'' [0xAA, 255, 255, 255, 255, 255, 255, 255, 255] = Some [2]"
       "history tx' ''accountsHistory'' = [([0xAA], 0, [1])]"
    by blast
  note i1 = nested_flush [of Inr "demoSDB\<lparr>noFlush := 1\<rparr>" noCommitment ?fail
      "demoSDB\<lparr>noFlush := 1\<rparr>" emptyTx "[]" emptyTx 0]
  note iM = nested_flush [of Inr "demoSDB\<lparr>noFlush := 0\<rparr>" noCommitment ?fail
      "demoSDB\<lparr>noFlush := 0\<rparr>" emptyTx "[]" tx' 0]
  from i1 f have fl1: "Flush noCommitment (demoSDB\<lparr>noFlush := 1\<rparr>) emptyTx
      = (None, closeWriters (demoSDB\<lparr>noFlush := 0\<rparr>), tx')"
    by (simp add: noCommitment_def)
  from iM f have m: "materialized (demoSDB\<lparr>noFlush := 0\<rparr>) tx'" by blast
  from fl1 m t have c4: "\<exists>sd' tx'. Flush noCommitment (demoSDB\<lparr>noFlush := 1\<rparr>) emptyTx = (None, sd', tx') \<and>
          materialized (demoSDB\<lparr>noFlush := 0\<rparr>) tx' \<and>
          tables tx' ''accountsKeys'' = [([0xAA], [255, 255, 255, 255, 255, 255, 255, 255])] \<and>
          GetOne tx' ''accountsVals'' [0xAA, 255, 255, 255, 255, 255, 255, 255, 255] = Some [2] \<and>
          history tx' ''accountsHistory'' = [([0xAA], 0, [1])]"
    by blast
  from ok c1 cF c2 c3 c4 show ?thesis by blast
qed

text \<open>
  The claim as stated fails for a flush whose commitment fails: with two views pending the
  counter is positive, and \<^verbatim>\<open>Flush\<close> returns the error with the counter still at 2.
\<close>

theorem Flush_failed_commitment_keeps_counter:
  "noFlush (demoSDB\<lparr>noFlush := 2\<rparr>) > 0 \<and>
   Flush failedCommitment (demoSDB\<lparr>noFlush := 2\<rparr>) emptyTx
     = (Some (Error ''invalid commitment mode''), demoSDB\<lparr>noFlush := 2\<rparr>, emptyTx) \<and>
   noFlush (fst (snd (Flush failedCommitment (demoSDB\<lparr>noFlush := 2\<rparr>) emptyTx))) = 2"
  by (simp add: Flush_def failedCommitment_def)

subsection \<open>Reading as of a tx number\<close>

lemma firstMutationFrom_None:
  "firstMutationFrom rs k n = None \<longleftrightarrow> \<not> (\<exists>r \<in> set rs. fst r = k \<and> n \<le> fst (snd r))"
  by (induction rs) (auto split: option.splits)

lemma firstMutationFrom_Some:
  "firstMutationFrom rs k n = Some (t, v) \<Longrightarrow>
   (k, t, v) \<in> set rs \<and> n \<le> t \<and> (\<forall>r \<in> set rs. fst r = k \<and> n \<le> fst (snd r) \<longrightarrow> t \<le> fst (snd r))"
proof (induction rs arbitrary: t v)
  case Nil
  then show ?case by simp
next
  case (Cons r rs)
  show ?case
  proof (cases "fst r = k \<and> n \<le> fst (snd r)")
    case False
    with Cons.prems have "firstMutationFrom rs k n = Some (t, v)" by auto
    from Cons.IH [OF this] False show ?thesis by auto
  next
    case True
    show ?thesis
    proof (cases "firstMutationFrom rs k n")
      case None
      with True Cons.prems have tv: "snd r = (t, v)" by simp
      from None have "\<forall>r' \<in> set rs. \<not> (fst r' = k \<and> n \<le> fst (snd r'))"
        by (simp add: firstMutationFrom_None)
      with True tv show ?thesis by (cases r) auto
    next
      case (Some p)
      obtain t' v' where p: "p = (t', v')" by (cases p)
      from Cons.IH [of t' v'] Some p have ih:
        "(k, t', v') \<in> set rs" "n \<le> t'"
        "\<forall>r \<in> set rs. fst r = k \<and> n \<le> fst (snd r) \<longrightarrow> t' \<le> fst (snd r)"
        by auto
      show ?thesis
      proof (cases "t' < fst (snd r)")
        case True
        with \<open>fst r = k \<and> n \<le> fst (snd r)\<close> Some p Cons.prems have "(t, v) = (t', v')" by simp
        with ih True show ?thesis by auto
      next
        case False
        with True Some p Cons.prems have tv: "snd r = (t, v)" by simp
        with False ih True show ?thesis by (cases r) force
      qed
    qed
  qed
qed

text \<open>
  Claim C2. When the history has a mutation of the key at or after the tx number,
  \<^verbatim>\<open>GetAsOf\<close> returns the pre-image of the one with the smallest tx number, and nil when that
  pre-image has zero length; when it has none, \<^verbatim>\<open>GetAsOf\<close> returns what \<^verbatim>\<open>GetLatest(key)\<close>
  returns (its value, or its error).
\<close>

theorem GetAsOf_history_then_latest:
  "((\<exists>r \<in> set (allHistory (dc_hc dc) tx). fst r = k \<and> atTx \<le> fst (snd r)) \<longrightarrow>
      (\<exists>t v. (k, t, v) \<in> set (allHistory (dc_hc dc) tx) \<and> atTx \<le> t \<and>
         (\<forall>r \<in> set (allHistory (dc_hc dc) tx). fst r = k \<and> atTx \<le> fst (snd r) \<longrightarrow> t \<le> fst (snd r)) \<and>
         GetAsOf libs dc k atTx tx = (if v = [] then Inr None else Inr (Some v)))) \<and>
   (\<not> (\<exists>r \<in> set (allHistory (dc_hc dc) tx). fst r = k \<and> atTx \<le> fst (snd r)) \<longrightarrow>
      GetAsOf libs dc k atTx tx =
        (case GetLatest libs dc k [] tx of Inl e \<Rightarrow> Inl e | Inr (v, found) \<Rightarrow> Inr v))"
proof (intro conjI impI)
  assume "\<exists>r \<in> set (allHistory (dc_hc dc) tx). fst r = k \<and> atTx \<le> fst (snd r)"
  then have "firstMutationFrom (allHistory (dc_hc dc) tx) k atTx \<noteq> None"
    by (simp add: firstMutationFrom_None)
  then obtain t v where f: "firstMutationFrom (allHistory (dc_hc dc) tx) k atTx = Some (t, v)"
    by (cases "firstMutationFrom (allHistory (dc_hc dc) tx) k atTx") auto
  then have "GetAsOf libs dc k atTx tx = (if v = [] then Inr None else Inr (Some v))"
    by (simp add: GetAsOf_def GetNoStateWithRecent_def glen_def)
  with firstMutationFrom_Some [OF f]
  show "\<exists>t v. (k, t, v) \<in> set (allHistory (dc_hc dc) tx) \<and> atTx \<le> t \<and>
         (\<forall>r \<in> set (allHistory (dc_hc dc) tx). fst r = k \<and> atTx \<le> fst (snd r) \<longrightarrow> t \<le> fst (snd r)) \<and>
         GetAsOf libs dc k atTx tx = (if v = [] then Inr None else Inr (Some v))"
    by blast
next
  assume "\<not> (\<exists>r \<in> set (allHistory (dc_hc dc) tx). fst r = k \<and> atTx \<le> fst (snd r))"
  then have "firstMutationFrom (allHistory (dc_hc dc) tx) k atTx = None"
    by (simp add: firstMutationFrom_None)
  then show "GetAsOf libs dc k atTx tx =
        (case GetLatest libs dc k [] tx of Inl e \<Rightarrow> Inl e | Inr (v, found) \<Rightarrow> Inr v)"
    by (simp add: GetAsOf_def GetNoStateWithRecent_def)
qed


lemma historyTx_all:
  "allHistory (dc_hc (demoContext ''accounts'')) historyTx
     = [([0xA], 0, []), ([0xA], 2, [1]), ([0xA], 5, [2])]"
  by (simp add: allHistory_def demoContext_def historyTx_def)

lemma historyTx_latest:
  "GetLatest demoLibs (demoContext ''accounts'') [0xA] [] historyTx = Inr (Some [3], True)"
  by (simp add: GetLatest_def cursorSeekExact_def GetOne_def demoContext_def emptyDomain_def
        historyTx_def)

theorem GetAsOf_history_then_latest_witness:
  "GetAsOf demoLibs (demoContext ''accounts'') [0xA] 4 historyTx = Inr (Some [2]) \<and>
   GetAsOf demoLibs (demoContext ''accounts'') [0xA] 1 historyTx = Inr (Some [1]) \<and>
   GetAsOf demoLibs (demoContext ''accounts'') [0xA] 0 historyTx = Inr None \<and>
   GetAsOf demoLibs (demoContext ''accounts'') [0xA] 6 historyTx = Inr (Some [3]) \<and>
   GetLatest demoLibs (demoContext ''accounts'') [0xA] [] historyTx = Inr (Some [3], True)"
proof -
  note i4 = GetAsOf_history_then_latest [of "demoContext ''accounts''" historyTx "[0xA]" 4 demoLibs]
  note i1 = GetAsOf_history_then_latest [of "demoContext ''accounts''" historyTx "[0xA]" 1 demoLibs]
  note i0 = GetAsOf_history_then_latest [of "demoContext ''accounts''" historyTx "[0xA]" 0 demoLibs]
  note i6 = GetAsOf_history_then_latest [of "demoContext ''accounts''" historyTx "[0xA]" 6 demoLibs]
  from i4 have c4: "GetAsOf demoLibs (demoContext ''accounts'') [0xA] 4 historyTx = Inr (Some [2])"
    by (auto simp: historyTx_all)
  from i1 have c1: "GetAsOf demoLibs (demoContext ''accounts'') [0xA] 1 historyTx = Inr (Some [1])"
    by (auto simp: historyTx_all)
  from i0 have c0: "GetAsOf demoLibs (demoContext ''accounts'') [0xA] 0 historyTx = Inr None"
    by (auto simp: historyTx_all)
  from i6 have c6: "GetAsOf demoLibs (demoContext ''accounts'') [0xA] 6 historyTx = Inr (Some [3])"
    by (simp add: historyTx_all historyTx_latest)
  from c4 c1 c0 c6 historyTx_latest show ?thesis by blast
qed

subsection \<open>Collation\<close>

lemma collateLoop_eq:
  "collateLoop tx vt sb rows ws =
     (if \<exists>r \<in> set (filter (\<lambda>r. snd r = sb) rows). length (fst r) > 256
      then Inl (Panic ''slice bounds out of range'')
      else Inr (ws @ concat (map (\<lambda>r. [fst r, gbytes (GetOne tx vt (fst r @ snd r))])
                              (filter (\<lambda>r. snd r = sb) rows))))"
proof (induction rows arbitrary: ws)
  case Nil
  show ?case by simp
next
  case (Cons r rows)
  obtain k s where r: "r = (k, s)" by (cases r)
  show ?case
  proof (cases "s = sb")
    case False
    then have "sb \<noteq> s" by auto
    with False show ?thesis by (simp add: r Cons.IH)
  next
    case True
    show ?thesis
    proof (cases "length k > 256")
      case True
      with \<open>s = sb\<close> show ?thesis by (simp add: r)
    next
      case False
      with True show ?thesis by (simp add: r Cons.IH Let_def)
    qed
  qed
qed

lemma wordPairs_concat:
  "wordPairs (concat (map (\<lambda>r. [f r, g r]) xs)) = map (\<lambda>r. (f r, g r)) xs"
  by (induction xs) simp_all

lemma stepRows_keys:
  "set (map fst (stepRows d tx step)) = {k. (k, be_u64 (NOT step)) \<in> set (tables tx (keysTable d))}"
  by (force simp: stepRows_def)

lemma stepRows_distinct:
  assumes "distinct (tables tx (keysTable d))"
  shows "distinct (map fst (stepRows d tx step))"
proof -
  have "inj_on fst (set (stepRows d tx step))"
    by (auto simp: inj_on_def stepRows_def)
  moreover have "distinct (stepRows d tx step)"
    using assms by (simp add: stepRows_def)
  ultimately show ?thesis by (simp add: distinct_map)
qed

text \<open>
  Claim C9. \<^verbatim>\<open>collate\<close> panics when \<^verbatim>\<open>txFrom\<close> or \<^verbatim>\<open>txTo\<close> is not a multiple of the step size
  (or the step size is zero). When both are, the history was collated, the compressor was
  created and no key of the step is longer than the 256 bytes of the key buffer, it returns
  a collation whose words are one (key, value) pair for each row of the keys table whose
  stored inverted step equals \<^verbatim>\<open>^step\<close>, in table order, the value being the one that the values
  table holds for the key at that step; the keys of the pairs are exactly the keys with such
  a row, each once when the rows of the table are distinct.
\<close>

theorem collate_step_rows:
  "(aggregationStep d = 0 \<or> txFrom mod aggregationStep d \<noteq> 0 \<or> txTo mod aggregationStep d \<noteq> 0 \<longrightarrow>
      (\<exists>m. collate d histColl newComp step txFrom txTo tx = Inl (Panic m))) \<and>
   (aggregationStep d \<noteq> 0 \<and> txFrom mod aggregationStep d = 0 \<and> txTo mod aggregationStep d = 0 \<and>
    histColl = Inr h \<and> newComp = None \<and> (\<forall>r \<in> set (stepRows d tx step). length (fst r) \<le> 256) \<longrightarrow>
      (\<exists>coll. collate d histColl newComp step txFrom txTo tx = Inr coll \<and>
         wordPairs (valuesComp coll) = stepPairs d tx step \<and>
         valuesCount coll = length (stepPairs d tx step) \<and>
         set (map fst (stepPairs d tx step))
           = {k. (k, be_u64 (NOT step)) \<in> set (tables tx (keysTable d))} \<and>
         (distinct (tables tx (keysTable d)) \<longrightarrow> distinct (map fst (stepPairs d tx step)))))"
proof (intro conjI impI)
  assume "aggregationStep d = 0 \<or> txFrom mod aggregationStep d \<noteq> 0 \<or> txTo mod aggregationStep d \<noteq> 0"
  then consider "aggregationStep d = 0"
    | "aggregationStep d \<noteq> 0" "txFrom mod aggregationStep d \<noteq> 0"
    | "aggregationStep d \<noteq> 0" "txFrom mod aggregationStep d = 0" "txTo mod aggregationStep d \<noteq> 0"
    by meson
  then show "\<exists>m. collate d histColl newComp step txFrom txTo tx = Inl (Panic m)"
  proof cases
    case 1
    then show ?thesis by (simp add: collate_def)
  next
    case 2
    then show ?thesis by (simp add: collate_def assertTxFrom_def)
  next
    case 3
    then have "collate d histColl newComp step txFrom txTo tx = Inl assertTxTo"
      unfolding collate_def by (simp only: if_False if_True not_False_eq_True simp_thms)
    then show ?thesis by (simp add: assertTxTo_def)
  qed
next
  assume a: "aggregationStep d \<noteq> 0 \<and> txFrom mod aggregationStep d = 0 \<and> txTo mod aggregationStep d = 0 \<and>
    histColl = Inr h \<and> newComp = None \<and> (\<forall>r \<in> set (stepRows d tx step). length (fst r) \<le> 256)"
  let ?ws = "concat (map (\<lambda>r. [fst r, gbytes (GetOne tx (valsTable d) (fst r @ snd r))])
                       (stepRows d tx step))"
  let ?coll = "\<lparr>historyCollation = Some h, valuesComp = ?ws, valuesPath = (step, step + 1),
                valuesCount = length ?ws div 2\<rparr>"
  from a have "\<not> (\<exists>r \<in> set (stepRows d tx step). length (fst r) > 256)"
    by (auto simp: not_less)
  then have loop: "collateLoop tx (valsTable d) (be_u64 (NOT step)) (tables tx (keysTable d)) [] = Inr ?ws"
    unfolding stepRows_def by (subst collateLoop_eq) simp
  from a have c: "collate d histColl newComp step txFrom txTo tx = Inr ?coll"
    by (simp add: collate_def loop)
  have p: "wordPairs ?ws = stepPairs d tx step"
    by (simp add: wordPairs_concat stepPairs_def)
  have "length ?ws = 2 * length (stepRows d tx step)"
    by (induction "stepRows d tx step") (simp_all add: length_concat comp_def sum_list_triv)
  then have n: "length ?ws div 2 = length (stepPairs d tx step)"
    by (simp add: stepPairs_def)
  have m: "map fst (stepPairs d tx step) = map fst (stepRows d tx step)"
    by (simp add: stepPairs_def comp_def)
  show "\<exists>coll. collate d histColl newComp step txFrom txTo tx = Inr coll \<and>
         wordPairs (valuesComp coll) = stepPairs d tx step \<and>
         valuesCount coll = length (stepPairs d tx step) \<and>
         set (map fst (stepPairs d tx step))
           = {k. (k, be_u64 (NOT step)) \<in> set (tables tx (keysTable d))} \<and>
         (distinct (tables tx (keysTable d)) \<longrightarrow> distinct (map fst (stepPairs d tx step)))"
    using c p n stepRows_keys [of d tx step] stepRows_distinct [of tx d step]
    by (simp only: m) auto
qed


lemma historyTx_stepRows:
  "stepRows (emptyDomain ''accounts'' 4) historyTx 0 = [([0xA], [255, 255, 255, 255, 255, 255, 255, 255])]"
  by (simp add: stepRows_def emptyDomain_def historyTx_def be_u64_minus1)

lemma historyTx_stepPairs:
  "stepPairs (emptyDomain ''accounts'' 4) historyTx 0 = [([0xA], [2])]"
  by (simp add: stepPairs_def historyTx_stepRows)
     (simp add: GetOne_def gbytes_def emptyDomain_def historyTx_def)

theorem collate_step_rows_witness:
  "(\<exists>m. collate (emptyDomain ''accounts'' 4) (Inr ()) None 0 1 4 historyTx = Inl (Panic m)) \<and>
   (\<exists>coll. collate (emptyDomain ''accounts'' 4) (Inr ()) None 0 0 4 historyTx = Inr coll \<and>
           wordPairs (valuesComp coll) = [([0xA], [2])] \<and> valuesCount coll = 1)"
proof -
  note bad = collate_step_rows [of "emptyDomain ''accounts'' 4" 1 4 "Inr ()" None 0 historyTx "()"]
  note good = collate_step_rows [of "emptyDomain ''accounts'' 4" 0 4 "Inr ()" None 0 historyTx "()"]
  have s: "aggregationStep (emptyDomain ''accounts'' 4) = 4"
    by (simp add: emptyDomain_def)
  from bad have b: "\<exists>m. collate (emptyDomain ''accounts'' 4) (Inr ()) None 0 1 4 historyTx = Inl (Panic m)"
    by (simp add: s)
  from good have "\<exists>coll. collate (emptyDomain ''accounts'' 4) (Inr ()) None 0 0 4 historyTx = Inr coll \<and>
           wordPairs (valuesComp coll) = [([0xA], [2])] \<and> valuesCount coll = 1"
    by (simp add: s historyTx_stepRows historyTx_stepPairs) blast
  with b show ?thesis by blast
qed

subsection \<open>Unwind\<close>

lemma be_u64_minus2: "be_u64 (- 2) = [255, 255, 255, 255, 255, 255, 255, 254]"
  by code_simp

lemma be_u64_minus3: "be_u64 (- 3) = [255, 255, 255, 255, 255, 255, 255, 253]"
  by code_simp

lemma hr: "HistoryRange (dc_hc (demoContext ''accounts'')) 9 unwindTx = [([0xA], [2])]"
  by (simp add: HistoryRange_def allHistory_def demoContext_def unwindTx_def Let_def)

lemma ir: "IdxRangeDesc (dc_hc (demoContext ''accounts'')) [0xA] (9 - 1) 0 unwindTx = [4]"
  by (simp add: IdxRangeDesc_def allHistory_def demoContext_def unwindTx_def Let_def)

lemma un: "\<exists>t. Unwind (demoContext ''accounts'') unwindTx 2 9 = Inr t \<and>
   tables t ''accountsKeys'' = [([0xA], [255, 255, 255, 255, 255, 255, 255, 254])] \<and>
   tables t ''accountsVals'' = [([0xA, 255, 255, 255, 255, 255, 255, 255, 254], [2])]"
  by (simp add: Unwind_def HistoryRange_def IdxRangeDesc_def allHistory_def
     SetTxNum_def addValue_def NewWriter_def newWriter_def
     demoContext_def emptyDomain_def be_u64_minus2 be_u64_minus3 unwindDelete_def unwindDeletes_def
     historyPrune_def writerFlush_def historyFlush_def txUpdate_def loadKeys_def loadValues_def
     tableDelete_def dupDelete_def unwindTx_def gbytes_def Let_def)


lemma length_be_u64: "length (be_u64 w) = 8"
  by (simp add: be_u64_def)

lemma unwindRestore_writer:
  assumes "unwindRestore h tx n rng (seen, w) = Inr (seen', w')" "0 < n" "\<not> discard w"
  shows "wKeys w' = wKeys w @
           map (\<lambda>r. (fst r, be_u64 (NOT (unwindTarget h tx n (fst r) div wAggregationStep w)))) rng \<and>
         wValues w' = wValues w @
           map (\<lambda>r. (fst r @ be_u64 (NOT (unwindTarget h tx n (fst r) div wAggregationStep w)),
                     Some (snd r))) rng \<and>
         wKeysTable w' = wKeysTable w \<and> wValsTable w' = wValsTable w \<and> \<not> discard w' \<and>
         hwRecords (wHistory w') = hwRecords (wHistory w) \<and> hwTable (wHistory w') = hwTable (wHistory w)"
  using assms
proof (induction rng arbitrary: seen w)
  case Nil
  then show ?case by simp
next
  case (Cons r rng)
  obtain k v where r: "r = (k, v)" by (cases r)
  let ?t = "unwindTarget h tx n k"
  from Cons.prems(1,2) r obtain w1 w2 where
    s: "SetTxNum w ?t = Inr w1" and a: "addValue w1 k [] (Some v) = Inr w2"
    and rest: "unwindRestore h tx n rng (insert k seen, w2) = Inr (seen', w')"
    by (auto simp: unwindTarget_def split: sum.splits list.splits)
  from s have w1: "w1 = w\<lparr>setTxNumOnce := True, wHistory := (wHistory w)\<lparr>hwTxNum := ?t\<rparr>,
                         stepBytes := be_u64 (NOT (?t div wAggregationStep w))\<rparr>"
    by (auto simp: SetTxNum_def split: if_splits)
  from a w1 Cons.prems(3) have w2:
    "w2 = w1\<lparr>wKeys := wKeys w @ [(k, be_u64 (NOT (?t div wAggregationStep w)))],
             wValues := wValues w @ [(k @ be_u64 (NOT (?t div wAggregationStep w)), Some v)]\<rparr>"
    by (auto simp: addValue_def Let_def split: if_splits)
  from w1 w2 Cons.prems(3) have d: "\<not> discard w2" by simp
  from Cons.IH [OF rest Cons.prems(2) d] w1 w2 r show ?case by simp
qed

lemma HistoryRange_distinct: "distinct (map fst (HistoryRange h n tx))"
  by (simp add: HistoryRange_def Let_def comp_def)

lemma fullkeys_distinct:
  assumes "distinct (map fst rng)"
  shows "distinct (map (\<lambda>r. fst r @ be_u64 (f (fst r))) rng)"
proof -
  have "inj_on (\<lambda>r. fst r @ be_u64 (f (fst r))) (set rng)"
  proof (rule inj_onI)
    fix x y
    assume x: "x \<in> set rng" and y: "y \<in> set rng"
      and e: "fst x @ be_u64 (f (fst x)) = fst y @ be_u64 (f (fst y))"
    from e have "fst x = fst y" by (simp add: length_be_u64)
    with assms x y show "x = y" by (meson distinct_map inj_onD)
  qed
  moreover from assms have "distinct rng" by (simp add: distinct_map)
  ultimately show ?thesis by (simp add: distinct_map)
qed

lemma Unwind_recordedAt:
  assumes u: "Unwind dc tx step unwindTo = Inr tx'"
    and pos: "0 < unwindTo"
    and kv: "(k, v) \<in> set (HistoryRange (dc_hc dc) unwindTo tx)"
    and names: "keysTable (dc_d dc) \<noteq> valsTable (dc_d dc)"
  shows "recordedAt (dc_d dc) tx' k v (unwindTarget (dc_hc dc) tx unwindTo k)"
proof -
  let ?h = "dc_hc dc" and ?d = "dc_d dc"
  let ?rng = "HistoryRange ?h unwindTo tx"
  let ?sb = "\<lambda>k. be_u64 (NOT (unwindTarget ?h tx unwindTo k div aggregationStep ?d))"
  from u obtain seen restored where
    r: "unwindRestore ?h tx unwindTo ?rng ({}, NewWriter dc) = Inr (seen, restored)"
    and f: "writerFlush restored
              (historyPrune ?h unwindTo (unwindDelete ?d (be_u64 (NOT step)) seen unwindTo tx)) = Inr tx'"
    by (auto simp: Unwind_def Let_def split: sum.splits)
  have nw: "\<not> discard (NewWriter dc)" "wKeys (NewWriter dc) = []" "wValues (NewWriter dc) = []"
    "wKeysTable (NewWriter dc) = keysTable ?d" "wValsTable (NewWriter dc) = valsTable ?d"
    "wAggregationStep (NewWriter dc) = aggregationStep ?d"
    by (simp_all add: NewWriter_def newWriter_def)
  from unwindRestore_writer [OF r pos nw(1)] nw have w:
    "wKeys restored = map (\<lambda>r. (fst r, ?sb (fst r))) ?rng"
    "wValues restored = map (\<lambda>r. (fst r @ ?sb (fst r), Some (snd r))) ?rng"
    "wKeysTable restored = keysTable ?d" "wValsTable restored = valsTable ?d" "\<not> discard restored"
    by simp_all
  let ?tx2 = "historyPrune ?h unwindTo (unwindDelete ?d (be_u64 (NOT step)) seen unwindTo tx)"
  let ?tx3 = "historyFlush (wHistory restored) ?tx2"
  from f w names have t1: "tables tx' (keysTable ?d) = loadKeys (wKeys restored) (tables ?tx3 (keysTable ?d))"
    and t2: "tables tx' (valsTable ?d) = loadValues (wValues restored) (tables ?tx3 (valsTable ?d))"
    by (auto simp: writerFlush_def txUpdate_def Let_def)
  from kv w(1) have "(k, ?sb k) \<in> set (wKeys restored)" by force
  then have a: "(k, ?sb k) \<in> set (tables tx' (keysTable ?d))"
    by (simp add: t1 set_loadKeys)
  from kv w(2) have m: "(k @ ?sb k, Some v) \<in> set (wValues restored)" by force
  have "map fst (wValues restored) = map (\<lambda>r. fst r @ ?sb (fst r)) ?rng"
    by (simp add: w(2) comp_def)
  with fullkeys_distinct [OF HistoryRange_distinct, of "\<lambda>k. NOT (unwindTarget ?h tx unwindTo k div aggregationStep ?d)" ?h unwindTo tx]
  have dist: "distinct (map fst (wValues restored))" by simp
  from map_of_loadValues [OF dist m] have b: "GetOne tx' (valsTable ?d) (k @ ?sb k) = Some v"
    by (simp add: GetOne_def t2 gbytes_def)
  from a b show ?thesis by (simp add: recordedAt_def)
qed


lemma rev_sort_hd:
  assumes "rev (sort (remdups xs)) = t # rest"
  shows "t \<in> set xs \<and> (\<forall>x \<in> set xs. x \<le> t)"
proof -
  from assms have e: "sort (remdups xs) = rev rest @ [t]"
    by (metis rev.simps(2) rev_rev_ident)
  have "sorted (sort (remdups xs))" by simp
  with e have "sorted (rev rest @ [t])" by simp
  then have "\<forall>x \<in> set (rev rest). x \<le> t" by (simp add: sorted_append)
  moreover have "set xs = set (rev rest @ [t])"
    using e by (metis set_remdups set_sort)
  ultimately show ?thesis by auto
qed

lemma unwindTarget_cases:
  "(unwindTarget h tx n k = n - 1 \<and>
      \<not> (\<exists>r \<in> set (allHistory h tx). fst r = k \<and> 0 < fst (snd r) \<and> fst (snd r) \<le> n - 1)) \<or>
   ((\<exists>r \<in> set (allHistory h tx). fst r = k \<and> fst (snd r) = unwindTarget h tx n k) \<and>
      0 < unwindTarget h tx n k \<and> unwindTarget h tx n k \<le> n - 1 \<and>
      (\<forall>r \<in> set (allHistory h tx). fst r = k \<and> 0 < fst (snd r) \<and> fst (snd r) \<le> n - 1
           \<longrightarrow> fst (snd r) \<le> unwindTarget h tx n k))"
proof (cases "IdxRangeDesc h k (n - 1) 0 tx")
  case Nil
  let ?ys = "map (\<lambda>r. fst (snd r))
        (filter (\<lambda>r. fst r = k \<and> 0 < fst (snd r) \<and> fst (snd r) \<le> n - 1) (allHistory h tx))"
  from Nil have "length (rev (sort (remdups ?ys))) = 0"
    by (simp add: IdxRangeDesc_def)
  then have "remdups ?ys = []" by simp
  then have "?ys = []" by simp
  then have "set ?ys = {}" by simp
  then have "\<not> (\<exists>r \<in> set (allHistory h tx). fst r = k \<and> 0 < fst (snd r) \<and> fst (snd r) \<le> n - 1)"
    by (auto simp: filter_empty_conv)
  with Nil show ?thesis by (simp add: unwindTarget_def)
next
  case (Cons t rest)
  then have t: "unwindTarget h tx n k = t" by (simp add: unwindTarget_def)
  let ?P = "\<lambda>r. fst r = k \<and> 0 < fst (snd r) \<and> fst (snd r) \<le> n - 1"
  let ?ys = "map (\<lambda>r. fst (snd r)) (filter ?P (allHistory h tx))"
  from Cons have "rev (sort (remdups ?ys)) = t # rest" by (simp add: IdxRangeDesc_def)
  from rev_sort_hd [OF this]
  have m: "t \<in> set ?ys" and u: "\<forall>x \<in> set ?ys. x \<le> t" by blast+
  from m obtain r where r: "r \<in> set (allHistory h tx)" "?P r" "fst (snd r) = t"
    by (auto simp: image_iff)
  have d: "fst (snd r') \<le> t" if "r' \<in> set (allHistory h tx)" "?P r'" for r'
  proof -
    from that have "r' \<in> set (filter ?P (allHistory h tx))" by simp
    then have "fst (snd r') \<in> set ?ys" unfolding set_map by (rule imageI)
    with u show ?thesis by blast
  qed
  from r have a: "\<exists>r \<in> set (allHistory h tx). fst r = k \<and> fst (snd r) = t" by blast
  from r have b: "0 < t" and c: "t \<le> n - 1" by simp_all
  show ?thesis unfolding t using a b c d by blast
qed

lemma HistoryRange_member:
  assumes "r \<in> set (allHistory h tx)" "n \<le> fst (snd r)"
  shows "\<exists>t v. firstMutationFrom (allHistory h tx) (fst r) n = Some (t, v) \<and>
               (fst r, v) \<in> set (HistoryRange h n tx)"
proof -
  from assms have "firstMutationFrom (allHistory h tx) (fst r) n \<noteq> None"
    by (auto simp: firstMutationFrom_None)
  then obtain t v where f: "firstMutationFrom (allHistory h tx) (fst r) n = Some (t, v)"
    by (cases "firstMutationFrom (allHistory h tx) (fst r) n") auto
  from assms have "fst r \<in> set (sort (remdups (map fst (filter (\<lambda>r. n \<le> fst (snd r)) (allHistory h tx)))))"
    by auto
  with f have "(fst r, v) \<in> set (HistoryRange h n tx)"
    unfolding HistoryRange_def Let_def by (force simp: image_iff)
  with f show ?thesis by blast
qed

lemma set_fold_dupDelete:
  "set (fold (\<lambda>r t. dupDelete t (fst r) (snd r)) xs t) \<subseteq> set t"
proof (induction xs arbitrary: t)
  case Nil
  show ?case by simp
next
  case (Cons x xs)
  have "set (fold (\<lambda>r t. dupDelete t (fst r) (snd r)) xs (dupDelete t (fst x) (snd x)))
          \<subseteq> set (dupDelete t (fst x) (snd x))"
    by (rule Cons.IH)
  also have "\<dots> \<subseteq> set t" by (auto simp: dupDelete_def)
  finally show ?case by simp
qed

lemma Unwind_zero:
  assumes u: "Unwind dc tx step 0 = Inr tx'"
    and names: "keysTable (dc_d dc) \<noteq> valsTable (dc_d dc)"
  shows "set (tables tx' (keysTable (dc_d dc))) \<subseteq> set (tables tx (keysTable (dc_d dc)))"
proof -
  have r: "unwindRestore (dc_hc dc) tx 0 rng st = Inr st" for rng st
    by (cases rng; cases st) auto
  from u have f: "writerFlush (NewWriter dc)
      (historyPrune (dc_hc dc) 0 (unwindDelete (dc_d dc) (be_u64 (NOT step)) {} 0 tx)) = Inr tx'"
    by (simp add: Unwind_def r Let_def)
  have nw: "\<not> discard (NewWriter dc)" "wKeys (NewWriter dc) = []"
    "wKeysTable (NewWriter dc) = keysTable (dc_d dc)" "wValsTable (NewWriter dc) = valsTable (dc_d dc)"
    by (simp_all add: NewWriter_def newWriter_def)
  let ?tx1 = "unwindDelete (dc_d dc) (be_u64 (NOT step)) {} 0 tx"
  let ?tx2 = "historyFlush (wHistory (NewWriter dc)) (historyPrune (dc_hc dc) 0 ?tx1)"
  from f nw names have "tables tx' (keysTable (dc_d dc)) = loadKeys [] (tables ?tx2 (keysTable (dc_d dc)))"
    by (auto simp: writerFlush_def txUpdate_def Let_def)
  then have e1: "tables tx' (keysTable (dc_d dc)) = tables ?tx1 (keysTable (dc_d dc))"
    by (simp add: loadKeys_def historyFlush_def historyPrune_def)
  from names have e2: "tables ?tx1 (keysTable (dc_d dc)) =
      fold (\<lambda>r t. dupDelete t (fst r) (snd r))
        (filter (unwindDeletes (be_u64 (NOT step)) {} 0) (tables tx (keysTable (dc_d dc))))
        (tables tx (keysTable (dc_d dc)))"
    by (simp add: unwindDelete_def txUpdate_def Let_def)
  show ?thesis unfolding e1 e2 by (rule set_fold_dupDelete)
qed

lemma dupLess_trans: "dupLess a b \<Longrightarrow> dupLess b c \<Longrightarrow> dupLess a c"
  by (auto simp: dupLess_def)

lemma dupLess_total: "a \<noteq> b \<Longrightarrow> \<not> dupLess a b \<Longrightarrow> dupLess b a"
  by (cases a; cases b) (auto simp: dupLess_def)

lemma dupSorted_filter: "dupSorted t \<Longrightarrow> dupSorted (filter P t)"
  by (simp add: dupSorted_def sorted_wrt_filter)

lemma dupSorted_dupPut: "dupSorted t \<Longrightarrow> dupSorted (dupPut t k v)"
proof (induction t)
  case Nil
  show ?case by (simp add: dupSorted_def)
next
  case (Cons r rs)
  from Cons.prems have rs: "dupSorted rs" and lt: "\<forall>x \<in> set rs. dupLess r x"
    by (simp_all add: dupSorted_def)
  show ?case
  proof (cases "(k, v) = r")
    case True
    with Cons.prems show ?thesis by simp
  next
    case ne: False
    show ?thesis
    proof (cases "k < fst r \<or> (k = fst r \<and> v < snd r)")
      case True
      then have l: "dupLess (k, v) r" by (simp add: dupLess_def)
      with lt have "\<forall>x \<in> set rs. dupLess (k, v) x" by (blast intro: dupLess_trans)
      with True ne l Cons.prems show ?thesis by (simp add: dupSorted_def)
    next
      case False
      then have "\<not> dupLess (k, v) r" by (simp add: dupLess_def)
      with ne have "dupLess r (k, v)" by (metis dupLess_total)
      with lt have "\<forall>x \<in> set (dupPut rs k v). dupLess r x" by (simp add: set_dupPut)
      moreover from Cons.IH [OF rs] have "dupSorted (dupPut rs k v)" .
      moreover from False ne have "dupPut (r # rs) k v = r # dupPut rs k v"
        by (cases r) auto
      ultimately show ?thesis by (simp add: dupSorted_def)
    qed
  qed
qed

lemma dupSorted_loadKeys: "dupSorted rows \<Longrightarrow> dupSorted (loadKeys kvs rows)"
proof -
  have "dupSorted t \<Longrightarrow> dupSorted (fold (\<lambda>r t. dupPut t (fst r) (snd r)) xs t)" for xs t
    by (induction xs arbitrary: t) (simp_all add: dupSorted_dupPut)
  then show "dupSorted rows \<Longrightarrow> dupSorted (loadKeys kvs rows)" by (simp add: loadKeys_def)
qed

lemma find_dupSorted:
  assumes "dupSorted rows" "(k, s0) \<in> set rows" "\<forall>s. (k, s) \<in> set rows \<longrightarrow> s0 \<le> s"
  shows "find (\<lambda>r. fst r = k) rows = Some (k, s0)"
  using assms
proof (induction rows)
  case Nil
  then show ?case by simp
next
  case (Cons r rs)
  from Cons.prems(1) have rs: "dupSorted rs" and lt: "\<forall>x \<in> set rs. dupLess r x"
    by (simp_all add: dupSorted_def)
  show ?case
  proof (cases "fst r = k")
    case True
    then obtain s where r: "r = (k, s)" by (cases r) auto
    with Cons.prems(3) have le: "s0 \<le> s" by simp
    have "s = s0"
    proof (rule ccontr)
      assume n: "s \<noteq> s0"
      with Cons.prems(2) r have "(k, s0) \<in> set rs" by simp
      with lt r have "dupLess (k, s) (k, s0)" by blast
      then have "s < s0" by (simp add: dupLess_def)
      with le show False by simp
    qed
    with r show ?thesis by simp
  next
    case False
    with Cons.prems(2) have m: "(k, s0) \<in> set rs" by auto
    from Cons.prems(3) have "\<forall>s. (k, s) \<in> set rs \<longrightarrow> s0 \<le> s" by simp
    from Cons.IH [OF rs m this] False show ?thesis by simp
  qed
qed

lemma fold_dupDelete_filter:
  "fold (\<lambda>r t. dupDelete t (fst r) (snd r)) xs t = filter (\<lambda>r. r \<notin> set xs) t"
proof (induction xs arbitrary: t)
  case Nil
  show ?case by simp
next
  case (Cons x xs)
  have step: "dupDelete t (fst x) (snd x) = filter (\<lambda>r. r \<noteq> x) t"
    by (simp add: dupDelete_def)
  have "fold (\<lambda>r t. dupDelete t (fst r) (snd r)) (x # xs) t
      = fold (\<lambda>r t. dupDelete t (fst r) (snd r)) xs (dupDelete t (fst x) (snd x))"
    by simp
  also have "\<dots> = filter (\<lambda>r. r \<notin> set xs) (filter (\<lambda>r. r \<noteq> x) t)"
    unfolding Cons.IH step ..
  also have "\<dots> = filter (\<lambda>r. r \<notin> set (x # xs)) t"
    by (simp add: conj_commute)
  finally show ?case .
qed

lemma unwindRestore_seen:
  assumes "unwindRestore h tx n rng (seen, w) = Inr (seen', w')" "0 < n"
  shows "seen' = seen \<union> fst ` set rng"
  using assms
proof (induction rng arbitrary: seen w)
  case Nil
  then show ?case by simp
next
  case (Cons r rng)
  obtain k v where r: "r = (k, v)" by (cases r)
  from Cons.prems r obtain w2 where
    rest: "unwindRestore h tx n rng (insert k seen, w2) = Inr (seen', w')"
    by (auto split: sum.splits list.splits)
  from Cons.IH [OF rest Cons.prems(2)] r show ?case by auto
qed

lemma Unwind_latest:
  assumes u: "Unwind dc tx step unwindTo = Inr tx'"
    and pos: "0 < unwindTo"
    and kv: "(k, v) \<in> set (HistoryRange (dc_hc dc) unwindTo tx)"
    and names: "keysTable (dc_d dc) \<noteq> valsTable (dc_d dc)"
    and so: "dupSorted (tables tx (keysTable (dc_d dc)))"
    and len: "length k + 8 \<le> 60"
    and above: "\<forall>s. (k, s) \<in> set (tables tx (keysTable (dc_d dc))) \<longrightarrow>
        s = be_u64 (NOT step) \<or>
        be_u64 (NOT (unwindTarget (dc_hc dc) tx unwindTo k div aggregationStep (dc_d dc))) \<le> s"
  shows "GetLatest libs dc k [] tx' = Inr (Some v, True)"
proof -
  let ?h = "dc_hc dc" and ?d = "dc_d dc"
  let ?rng = "HistoryRange ?h unwindTo tx"
  let ?sb = "\<lambda>k. be_u64 (NOT (unwindTarget ?h tx unwindTo k div aggregationStep ?d))"
  let ?rows = "tables tx (keysTable ?d)"
  from u obtain seen restored where
    r: "unwindRestore ?h tx unwindTo ?rng ({}, NewWriter dc) = Inr (seen, restored)"
    and f: "writerFlush restored
              (historyPrune ?h unwindTo (unwindDelete ?d (be_u64 (NOT step)) seen unwindTo tx)) = Inr tx'"
    by (auto simp: Unwind_def Let_def split: sum.splits)
  have nw: "\<not> discard (NewWriter dc)" "wKeys (NewWriter dc) = []" "wValues (NewWriter dc) = []"
    "wKeysTable (NewWriter dc) = keysTable ?d" "wValsTable (NewWriter dc) = valsTable ?d"
    "wAggregationStep (NewWriter dc) = aggregationStep ?d"
    by (simp_all add: NewWriter_def newWriter_def)
  from unwindRestore_writer [OF r pos nw(1)] nw have w:
    "wKeys restored = map (\<lambda>r. (fst r, ?sb (fst r))) ?rng"
    "wKeysTable restored = keysTable ?d" "wValsTable restored = valsTable ?d" "\<not> discard restored"
    by simp_all
  from unwindRestore_seen [OF r pos] have seen: "seen = fst ` set ?rng" by simp
  let ?tx1 = "unwindDelete ?d (be_u64 (NOT step)) seen unwindTo tx"
  let ?tx3 = "historyFlush (wHistory restored) (historyPrune ?h unwindTo ?tx1)"
  from f w names have t1: "tables tx' (keysTable ?d) = loadKeys (wKeys restored) (tables ?tx3 (keysTable ?d))"
    by (auto simp: writerFlush_def txUpdate_def Let_def)
  have t3: "tables ?tx3 (keysTable ?d) = tables ?tx1 (keysTable ?d)"
    by (simp add: historyFlush_def historyPrune_def)
  from names have t0: "tables ?tx1 (keysTable ?d) =
      filter (\<lambda>r. r \<notin> set (filter (unwindDeletes (be_u64 (NOT step)) seen unwindTo) ?rows)) ?rows"
    by (simp add: unwindDelete_def txUpdate_def Let_def fold_dupDelete_filter)
  let ?kept = "filter (\<lambda>r. r \<notin> set (filter (unwindDeletes (be_u64 (NOT step)) seen unwindTo) ?rows)) ?rows"
  have rows': "tables tx' (keysTable ?d) = loadKeys (wKeys restored) ?kept"
    by (simp only: t1 t3 t0)
  have sorted': "dupSorted (tables tx' (keysTable ?d))"
    unfolding rows' by (intro dupSorted_loadKeys dupSorted_filter so)
  from kv w(1) have "(k, ?sb k) \<in> set (wKeys restored)" by force
  then have mem: "(k, ?sb k) \<in> set (tables tx' (keysTable ?d))"
    by (simp add: rows' set_loadKeys)
  have least: "\<forall>s. (k, s) \<in> set (tables tx' (keysTable ?d)) \<longrightarrow> ?sb k \<le> s"
  proof (intro allI impI)
    fix s
    assume "(k, s) \<in> set (tables tx' (keysTable ?d))"
    then consider "(k, s) \<in> set (wKeys restored)" | "(k, s) \<in> set ?kept"
      by (auto simp: rows' set_loadKeys)
    then show "?sb k \<le> s"
    proof cases
      case 1
      with w(1) show ?thesis by auto
    next
      case 2
      then have in0: "(k, s) \<in> set ?rows"
        and nd: "\<not> unwindDeletes (be_u64 (NOT step)) seen unwindTo (k, s)" by auto
      from kv seen have "k \<in> seen" by force
      with nd pos have "s \<noteq> be_u64 (NOT step)" by (simp add: unwindDeletes_def)
      with above in0 show ?thesis by blast
    qed
  qed
  from find_dupSorted [OF sorted' mem least]
  have fd: "cursorSeekExact (tables tx' (keysTable ?d)) k = Some (k, ?sb k)"
    by (simp add: cursorSeekExact_def)
  from Unwind_recordedAt [OF u pos kv names]
  have "GetOne tx' (valsTable ?d) (k @ ?sb k) = Some v" by (simp add: recordedAt_def)
  with fd len show ?thesis by (simp add: GetLatest_def Let_def length_be_u64)
qed

lemma unwound:
  "Unwind (demoContext ''accounts'') unwindTx 2 9 = Inr unwoundTx \<and>
   tables unwoundTx ''accountsKeys'' = [([0xA], [255, 255, 255, 255, 255, 255, 255, 254])] \<and>
   tables unwoundTx ''accountsVals'' = [([0xA, 255, 255, 255, 255, 255, 255, 255, 254], [2])]"
proof -
  from un obtain t where t: "Unwind (demoContext ''accounts'') unwindTx 2 9 = Inr t"
    "tables t ''accountsKeys'' = [([0xA], [255, 255, 255, 255, 255, 255, 255, 254])]"
    "tables t ''accountsVals'' = [([0xA, 255, 255, 255, 255, 255, 255, 255, 254], [2])]"
    by blast
  from t(1) have "unwoundTx = t" by (simp add: unwoundTx_def)
  with t show ?thesis by simp
qed

lemma unwind_history:
  "allHistory (dc_hc (demoContext ''accounts'')) unwindTx = [([0xA], 4, [1]), ([0xA], 10, [2])]"
  by (simp add: allHistory_def demoContext_def unwindTx_def)

lemma deep_un: "\<exists>t. Unwind (demoContext ''accounts'') deepTx 2 9 = Inr t \<and>
   tables t ''accountsKeys'' = [([0xA], [255, 255, 255, 255, 255, 255, 255, 252]),
                                ([0xA], [255, 255, 255, 255, 255, 255, 255, 254])] \<and>
   tables t ''accountsVals'' = [([0xA, 255, 255, 255, 255, 255, 255, 255, 252], [4]),
                                ([0xA, 255, 255, 255, 255, 255, 255, 255, 254], [2])]"
  by (simp add: Unwind_def HistoryRange_def IdxRangeDesc_def allHistory_def
     SetTxNum_def addValue_def NewWriter_def newWriter_def
     demoContext_def emptyDomain_def be_u64_minus2 be_u64_minus3 unwindDelete_def unwindDeletes_def
     historyPrune_def writerFlush_def historyFlush_def txUpdate_def loadKeys_def loadValues_def
     tableDelete_def dupDelete_def deepTx_def gbytes_def Let_def)

lemma deep_unwound:
  "Unwind (demoContext ''accounts'') deepTx 2 9 = Inr deepUnwoundTx \<and>
   tables deepUnwoundTx ''accountsKeys'' = [([0xA], [255, 255, 255, 255, 255, 255, 255, 252]),
                                            ([0xA], [255, 255, 255, 255, 255, 255, 255, 254])] \<and>
   tables deepUnwoundTx ''accountsVals'' = [([0xA, 255, 255, 255, 255, 255, 255, 255, 252], [4]),
                                            ([0xA, 255, 255, 255, 255, 255, 255, 255, 254], [2])]"
proof -
  from deep_un obtain t where t: "Unwind (demoContext ''accounts'') deepTx 2 9 = Inr t"
    "tables t ''accountsKeys'' = [([0xA], [255, 255, 255, 255, 255, 255, 255, 252]),
                                  ([0xA], [255, 255, 255, 255, 255, 255, 255, 254])]"
    "tables t ''accountsVals'' = [([0xA, 255, 255, 255, 255, 255, 255, 255, 252], [4]),
                                  ([0xA, 255, 255, 255, 255, 255, 255, 255, 254], [2])]"
    by blast
  from t(1) have "deepUnwoundTx = t" by (simp add: deepUnwoundTx_def)
  with t show ?thesis by simp
qed

text \<open>
  Claim C1, as the code has it. Let \<^verbatim>\<open>Unwind(step, txNumUnindTo)\<close> return without error on a
  domain whose keys and values tables are distinct. If \<^verbatim>\<open>txNumUnindTo > 0\<close>, then for every key
  with a history record at a tx number \<open>\<ge> txNumUnindTo\<close> the pre-image of the key at
  \<^verbatim>\<open>txNumUnindTo\<close> (the value before its first mutation from there on) is in the keys and values
  tables of the result at the step of \<open>unwindTarget\<close>. It is the latest value of the key, the
  one \<^verbatim>\<open>GetLatest\<close> returns, if the keys table was in order, the key with its 8 bytes of step
  fits the buffer of \<^verbatim>\<open>GetLatest\<close>, and the key had no row of a step above that of
  \<open>unwindTarget\<close> other than \<^verbatim>\<open>step\<close>, the one step whose rows \<^verbatim>\<open>Unwind\<close> deletes. If
  \<^verbatim>\<open>txNumUnindTo = 0\<close> the restore loop does not run and no row is added to the keys table. The
  tx number \<open>unwindTarget\<close> is \<^verbatim>\<open>txNumUnindTo - 1\<close> when the key has no history record in
  \<open>(0, txNumUnindTo - 1]\<close>, and otherwise the greatest tx number of such a record, itself and
  not minus one: the latest mutation before the unwind point.
\<close>

theorem Unwind_restores_preimage:
  assumes u: "Unwind dc tx step unwindTo = Inr tx'"
    and names: "keysTable (dc_d dc) \<noteq> valsTable (dc_d dc)"
  shows "(0 < unwindTo \<longrightarrow>
           (\<forall>r \<in> set (allHistory (dc_hc dc) tx). unwindTo \<le> fst (snd r) \<longrightarrow>
              (\<exists>t v. firstMutationFrom (allHistory (dc_hc dc) tx) (fst r) unwindTo = Some (t, v) \<and>
                  recordedAt (dc_d dc) tx' (fst r) v (unwindTarget (dc_hc dc) tx unwindTo (fst r)) \<and>
                  (dupSorted (tables tx (keysTable (dc_d dc))) \<and> length (fst r) + 8 \<le> 60 \<and>
                   (\<forall>s. (fst r, s) \<in> set (tables tx (keysTable (dc_d dc))) \<longrightarrow>
                      s = be_u64 (NOT step) \<or>
                      be_u64 (NOT (unwindTarget (dc_hc dc) tx unwindTo (fst r)
                                     div aggregationStep (dc_d dc))) \<le> s)
                   \<longrightarrow> GetLatest libs dc (fst r) [] tx' = Inr (Some v, True))))) \<and>
         (unwindTo = 0 \<longrightarrow>
           set (tables tx' (keysTable (dc_d dc))) \<subseteq> set (tables tx (keysTable (dc_d dc)))) \<and>
         ((unwindTarget (dc_hc dc) tx unwindTo k = unwindTo - 1 \<and>
            \<not> (\<exists>r \<in> set (allHistory (dc_hc dc) tx).
                  fst r = k \<and> 0 < fst (snd r) \<and> fst (snd r) \<le> unwindTo - 1)) \<or>
          ((\<exists>r \<in> set (allHistory (dc_hc dc) tx).
               fst r = k \<and> fst (snd r) = unwindTarget (dc_hc dc) tx unwindTo k) \<and>
            0 < unwindTarget (dc_hc dc) tx unwindTo k \<and>
            unwindTarget (dc_hc dc) tx unwindTo k \<le> unwindTo - 1 \<and>
            (\<forall>r \<in> set (allHistory (dc_hc dc) tx).
               fst r = k \<and> 0 < fst (snd r) \<and> fst (snd r) \<le> unwindTo - 1
                 \<longrightarrow> fst (snd r) \<le> unwindTarget (dc_hc dc) tx unwindTo k)))"
proof (intro conjI impI ballI)
  fix r
  assume pos: "0 < unwindTo" and r: "r \<in> set (allHistory (dc_hc dc) tx)" "unwindTo \<le> fst (snd r)"
  from HistoryRange_member [OF r] obtain t v where
    f: "firstMutationFrom (allHistory (dc_hc dc) tx) (fst r) unwindTo = Some (t, v)"
    and m: "(fst r, v) \<in> set (HistoryRange (dc_hc dc) unwindTo tx)" by blast
  note a = Unwind_recordedAt [OF u pos m names]
  have b: "GetLatest libs dc (fst r) [] tx' = Inr (Some v, True)"
    if "dupSorted (tables tx (keysTable (dc_d dc))) \<and> length (fst r) + 8 \<le> 60 \<and>
        (\<forall>s. (fst r, s) \<in> set (tables tx (keysTable (dc_d dc))) \<longrightarrow>
           s = be_u64 (NOT step) \<or>
           be_u64 (NOT (unwindTarget (dc_hc dc) tx unwindTo (fst r) div aggregationStep (dc_d dc))) \<le> s)"
    using that Unwind_latest [OF u pos m names, of libs] by blast
  from f a b
  show "\<exists>t v. firstMutationFrom (allHistory (dc_hc dc) tx) (fst r) unwindTo = Some (t, v) \<and>
          recordedAt (dc_d dc) tx' (fst r) v (unwindTarget (dc_hc dc) tx unwindTo (fst r)) \<and>
          (dupSorted (tables tx (keysTable (dc_d dc))) \<and> length (fst r) + 8 \<le> 60 \<and>
           (\<forall>s. (fst r, s) \<in> set (tables tx (keysTable (dc_d dc))) \<longrightarrow>
              s = be_u64 (NOT step) \<or>
              be_u64 (NOT (unwindTarget (dc_hc dc) tx unwindTo (fst r)
                             div aggregationStep (dc_d dc))) \<le> s)
           \<longrightarrow> GetLatest libs dc (fst r) [] tx' = Inr (Some v, True))"
    by blast
next
  assume "unwindTo = 0"
  with u names show "set (tables tx' (keysTable (dc_d dc))) \<subseteq> set (tables tx (keysTable (dc_d dc)))"
    using Unwind_zero by blast
next
  show "(unwindTarget (dc_hc dc) tx unwindTo k = unwindTo - 1 \<and>
            \<not> (\<exists>r \<in> set (allHistory (dc_hc dc) tx).
                  fst r = k \<and> 0 < fst (snd r) \<and> fst (snd r) \<le> unwindTo - 1)) \<or>
          ((\<exists>r \<in> set (allHistory (dc_hc dc) tx).
               fst r = k \<and> fst (snd r) = unwindTarget (dc_hc dc) tx unwindTo k) \<and>
            0 < unwindTarget (dc_hc dc) tx unwindTo k \<and>
            unwindTarget (dc_hc dc) tx unwindTo k \<le> unwindTo - 1 \<and>
            (\<forall>r \<in> set (allHistory (dc_hc dc) tx).
               fst r = k \<and> 0 < fst (snd r) \<and> fst (snd r) \<le> unwindTo - 1
                 \<longrightarrow> fst (snd r) \<le> unwindTarget (dc_hc dc) tx unwindTo k))"
    by (rule unwindTarget_cases)
qed

theorem Unwind_restores_preimage_witness:
  "Unwind (demoContext ''accounts'') unwindTx 2 9 = Inr unwoundTx \<and>
   keysTable (dc_d (demoContext ''accounts'')) \<noteq> valsTable (dc_d (demoContext ''accounts'')) \<and>
   ([0xA], 10, [2]) \<in> set (allHistory (dc_hc (demoContext ''accounts'')) unwindTx) \<and>
   unwindTarget (dc_hc (demoContext ''accounts'')) unwindTx 9 [0xA] = 4 \<and>
   firstMutationFrom (allHistory (dc_hc (demoContext ''accounts'')) unwindTx) [0xA] 9 = Some (10, [2]) \<and>
   \<not> recordedAt (dc_d (demoContext ''accounts'')) unwindTx [0xA] [2] 4 \<and>
   recordedAt (dc_d (demoContext ''accounts'')) unwoundTx [0xA] [2] 4 \<and>
   GetLatest demoLibs (demoContext ''accounts'') [0xA] [] unwindTx = Inr (Some [3], True) \<and>
   GetLatest demoLibs (demoContext ''accounts'') [0xA] [] unwoundTx = Inr (Some [2], True)"
proof -
  let ?dc = "demoContext ''accounts''"
  let ?rows = "tables unwindTx (keysTable (dc_d ?dc))"
  have u: "Unwind ?dc unwindTx 2 9 = Inr unwoundTx"
    by (simp add: unwound)
  have names: "keysTable (dc_d ?dc) \<noteq> valsTable (dc_d ?dc)"
    by (simp add: demoContext_def emptyDomain_def)
  have m: "([0xA], 10, [2]) \<in> set (allHistory (dc_hc ?dc) unwindTx)"
    by (simp add: unwind_history)
  have t: "unwindTarget (dc_hc ?dc) unwindTx 9 [0xA] = 4"
    using ir by (simp add: unwindTarget_def)
  have fm: "firstMutationFrom (allHistory (dc_hc ?dc) unwindTx) [0xA] 9 = Some (10, [2])"
    by (simp add: unwind_history)
  have before: "\<not> recordedAt (dc_d ?dc) unwindTx [0xA] [2] 4"
    by (simp add: recordedAt_def demoContext_def emptyDomain_def unwindTx_def be_u64_minus2)
  have g0: "GetLatest demoLibs ?dc [0xA] [] unwindTx = Inr (Some [3], True)"
    by (simp add: GetLatest_def cursorSeekExact_def GetOne_def demoContext_def emptyDomain_def
          unwindTx_def Let_def)
  have so: "dupSorted ?rows"
    by (simp add: dupSorted_def demoContext_def emptyDomain_def unwindTx_def)
  have ab: "\<forall>s. ([0xA], s) \<in> set ?rows \<longrightarrow> s = be_u64 (NOT 2) \<or>
      be_u64 (NOT (unwindTarget (dc_hc ?dc) unwindTx 9 [0xA] div aggregationStep (dc_d ?dc))) \<le> s"
    by (simp add: demoContext_def emptyDomain_def unwindTx_def be_u64_minus3)
  note inst = Unwind_restores_preimage [OF u names, of demoLibs "[0xA]"]
  then have "\<forall>r \<in> set (allHistory (dc_hc ?dc) unwindTx). 9 \<le> fst (snd r) \<longrightarrow>
      (\<exists>t v. firstMutationFrom (allHistory (dc_hc ?dc) unwindTx) (fst r) 9 = Some (t, v) \<and>
         recordedAt (dc_d ?dc) unwoundTx (fst r) v (unwindTarget (dc_hc ?dc) unwindTx 9 (fst r)) \<and>
         (dupSorted ?rows \<and> length (fst r) + 8 \<le> 60 \<and>
          (\<forall>s. (fst r, s) \<in> set ?rows \<longrightarrow> s = be_u64 (NOT 2) \<or>
             be_u64 (NOT (unwindTarget (dc_hc ?dc) unwindTx 9 (fst r) div aggregationStep (dc_d ?dc))) \<le> s)
          \<longrightarrow> GetLatest demoLibs ?dc (fst r) [] unwoundTx = Inr (Some v, True)))"
    by simp
  from this [rule_format, OF m] obtain t' v' where
    f': "firstMutationFrom (allHistory (dc_hc ?dc) unwindTx) [0xA] 9 = Some (t', v')"
    and r': "recordedAt (dc_d ?dc) unwoundTx [0xA] v' (unwindTarget (dc_hc ?dc) unwindTx 9 [0xA])"
    and l': "dupSorted ?rows \<and> length [0xA :: 8 word] + 8 \<le> 60 \<and>
          (\<forall>s. ([0xA], s) \<in> set ?rows \<longrightarrow> s = be_u64 (NOT 2) \<or>
             be_u64 (NOT (unwindTarget (dc_hc ?dc) unwindTx 9 [0xA] div aggregationStep (dc_d ?dc))) \<le> s)
          \<longrightarrow> GetLatest demoLibs ?dc [0xA] [] unwoundTx = Inr (Some v', True)"
    by auto
  from f' fm have v': "v' = [2]" by simp
  from r' v' t have after: "recordedAt (dc_d ?dc) unwoundTx [0xA] [2] 4" by simp
  from l' so ab v' have g1: "GetLatest demoLibs ?dc [0xA] [] unwoundTx = Inr (Some [2], True)" by simp
  from u names m t fm before after g0 g1 show ?thesis by blast
qed

text \<open>
  The claim as stated fails in two ways. In the unwind to tx 9 of the first example the
  pre-image 2 of the key A, which was not in the tables, is recorded at the step of tx 4, the
  mutation before the unwind point: neither at the step of tx \<open>9 - 1\<close>, nor at that of the next
  mutation minus one, \<open>10 - 1\<close>, nor at that of \<open>4 - 1\<close>. In the second example the key has a
  row of step 3, which the unwind of step 2 to tx 9 leaves: the pre-image 2 is recorded, and
  the latest value of the key is still 4.
\<close>

theorem Unwind_records_at_previous_mutation:
  "Unwind (demoContext ''accounts'') unwindTx 2 9 = Inr unwoundTx \<and>
   firstMutationFrom (allHistory (dc_hc (demoContext ''accounts'')) unwindTx) [0xA] 9 = Some (10, [2]) \<and>
   \<not> recordedAt (emptyDomain ''accounts'' 4) unwindTx [0xA] [2] 4 \<and>
   recordedAt (emptyDomain ''accounts'' 4) unwoundTx [0xA] [2] 4 \<and>
   \<not> recordedAt (emptyDomain ''accounts'' 4) unwoundTx [0xA] [2] (9 - 1) \<and>
   \<not> recordedAt (emptyDomain ''accounts'' 4) unwoundTx [0xA] [2] (10 - 1) \<and>
   \<not> recordedAt (emptyDomain ''accounts'' 4) unwoundTx [0xA] [2] (4 - 1) \<and>
   Unwind (demoContext ''accounts'') deepTx 2 9 = Inr deepUnwoundTx \<and>
   firstMutationFrom (allHistory (dc_hc (demoContext ''accounts'')) deepTx) [0xA] 9 = Some (10, [2]) \<and>
   recordedAt (emptyDomain ''accounts'' 4) deepUnwoundTx [0xA] [2] 4 \<and>
   GetLatest demoLibs (demoContext ''accounts'') [0xA] [] deepUnwoundTx = Inr (Some [4], True)"
proof -
  have a: "Unwind (demoContext ''accounts'') unwindTx 2 9 = Inr unwoundTx"
    by (simp add: unwound)
  have b: "firstMutationFrom (allHistory (dc_hc (demoContext ''accounts'')) unwindTx) [0xA] 9 = Some (10, [2])"
    by (simp add: unwind_history)
  have c: "\<not> recordedAt (emptyDomain ''accounts'' 4) unwindTx [0xA] [2] 4"
    by (simp add: recordedAt_def emptyDomain_def unwindTx_def be_u64_minus2)
  have d: "recordedAt (emptyDomain ''accounts'' 4) unwoundTx [0xA] [2] 4"
    "\<not> recordedAt (emptyDomain ''accounts'' 4) unwoundTx [0xA] [2] (9 - 1)"
    "\<not> recordedAt (emptyDomain ''accounts'' 4) unwoundTx [0xA] [2] (10 - 1)"
    "\<not> recordedAt (emptyDomain ''accounts'' 4) unwoundTx [0xA] [2] (4 - 1)"
    by (simp_all add: unwound recordedAt_def emptyDomain_def GetOne_def
          be_u64_minus1 be_u64_minus2 be_u64_minus3)
  have e: "Unwind (demoContext ''accounts'') deepTx 2 9 = Inr deepUnwoundTx"
    by (simp add: deep_unwound)
  have f: "firstMutationFrom (allHistory (dc_hc (demoContext ''accounts'')) deepTx) [0xA] 9 = Some (10, [2])"
    by (simp add: allHistory_def demoContext_def deepTx_def)
  have g: "recordedAt (emptyDomain ''accounts'' 4) deepUnwoundTx [0xA] [2] 4"
    by (simp add: deep_unwound recordedAt_def emptyDomain_def GetOne_def be_u64_minus2)
  have ks: "keysTable (dc_d (demoContext ''accounts'')) = ''accountsKeys''"
    "valsTable (dc_d (demoContext ''accounts'')) = ''accountsVals''"
    by (simp_all add: demoContext_def emptyDomain_def)
  have h: "GetLatest demoLibs (demoContext ''accounts'') [0xA] [] deepUnwoundTx = Inr (Some [4], True)"
    by (simp add: GetLatest_def ks deep_unwound cursorSeekExact_def GetOne_def Let_def)
  from a b c d e f g h show ?thesis by blast
qed

subsection \<open>Errors of the iteration over the storage\<close>

lemma set_heap_Push: "set (heap_Push cp x) = insert x (set cp)"
  by (induction cp) auto

lemma set_cursorNextNoDup: "set (cursorNextNoDup pos) \<subseteq> set pos"
  by (cases pos) (auto simp: cursorNextNoDup_def dest: set_dropWhileD)

lemma dbItem_checked:
  assumes "8 \<le> length v" "envHaveRamUpdates env"
  shows "dbItem env ci pos k v =
     (if badRow env (k, v) then Inl setTxNumError
      else Inr (ci\<lparr>dbCursor := pos, key := k, itemEndTxNum := rowEndTxNum (envStepSize env) v,
                  val := GetOne (envRoTx env) (envValsTable env) (k @ take 8 v)\<rparr>))"
  using assms by (simp add: dbItem_def badRow_def rowEndTxNum_def BigEndian_Uint64_def Let_def)

lemma advance_db:
  assumes db: "ctype ci = DB_CURSOR" and ram: "envHaveRamUpdates env"
    and wf: "\<forall>r \<in> set (dbCursor ci). 8 \<le> length (snd r)"
  shows "(nextRows env ci = [] \<longrightarrow> advance env ci = Inr None) \<and>
         (\<forall>r rest. nextRows env ci = r # rest \<longrightarrow>
            (badRow env r \<longrightarrow> advance env ci = Inl setTxNumError) \<and>
            (\<not> badRow env r \<longrightarrow>
               (\<exists>ci'. advance env ci = Inr (Some ci') \<and> ctype ci' = DB_CURSOR \<and>
                  dbCursor ci' = cursorNextNoDup (dbCursor ci) \<and> nextRows env ci' = rest)))"
proof (cases "cursorNextNoDup (dbCursor ci)")
  case Nil
  with db show ?thesis by (simp add: nextRows_def advance_def)
next
  case (Cons r rs)
  obtain k v where r: "r = (k, v)" by (cases r)
  from Cons set_cursorNextNoDup [of "dbCursor ci"] have "r \<in> set (dbCursor ci)" by auto
  with wf r have len: "8 \<le> length v" by auto
  show ?thesis
  proof (cases "hasPrefix k (envPrefix env)")
    case False
    with db Cons r show ?thesis by (simp add: nextRows_def advance_def)
  next
    case True
    with Cons r have n: "nextRows env ci =
        r # takeWhile (\<lambda>r. hasPrefix (fst r) (envPrefix env)) (noDupRows (cursorNextNoDup (r # rs)))"
      by (simp add: nextRows_def)
    show ?thesis
    proof (cases "badRow env r")
      case True
      with db Cons r \<open>hasPrefix k (envPrefix env)\<close> n show ?thesis
        by (simp add: advance_def dbItem_checked [OF len ram])
    next
      case False
      with db Cons r \<open>hasPrefix k (envPrefix env)\<close> n show ?thesis
        by (simp add: advance_def dbItem_checked [OF len ram] nextRows_def)
    qed
  qed
qed

lemma advance_other:
  assumes "ctype ci \<noteq> DB_CURSOR"
  shows "\<exists>r. advance env ci = Inr r \<and> (\<forall>ci'. r = Some ci' \<longrightarrow> ctype ci' = ctype ci)"
  using assms by (cases "ctype ci") (auto simp: advance_def split: list.splits)

lemma heapBad_Cons:
  "heapBad env (ci # cp) \<longleftrightarrow>
     (ctype ci = DB_CURSOR \<and> (\<exists>r \<in> set (nextRows env ci). badRow env r)) \<or> heapBad env cp"
  by (auto simp: heapBad_def)

lemma heapBad_Push: "heapBad env (heap_Push cp ci) \<longleftrightarrow> heapBad env (ci # cp)"
  by (simp add: heapBad_def set_heap_Push)

lemma wfRows_Cons:
  "wfRows (ci # cp) \<longleftrightarrow>
     (ctype ci = DB_CURSOR \<longrightarrow> (\<forall>r \<in> set (dbCursor ci). 8 \<le> length (snd r))) \<and> wfRows cp"
  by (auto simp: wfRows_def)

lemma wfRows_Push: "wfRows (heap_Push cp ci) \<longleftrightarrow> wfRows (ci # cp)"
  by (simp add: wfRows_def set_heap_Push)

lemma advance_bad:
  assumes wf: "wfRows (ci # rest)" and ram: "envHaveRamUpdates env"
  shows "(\<forall>e. advance env ci = Inl e \<longrightarrow> e = setTxNumError \<and> heapBad env (ci # rest)) \<and>
         (advance env ci = Inr None \<longrightarrow> (heapBad env (ci # rest) \<longleftrightarrow> heapBad env rest)) \<and>
         (\<forall>ci'. advance env ci = Inr (Some ci') \<longrightarrow>
            wfRows (ci' # rest) \<and> (heapBad env (ci # rest) \<longleftrightarrow> heapBad env (ci' # rest)))"
proof (cases "ctype ci = DB_CURSOR")
  case False
  from advance_other [OF False, of env] obtain r where
    r: "advance env ci = Inr r" "\<forall>ci'. r = Some ci' \<longrightarrow> ctype ci' = ctype ci" by blast
  with False wf show ?thesis
    by (cases r) (auto simp: heapBad_Cons wfRows_Cons)
next
  case True
  from wf True have w: "\<forall>r \<in> set (dbCursor ci). 8 \<le> length (snd r)" by (simp add: wfRows_Cons)
  note a = advance_db [OF True ram w]
  show ?thesis
  proof (cases "nextRows env ci")
    case Nil
    with a have "advance env ci = Inr None" by simp
    with Nil show ?thesis by (simp add: heapBad_Cons)
  next
    case (Cons r rs)
    show ?thesis
    proof (cases "badRow env r")
      case bad: True
      with a Cons have "advance env ci = Inl setTxNumError" by simp
      with Cons bad True show ?thesis by (auto simp: heapBad_Cons)
    next
      case good: False
      with a Cons obtain ci' where c: "advance env ci = Inr (Some ci')" "ctype ci' = DB_CURSOR"
        "dbCursor ci' = cursorNextNoDup (dbCursor ci)" "nextRows env ci' = rs" by blast
      from c(3) w set_cursorNextNoDup [of "dbCursor ci"]
      have "\<forall>r \<in> set (dbCursor ci'). 8 \<le> length (snd r)" by auto
      with wf c(2) have w': "wfRows (ci' # rest)" by (simp add: wfRows_Cons)
      from Cons good c(2,4) True
      have "heapBad env (ci # rest) \<longleftrightarrow> heapBad env (ci' # rest)" by (simp add: heapBad_Cons)
      with c(1) w' show ?thesis by simp
    qed
  qed
qed

lemma advanceSame_bad:
  assumes ram: "envHaveRamUpdates env"
  shows "wfRows cp \<Longrightarrow>
     (\<forall>e. advanceSame env k cp = Inl e \<longrightarrow> e = setTxNumError \<and> heapBad env cp) \<and>
     (\<forall>cp'. advanceSame env k cp = Inr cp' \<longrightarrow> wfRows cp' \<and> (heapBad env cp' \<longleftrightarrow> heapBad env cp))"
  using ram
proof (induction env k cp rule: advanceSame.induct)
  case (1 env lastKey cp)
  note ram = "1.prems"(2)
  show ?case
  proof (cases cp)
    case Nil
    then show ?thesis by (simp add: advanceSame_Nil wfRows_def)
  next
    case (Cons ci1 rest)
    show ?thesis
    proof (cases "key ci1 = lastKey")
      case False
      with Cons "1.prems" show ?thesis by (simp add: advanceSame_Cons)
    next
      case True
      from "1.prems" Cons have wf: "wfRows (ci1 # rest)" by simp
      then have wfr: "wfRows rest" by (simp add: wfRows_Cons)
      note a = advance_bad [OF wf ram]
      show ?thesis
      proof (cases "advance env ci1")
        case (Inl e)
        with a have "e = setTxNumError \<and> heapBad env (ci1 # rest)" by blast
        with Inl Cons True show ?thesis by (simp add: advanceSame_Cons)
      next
        case (Inr x)
        show ?thesis
        proof (cases x)
          case None
          with a Inr have e: "heapBad env (ci1 # rest) \<longleftrightarrow> heapBad env rest" by blast
          from Inr None Cons True have u: "advanceSame env lastKey (ci1 # rest) = advanceSame env lastKey rest"
            by (simp add: advanceSame_Cons)
          from "1.IH"(1) [OF Cons True Inr None wfr ram] show ?thesis unfolding u Cons e .
        next
          case (Some ci')
          with a Inr
          have "wfRows (ci' # rest) \<and> (heapBad env (ci1 # rest) \<longleftrightarrow> heapBad env (ci' # rest))"
            by blast
          then have w': "wfRows (heap_Push rest ci')"
            and b: "heapBad env (ci1 # rest) \<longleftrightarrow> heapBad env (heap_Push rest ci')"
            by (simp_all add: wfRows_Push heapBad_Push)
          from Inr Some Cons True
          have u: "advanceSame env lastKey (ci1 # rest) = advanceSame env lastKey (heap_Push rest ci')"
            by (simp add: advanceSame_Cons)
          from "1.IH"(2) [OF Cons True Inr Some w' ram] show ?thesis unfolding u Cons b .
        qed
      qed
    qed
  qed
qed

lemma mergeLoop_bad:
  assumes ram: "envHaveRamUpdates env" and visitor: "\<forall>k v s. fst (it k v s) = None"
  shows "wfRows cp \<Longrightarrow>
     fst (mergeLoop env cp it s) = (if heapBad env cp then Some setTxNumError else None)"
  using ram visitor
proof (induction env cp it s rule: mergeLoop.induct)
  case (1 env cp it s)
  note ram = "1.prems"(2) and visitor = "1.prems"(3)
  show ?case
  proof (cases cp)
    case Nil
    then show ?thesis by (simp add: heapBad_def)
  next
    case (Cons ci0 rest)
    note b = advanceSame_bad [OF ram "1.prems"(1), of "key ci0"]
    show ?thesis
    proof (cases "advanceSame env (key ci0) cp")
      case (Inl e)
      with b have "e = setTxNumError \<and> heapBad env cp" by blast
      with Inl Cons show ?thesis by simp
    next
      case (Inr cp')
      with b have "wfRows cp' \<and> (heapBad env cp' \<longleftrightarrow> heapBad env cp)" by blast
      then have w': "wfRows cp'" and hb: "heapBad env cp' \<longleftrightarrow> heapBad env cp" by simp_all
      show ?thesis
      proof (cases "glen (val ci0) > 0")
        case False
        from "1.IH"(2) [OF Cons Inr False w' ram visitor] hb Cons Inr False show ?thesis by simp
      next
        case True
        obtain r s' where v: "it (key ci0) (val ci0) s = (r, s')" by (cases "it (key ci0) (val ci0) s")
        with visitor have r: "r = None" by (metis fst_conv)
        from "1.IH"(1) [OF Cons Inr True v [symmetric, unfolded r] _ w' ram visitor] hb Cons Inr True v r
        show ?thesis by simp
      qed
    qed
  qed
qed

lemma pushFiles_ok:
  assumes "\<forall>item \<in> set items. decompressor (src item) \<noteq> None \<and> bindex (src item)"
  shows "\<exists>cp'. pushFiles pfx items cp = Inr cp' \<and> set cp \<subseteq> set cp' \<and>
           (\<forall>ci \<in> set cp' - set cp. ctype ci = FILE_CURSOR)"
  using assms
proof (induction items arbitrary: cp)
  case Nil
  show ?case by simp
next
  case (Cons item items)
  from Cons.prems obtain kvs where d: "decompressor (src item) = Some kvs" and b: "bindex (src item)"
    by auto
  from Cons.prems have rest: "\<forall>item \<in> set items. decompressor (src item) \<noteq> None \<and> bindex (src item)"
    by simp
  have s: "btSeek (src item) pfx = Inr (dropWhile (\<lambda>r. fst r < pfx) kvs)"
    by (simp add: btSeek_def d b)
  show ?case
  proof (cases "dropWhile (\<lambda>r. fst r < pfx) kvs")
    case Nil
    with s Cons.IH [OF rest, of cp] show ?thesis by simp
  next
    case (Cons r rs)
    obtain k v where r: "r = (k, v)" by (cases r)
    show ?thesis
    proof (cases "hasPrefix k pfx")
      case False
      with s Cons r Cons.IH [OF rest, of cp] show ?thesis by simp
    next
      case True
      let ?ci = "fileItem item ((k, v) # rs) k v"
      from Cons.IH [OF rest, of "heap_Push cp ?ci"] obtain cp' where
        c: "pushFiles pfx items (heap_Push cp ?ci) = Inr cp'" "set (heap_Push cp ?ci) \<subseteq> set cp'"
           "\<forall>ci \<in> set cp' - set (heap_Push cp ?ci). ctype ci = FILE_CURSOR" by blast
      have f: "ctype ?ci = FILE_CURSOR" by (simp add: fileItem_def)
      from True s Cons r c(1) have "pushFiles pfx (item # items) cp = Inr cp'" by simp
      moreover from c(2) have "set cp \<subseteq> set cp'" by (auto simp: set_heap_Push)
      moreover from c(3) f have "\<forall>ci \<in> set cp' - set cp. ctype ci = FILE_CURSOR"
        by (auto simp: set_heap_Push)
      ultimately show ?thesis by blast
    qed
  qed
qed

lemma files_keep_bad:
  assumes "set cp \<subseteq> set cp'" "\<forall>ci \<in> set cp' - set cp. ctype ci = FILE_CURSOR"
  shows "(wfRows cp' \<longleftrightarrow> wfRows cp) \<and> (heapBad env cp' \<longleftrightarrow> heapBad env cp)"
proof -
  have "ci \<in> set cp" if "ci \<in> set cp'" "ctype ci = DB_CURSOR" for ci
  proof (rule ccontr)
    assume "ci \<notin> set cp"
    with that(1) assms(2) have "ctype ci = FILE_CURSOR" by blast
    with that(2) show False by simp
  qed
  with assms(1) show ?thesis unfolding wfRows_def heapBad_def by blast
qed

lemma pushRam_types: "\<forall>ci \<in> set (pushRam sd pfx). ctype ci = RAM_CURSOR"
  by (auto simp: pushRam_def ramItem_def split: list.splits)

lemma Uint64_minus3: "BigEndian_Uint64 [255, 255, 255, 255, 255, 255, 255, 253] = Inr (- 3)"
  by code_simp

lemma rowEndTxNum_step2: "rowEndTxNum 4 [255, 255, 255, 255, 255, 255, 255, 253] = 8"
  by (simp add: rowEndTxNum_def Uint64_minus3)

lemma boundarySD_fields:
  "storage boundarySD = []" "txNum boundarySD = 8" "roTx boundarySD = storageTx"
  "aggCtx boundarySD = demoAgg"
  by (simp_all add: boundarySD_def demoSD_def NewSharedDomains_def sdSetTxNum_def SetTxNum_def
        NewWriter_def newWriter_def demoAgg_def demoContext_def emptyDomain_def Let_def)

lemma boundaryRam_fields:
  "storage boundaryRam = [([0xA, 2], Some [5])]" "txNum boundaryRam = 8" "roTx boundaryRam = storageTx"
  "aggCtx boundaryRam = demoAgg"
proof -
  have g: "DomainGet demoLibs boundarySD StorageDomain [0xA, 2] None = Inr None"
    by (simp add: DomainGet_def Latest_def sdGet_def aggGetLatest_def GetLatest_def boundarySD_fields
          demoAgg_def demoContext_def emptyDomain_def storageTx_def cursorSeekExact_def
          getLatestFromFiles_def gbytes_def Let_def)
  have w: "discard (storageWriter boundarySD) = False" "setTxNumOnce (storageWriter boundarySD) = True"
    by (simp_all add: boundarySD_def demoSD_def NewSharedDomains_def sdSetTxNum_def SetTxNum_def
        NewWriter_def newWriter_def demoAgg_def demoContext_def emptyDomain_def Let_def)
  have p: "boundaryRam = snd (writeAccountStorage boundarySD [0xA, 2] None (Some [5]) None)"
    by (simp add: boundaryRam_def DomainPut_def g)
  show "storage boundaryRam = [([0xA, 2], Some [5])]" "txNum boundaryRam = 8"
    "roTx boundaryRam = storageTx" "aggCtx boundaryRam = demoAgg"
    by (simp_all add: p writeAccountStorage_def put_def PutWithPrev_def AddPrevValue_def addValue_def w
          boundarySD_fields gbytes_def Let_def)
qed

text \<open>
  Claim C4, as the code has it. Let the in-memory storage map be non-empty, every file of the
  storage context have its decompressor and index, every value of the keys table have at least
  8 bytes, and the visitor never fail. Then \<^verbatim>\<open>IterateStoragePrefix(prefix, visit)\<close> returns the
  error of \<^verbatim>\<open>SetTxNum\<close> if one of the rows it reads from the keys table has
  \<^verbatim>\<open>endTxNum >= sd.txNum\<close> (the step of the row times the step size), and no error otherwise:
  the check is passed only by \<open>ramTxNum > dbEndTxNum\<close>.
\<close>

theorem IterateStoragePrefix_error_iff:
  assumes ram: "storage sd \<noteq> []"
    and files: "\<forall>item \<in> set (dc_files (ctxStorage (aggCtx sd))).
                  decompressor (src item) \<noteq> None \<and> bindex (src item)"
    and rows: "\<forall>r \<in> set (tables (roTx sd) (keysTable (dc_d (ctxStorage (aggCtx sd))))). 8 \<le> length (snd r)"
    and visitor: "\<forall>k v s. fst (it k v s) = None"
  shows "fst (IterateStoragePrefix sd pfx it s) =
     (if \<exists>r \<in> set (seenRows pfx (tables (roTx sd) (keysTable (dc_d (ctxStorage (aggCtx sd)))))).
           txNum sd \<le> rowEndTxNum (aggStepSize (aggCtx sd)) (snd r)
      then Some setTxNumError else None)"
proof -
  let ?env = "storageEnv sd pfx"
  let ?rows = "tables (roTx sd) (keysTable (dc_d (ctxStorage (aggCtx sd))))"
  let ?P = "\<lambda>r. hasPrefix (fst r) pfx"
  let ?bad = "\<lambda>r. txNum sd \<le> rowEndTxNum (aggStepSize (aggCtx sd)) (snd r)"
  have env: "envHaveRamUpdates ?env" "envPrefix ?env = pfx"
    using ram by (simp_all add: storageEnv_def)
  have bad: "badRow ?env r \<longleftrightarrow> ?bad r" for r
    by (simp add: badRow_def storageEnv_def)
  have r0: "wfRows (pushRam sd pfx)" "\<not> heapBad ?env (pushRam sd pfx)"
    using pushRam_types [of sd pfx] by (auto simp: wfRows_def heapBad_def)
  show ?thesis
  proof (cases "cursorSeek ?rows pfx")
    case Nil
    then have p: "pushDb ?env ?rows (pushRam sd pfx) = Inr (pushRam sd pfx)"
      by (simp add: pushDb_def env)
    from pushFiles_ok [OF files, of pfx "pushRam sd pfx"] obtain cp2 where
      c: "pushFiles pfx (dc_files (ctxStorage (aggCtx sd))) (pushRam sd pfx) = Inr cp2"
         "set (pushRam sd pfx) \<subseteq> set cp2" "\<forall>ci \<in> set cp2 - set (pushRam sd pfx). ctype ci = FILE_CURSOR"
      by blast
    from files_keep_bad [OF c(2,3), of ?env] r0 have "wfRows cp2" "\<not> heapBad ?env cp2" by simp_all
    with mergeLoop_bad [OF env(1) visitor, of cp2 s] have "fst (mergeLoop ?env cp2 it s) = None" by simp
    with p c(1) Nil show ?thesis by (simp add: IterateStoragePrefix_def seenRows_def Let_def)
  next
    case (Cons r rs)
    obtain k v where r: "r = (k, v)" by (cases r)
    have "set (cursorSeek ?rows pfx) \<subseteq> set ?rows"
      unfolding cursorSeek_def by (auto dest: set_dropWhileD)
    then have "set (r # rs) \<subseteq> set ?rows" unfolding Cons .
    with rows have len: "\<forall>r \<in> set (r # rs). 8 \<le> length (snd r)" by blast
    with r have lv: "8 \<le> length v" by simp
    show ?thesis
    proof (cases "hasPrefix k pfx")
      case False
      with Cons r have p: "pushDb ?env ?rows (pushRam sd pfx) = Inr (pushRam sd pfx)"
        by (simp add: pushDb_def env)
      from False Cons r have sr: "seenRows pfx ?rows = []" by (simp add: seenRows_def)
      from pushFiles_ok [OF files, of pfx "pushRam sd pfx"] obtain cp2 where
        c: "pushFiles pfx (dc_files (ctxStorage (aggCtx sd))) (pushRam sd pfx) = Inr cp2"
           "set (pushRam sd pfx) \<subseteq> set cp2" "\<forall>ci \<in> set cp2 - set (pushRam sd pfx). ctype ci = FILE_CURSOR"
        by blast
      from files_keep_bad [OF c(2,3), of ?env] r0 have "wfRows cp2" "\<not> heapBad ?env cp2" by simp_all
      with mergeLoop_bad [OF env(1) visitor, of cp2 s] have "fst (mergeLoop ?env cp2 it s) = None" by simp
      with p c(1) sr show ?thesis by (simp add: IterateStoragePrefix_def Let_def)
    next
      case True
      with Cons r have sr: "seenRows pfx ?rows = r # takeWhile ?P (noDupRows (cursorNextNoDup (r # rs)))"
        by (simp add: seenRows_def)
      show ?thesis
      proof (cases "?bad r")
        case b: True
        with True Cons r have "pushDb ?env ?rows (pushRam sd pfx) = Inl setTxNumError"
          by (simp add: pushDb_def env dbItem_checked [OF lv env(1)] bad)
        with b sr show ?thesis by (simp add: IterateStoragePrefix_def Let_def)
      next
        case g: False
        define ci where "ci = newDbItem\<lparr>dbCursor := (k, v) # rs, key := k,
            itemEndTxNum := rowEndTxNum (envStepSize ?env) v,
            val := GetOne (envRoTx ?env) (envValsTable ?env) (k @ take 8 v)\<rparr>"
        have ct: "ctype ci = DB_CURSOR" "dbCursor ci = r # rs" by (simp_all add: ci_def newDbItem_def r)
        from g True Cons r have p: "pushDb ?env ?rows (pushRam sd pfx) = Inr (heap_Push (pushRam sd pfx) ci)"
          by (simp add: pushDb_def env dbItem_checked [OF lv env(1)] bad ci_def)
        let ?cp1 = "heap_Push (pushRam sd pfx) ci"
        from r0 ct len have w1: "wfRows ?cp1" by (simp add: wfRows_Push wfRows_Cons)
        have n: "nextRows ?env ci = takeWhile ?P (noDupRows (cursorNextNoDup (r # rs)))"
          by (simp add: nextRows_def ct env)
        from r0 ct have b1: "heapBad ?env ?cp1 \<longleftrightarrow> (\<exists>r \<in> set (nextRows ?env ci). ?bad r)"
          by (simp add: heapBad_Push heapBad_Cons bad)
        from pushFiles_ok [OF files, of pfx ?cp1] obtain cp2 where
          c: "pushFiles pfx (dc_files (ctxStorage (aggCtx sd))) ?cp1 = Inr cp2"
             "set ?cp1 \<subseteq> set cp2" "\<forall>ci \<in> set cp2 - set ?cp1. ctype ci = FILE_CURSOR"
          by blast
        from files_keep_bad [OF c(2,3), of ?env] w1 b1
        have "wfRows cp2" "heapBad ?env cp2 \<longleftrightarrow> (\<exists>r \<in> set (nextRows ?env ci). ?bad r)" by simp_all
        with mergeLoop_bad [OF env(1) visitor, of cp2 s]
        have "fst (mergeLoop ?env cp2 it s) =
            (if \<exists>r \<in> set (nextRows ?env ci). ?bad r then Some setTxNumError else None)" by simp
        with p c(1) sr g n show ?thesis by (simp add: IterateStoragePrefix_def Let_def)
      qed
    qed
  qed
qed

theorem IterateStoragePrefix_error_iff_witness:
  "storage boundaryRam \<noteq> [] \<and>
   list_all (\<lambda>item. decompressor (src item) \<noteq> None \<and> bindex (src item))
     (dc_files (ctxStorage (aggCtx boundaryRam))) \<and>
   list_all (\<lambda>r. 8 \<le> length (snd r))
     (tables (roTx boundaryRam) (keysTable (dc_d (ctxStorage (aggCtx boundaryRam))))) \<and>
   fst (IterateStoragePrefix boundaryRam [0xA] recordVisit []) = Some setTxNumError \<and>
   fst (IterateStoragePrefix boundaryRam [0xB] recordVisit []) = None"
proof -
  let ?rows = "tables (roTx boundaryRam) (keysTable (dc_d (ctxStorage (aggCtx boundaryRam))))"
  have ram: "storage boundaryRam \<noteq> []" by (simp add: boundaryRam_fields)
  have files: "\<forall>item \<in> set (dc_files (ctxStorage (aggCtx boundaryRam))).
      decompressor (src item) \<noteq> None \<and> bindex (src item)"
    by (simp add: boundaryRam_fields demoAgg_def demoContext_def)
  have rows: "\<forall>r \<in> set ?rows. 8 \<le> length (snd r)"
    by (simp add: boundaryRam_fields demoAgg_def demoContext_def emptyDomain_def storageTx_def)
  have visitor: "\<forall>k v s. fst (recordVisit k v s) = None" by (simp add: recordVisit_def)
  have sa: "seenRows [0xA] ?rows = [([0xA, 1], [255, 255, 255, 255, 255, 255, 255, 253])]"
    and sb: "seenRows [0xB] ?rows = []"
    by (simp_all add: boundaryRam_fields seenRows_def cursorSeek_def hasPrefix_def
          demoAgg_def demoContext_def emptyDomain_def storageTx_def cursorNextNoDup_def)
  have e: "txNum boundaryRam \<le> rowEndTxNum (aggStepSize (aggCtx boundaryRam))
      [255, 255, 255, 255, 255, 255, 255, 253]"
    by (simp add: boundaryRam_fields demoAgg_def rowEndTxNum_step2)
  note instA = IterateStoragePrefix_error_iff [OF ram files rows visitor, of "[0xA]" "[]"]
  note instB = IterateStoragePrefix_error_iff [OF ram files rows visitor, of "[0xB]" "[]"]
  from instA sa e have a: "fst (IterateStoragePrefix boundaryRam [0xA] recordVisit []) = Some setTxNumError"
    by simp
  from instB sb have b: "fst (IterateStoragePrefix boundaryRam [0xB] recordVisit []) = None"
    by simp
  from ram files rows a b show ?thesis by (simp add: list_all_iff)
qed

text \<open>
  The claim as stated fails at equality: with a key in memory at tx number 8 and a hot-tier row
  of step 2, whose \<^verbatim>\<open>endTxNum\<close> is 8, \<open>ramTxNum \<ge> dbEndTxNum\<close> holds and the iteration returns the
  error.
\<close>

theorem IterateStoragePrefix_errors_at_equal_txNum:
  "storage boundaryRam \<noteq> [] \<and>
   txNum boundaryRam = 8 \<and>
   seenRows [0xA] (tables (roTx boundaryRam) (keysTable (dc_d (ctxStorage (aggCtx boundaryRam)))))
     = [([0xA, 1], [255, 255, 255, 255, 255, 255, 255, 253])] \<and>
   rowEndTxNum (aggStepSize (aggCtx boundaryRam)) [255, 255, 255, 255, 255, 255, 255, 253] = 8 \<and>
   txNum boundaryRam \<ge> rowEndTxNum (aggStepSize (aggCtx boundaryRam)) [255, 255, 255, 255, 255, 255, 255, 253] \<and>
   IterateStoragePrefix boundaryRam [0xA] recordVisit [] = (Some setTxNumError, [])"
  by (simp add: boundaryRam_fields IterateStoragePrefix_def storageEnv_def pushRam_def pushDb_def
        btreeSeek_def cursorSeek_def seenRows_def hasPrefix_def dbItem_def Uint64_minus3 rowEndTxNum_step2
        demoAgg_def demoContext_def emptyDomain_def storageTx_def cursorNextNoDup_def Let_def)

subsection \<open>Prefix iteration over a domain\<close>

lemma Less_trans:
  "reverse a \<Longrightarrow> reverse b \<Longrightarrow> Less a b \<Longrightarrow> Less b c \<Longrightarrow> Less a c"
  by (auto simp: Less_def split: if_splits)

lemma Less_asym: "reverse a \<Longrightarrow> reverse b \<Longrightarrow> Less a b \<Longrightarrow> \<not> Less b a"
  by (auto simp: Less_def split: if_splits)

lemma heap_Push_sorted:
  assumes "reverse x" "\<forall>ci \<in> set cp. reverse ci" "sorted_wrt (\<lambda>a b. \<not> Less b a) cp"
  shows "sorted_wrt (\<lambda>a b. \<not> Less b a) (heap_Push cp x)"
  using assms
proof (induction cp)
  case Nil
  show ?case by simp
next
  case (Cons y ys)
  show ?case
  proof (cases "Less x y")
    case True
    have "\<not> Less z x" if "z \<in> set (y # ys)" for z
    proof
      assume l: "Less z x"
      from that Cons.prems(2) have rz: "reverse z" by blast
      from Less_trans [OF rz Cons.prems(1) l True] have zy: "Less z y" .
      show False
      proof (cases "z = y")
        case True
        with zy Less_asym [of y y] Cons.prems(2) show ?thesis by auto
      next
        case False
        with that have "z \<in> set ys" by simp
        with Cons.prems(3) have "\<not> Less z y" by simp
        with zy show ?thesis by simp
      qed
    qed
    with True Cons.prems(3) show ?thesis by simp
  next
    case False
    from Cons.prems have "sorted_wrt (\<lambda>a b. \<not> Less b a) (heap_Push ys x)"
      by (intro Cons.IH) simp_all
    with False Cons.prems(3) show ?thesis by (simp add: set_heap_Push)
  qed
qed

lemma underPrefix_Cons:
  "underPrefix pfx (r # rs) = (if hasPrefix (fst r) pfx then r # underPrefix pfx rs else [])"
  by (simp add: underPrefix_def)

lemma underPrefix_Nil: "underPrefix pfx [] = []"
  by (simp add: underPrefix_def)

lemma dbItem_cur:
  assumes "dbItem env ci pos k v = Inr ci'"
  shows "current ci' = dbEntry env (k, v) \<and> dbCursor ci' = pos \<and> ctype ci' = ctype ci \<and> reverse ci' = reverse ci"
  using assms
  by (auto simp: dbItem_def current_def dbEntry_def rowEndTxNum_def Let_def split: sum.splits if_splits)

lemma advance_fut:
  assumes ok: "itemOk env ci"
  shows "(advance env ci = Inr None \<longrightarrow> fut env ci = [current ci]) \<and>
         (\<forall>ci'. advance env ci = Inr (Some ci') \<longrightarrow>
            fut env ci = current ci # fut env ci' \<and> itemOk env ci')"
proof -
  from ok obtain rest where rv: "reverse ci" and f: "fut env ci = current ci # rest"
    and so: "sorted_wrt (<) (map fst (fut env ci))" by (auto simp: itemOk_def)
  let ?pfx = "envPrefix env"
  show ?thesis
  proof (cases "ctype ci")
    case FILE_CURSOR
    let ?f = "fileEntry (itemEndTxNum ci)"
    from f FILE_CURSOR obtain r0 rs where b: "btCursor ci = r0 # rs"
      by (cases "btCursor ci") (auto simp: fut_def underPrefix_Nil)
    with f FILE_CURSOR have p0: "hasPrefix (fst r0) ?pfx"
      by (auto simp: fut_def underPrefix_Cons split: if_splits)
    with f b FILE_CURSOR have c0: "?f r0 = current ci" and fr: "fut env ci = current ci # map ?f (underPrefix ?pfx rs)"
      by (auto simp: fut_def underPrefix_Cons)
    show ?thesis
    proof (cases rs)
      case Nil
      with b FILE_CURSOR fr show ?thesis by (simp add: advance_def underPrefix_Nil)
    next
      case (Cons r1 rs')
      obtain k v where r1: "r1 = (k, v)" by (cases r1)
      show ?thesis
      proof (cases "hasPrefix k ?pfx")
        case False
        with b Cons r1 FILE_CURSOR fr show ?thesis by (simp add: advance_def underPrefix_Cons)
      next
        case True
        let ?ci' = "ci\<lparr>btCursor := tl (btCursor ci), key := k, val := Some v\<rparr>"
        from True b Cons r1 FILE_CURSOR have a: "advance env ci = Inr (Some ?ci')"
          by (simp add: advance_def)
        have f': "fut env ?ci' = map ?f (underPrefix ?pfx rs)"
          using FILE_CURSOR b by (simp add: fut_def)
        from True Cons r1 have h: "map ?f (underPrefix ?pfx rs) = current ?ci' # map ?f (underPrefix ?pfx rs')"
          by (simp add: underPrefix_Cons fileEntry_def current_def)
        from so fr f' have "sorted_wrt (<) (map fst (fut env ?ci'))" by simp
        with rv f' h have "itemOk env ?ci'" by (simp add: itemOk_def)
        with a fr f' show ?thesis by simp
      qed
    qed
  next
    case RAM_CURSOR
    let ?f = "ramEntry (itemEndTxNum ci)"
    from f RAM_CURSOR obtain r0 rs where b: "iter ci = r0 # rs"
      by (cases "iter ci") (auto simp: fut_def underPrefix_Nil)
    with f RAM_CURSOR have p0: "hasPrefix (fst r0) ?pfx"
      by (auto simp: fut_def underPrefix_Cons split: if_splits)
    with f b RAM_CURSOR have c0: "?f r0 = current ci" and fr: "fut env ci = current ci # map ?f (underPrefix ?pfx rs)"
      by (auto simp: fut_def underPrefix_Cons)
    show ?thesis
    proof (cases rs)
      case Nil
      with b RAM_CURSOR fr show ?thesis by (simp add: advance_def underPrefix_Nil)
    next
      case (Cons r1 rs')
      obtain k v where r1: "r1 = (k, v)" by (cases r1)
      show ?thesis
      proof (cases "hasPrefix k ?pfx")
        case False
        with b Cons r1 RAM_CURSOR fr show ?thesis by (simp add: advance_def underPrefix_Cons)
      next
        case True
        let ?ci' = "ci\<lparr>iter := tl (iter ci), key := k, val := v\<rparr>"
        from True b Cons r1 RAM_CURSOR have a: "advance env ci = Inr (Some ?ci')"
          by (simp add: advance_def)
        have f': "fut env ?ci' = map ?f (underPrefix ?pfx rs)"
          using RAM_CURSOR b by (simp add: fut_def)
        from True Cons r1 have h: "map ?f (underPrefix ?pfx rs) = current ?ci' # map ?f (underPrefix ?pfx rs')"
          by (simp add: underPrefix_Cons ramEntry_def current_def)
        from so fr f' have "sorted_wrt (<) (map fst (fut env ?ci'))" by simp
        with rv f' h have "itemOk env ?ci'" by (simp add: itemOk_def)
        with a fr f' show ?thesis by simp
      qed
    qed
  next
    case DB_CURSOR
    let ?f = "dbEntry env"
    from f DB_CURSOR obtain r0 rs where b: "dbCursor ci = r0 # rs"
      by (cases "dbCursor ci") (auto simp: fut_def underPrefix_Nil)
    let ?pos = "cursorNextNoDup (dbCursor ci)"
    from b have nd: "noDupRows (dbCursor ci) = r0 # noDupRows ?pos" by simp
    with f DB_CURSOR have p0: "hasPrefix (fst r0) ?pfx"
      by (auto simp: fut_def underPrefix_Cons split: if_splits)
    with f nd DB_CURSOR have fr: "fut env ci = current ci # map ?f (underPrefix ?pfx (noDupRows ?pos))"
      by (auto simp: fut_def underPrefix_Cons)
    show ?thesis
    proof (cases ?pos)
      case Nil
      with DB_CURSOR fr show ?thesis by (simp add: advance_def underPrefix_Nil)
    next
      case (Cons r1 rs')
      obtain k v where r1: "r1 = (k, v)" by (cases r1)
      show ?thesis
      proof (cases "hasPrefix k ?pfx")
        case False
        with Cons r1 DB_CURSOR fr show ?thesis by (simp add: advance_def underPrefix_Cons)
      next
        case True
        show ?thesis
        proof (cases "dbItem env ci ?pos k v")
          case (Inl e)
          with True Cons r1 DB_CURSOR show ?thesis by (simp add: advance_def)
        next
          case (Inr ci')
          with True Cons r1 DB_CURSOR have a: "advance env ci = Inr (Some ci')"
            by (simp add: advance_def)
          from dbItem_cur [OF Inr] have c: "current ci' = dbEntry env (k, v)" "dbCursor ci' = ?pos"
            "ctype ci' = ctype ci" "reverse ci' = reverse ci" by simp_all
          from c DB_CURSOR have f': "fut env ci' = map ?f (underPrefix ?pfx (noDupRows ?pos))"
            by (simp add: fut_def)
          from True Cons r1 c(1) have h: "map ?f (underPrefix ?pfx (noDupRows ?pos)) =
              current ci' # map ?f (underPrefix ?pfx (noDupRows (cursorNextNoDup (r1 # rs'))))"
            by (simp add: underPrefix_Cons)
          from so fr f' have "sorted_wrt (<) (map fst (fut env ci'))" by simp
          with rv f' h c(4) have "itemOk env ci'" by (simp add: itemOk_def)
          with a fr f' show ?thesis by simp
        qed
      qed
    qed
  qed
qed

lemma itemOk_keys:
  assumes "itemOk env ci" "e \<in> set (fut env ci)"
  shows "e = current ci \<or> key ci < fst e"
proof -
  from assms(1) obtain rest where f: "fut env ci = current ci # rest"
    and so: "sorted_wrt (<) (map fst (fut env ci))" by (auto simp: itemOk_def)
  from so f have "\<forall>x \<in> set rest. fst (current ci) < fst x" by simp
  with assms(2) f show ?thesis by (auto simp: current_def)
qed

lemma itemOk_cur: "itemOk env ci \<Longrightarrow> current ci \<in> set (fut env ci)"
  by (auto simp: itemOk_def)

lemma pending_Cons: "pending env (ci # cp) = set (fut env ci) \<union> pending env cp"
  by (simp add: pending_def)

lemma pending_Push: "pending env (heap_Push cp ci) = set (fut env ci) \<union> pending env cp"
  by (simp add: pending_def set_heap_Push)

lemma heapOk_Cons:
  "heapOk env (ci # cp) \<Longrightarrow> itemOk env ci \<and> heapOk env cp \<and> (\<forall>b \<in> set cp. \<not> Less b ci)"
  by (simp add: heapOk_def)

lemma heapOk_Push:
  assumes "heapOk env cp" "itemOk env ci"
  shows "heapOk env (heap_Push cp ci)"
proof -
  from assms have "reverse ci" "\<forall>c \<in> set cp. reverse c" "sorted_wrt (\<lambda>a b. \<not> Less b a) cp"
    by (auto simp: heapOk_def itemOk_def)
  from heap_Push_sorted [OF this] assms show ?thesis by (simp add: heapOk_def set_heap_Push)
qed

lemma heapOk_head_least:
  assumes "heapOk env (ci # cp)" "b \<in> set (ci # cp)"
  shows "key ci \<le> key b"
proof (cases "b = ci")
  case True
  then show ?thesis by simp
next
  case False
  with assms have "\<not> Less b ci" by (auto simp: heapOk_def)
  then show ?thesis by (auto simp: Less_def split: if_splits)
qed

lemma heapOk_keys_ge:
  assumes "heapOk env cp" "ci \<in> set cp" "e \<in> set (fut env ci)"
  shows "key ci \<le> fst e"
proof -
  from assms(1,2) have ok: "itemOk env ci" by (simp add: heapOk_def)
  from itemOk_keys [OF ok assms(3)] show ?thesis by (auto simp: current_def)
qed

lemma advanceSame_pending:
  "heapOk env cp \<Longrightarrow> \<forall>ci \<in> set cp. k \<le> key ci \<Longrightarrow> advanceSame env k cp = Inr cp' \<Longrightarrow>
     heapOk env cp' \<and> (\<forall>ci \<in> set cp'. k < key ci) \<and>
     pending env cp' = {e \<in> pending env cp. k < fst e}"
proof (induction env k cp arbitrary: cp' rule: advanceSame.induct)
  case (1 env lastKey cp)
  show ?case
  proof (cases cp)
    case Nil
    with "1.prems" show ?thesis by (simp add: advanceSame_Nil pending_def)
  next
    case (Cons ci1 rest)
    from "1.prems"(1) Cons have ok1: "itemOk env ci1" and okr: "heapOk env rest"
      by (auto dest: heapOk_Cons)
    from "1.prems"(2) Cons have ger: "\<forall>ci \<in> set rest. lastKey \<le> key ci" by simp
    show ?thesis
    proof (cases "key ci1 = lastKey")
      case False
      with Cons "1.prems"(3) have eq: "cp' = cp" by (simp add: advanceSame_Cons)
      from False "1.prems"(2) Cons have lt1: "lastKey < key ci1" by auto
      have lt: "\<forall>ci \<in> set cp. lastKey < key ci"
      proof
        fix ci assume "ci \<in> set cp"
        with heapOk_head_least [of env ci1 rest ci] "1.prems"(1) Cons have "key ci1 \<le> key ci" by simp
        with lt1 show "lastKey < key ci" by simp
      qed
      have "k' > lastKey" if "e \<in> pending env cp" "k' = fst e" for e k'
      proof -
        from that(1) obtain ci where ci: "ci \<in> set cp" "e \<in> set (fut env ci)"
          by (auto simp: pending_def)
        from heapOk_keys_ge [OF "1.prems"(1) ci] lt ci(1) that(2) show ?thesis by auto
      qed
      then have "pending env cp = {e \<in> pending env cp. lastKey < fst e}" by auto
      with eq lt "1.prems"(1) show ?thesis by simp
    next
      case True
      note a = advance_fut [OF ok1]
      show ?thesis
      proof (cases "advance env ci1")
        case (Inl e)
        with Cons True "1.prems"(3) show ?thesis by (simp add: advanceSame_Cons)
      next
        case (Inr x)
        show ?thesis
        proof (cases x)
          case None
          with Cons True Inr "1.prems"(3) have r: "advanceSame env lastKey rest = Inr cp'"
            by (simp add: advanceSame_Cons)
          from a Inr None have f: "fut env ci1 = [current ci1]" by simp
          from "1.IH"(1) [OF Cons True Inr None okr ger r]
          have i: "heapOk env cp'" "\<forall>ci \<in> set cp'. lastKey < key ci"
            "pending env cp' = {e \<in> pending env rest. lastKey < fst e}" by simp_all
          from f True have "{e \<in> pending env cp. lastKey < fst e} = {e \<in> pending env rest. lastKey < fst e}"
            by (auto simp: Cons pending_Cons current_def)
          with i show ?thesis by simp
        next
          case (Some ci')
          with Cons True Inr "1.prems"(3) have r: "advanceSame env lastKey (heap_Push rest ci') = Inr cp'"
            by (simp add: advanceSame_Cons)
          from a Inr Some have f: "fut env ci1 = current ci1 # fut env ci'" and ok': "itemOk env ci'"
            by simp_all
          from ok' have c': "current ci' \<in> set (fut env ci')" by (rule itemOk_cur)
          from itemOk_keys [OF ok1, of "current ci'"] f c' have "current ci' = current ci1 \<or> key ci1 < key ci'"
            by (simp add: current_def)
          moreover from ok1 f have "sorted_wrt (<) (map fst (current ci1 # fut env ci'))"
            by (simp add: itemOk_def)
          with c' have "fst (current ci1) < fst (current ci')" by auto
          ultimately have lt': "lastKey < key ci'" using True by (auto simp: current_def)
          from heapOk_Push [OF okr ok'] have okp: "heapOk env (heap_Push rest ci')" .
          from ger lt' have gep: "\<forall>ci \<in> set (heap_Push rest ci'). lastKey \<le> key ci"
            by (auto simp: set_heap_Push)
          from "1.IH"(2) [OF Cons True Inr Some okp gep r]
          have i: "heapOk env cp'" "\<forall>ci \<in> set cp'. lastKey < key ci"
            "pending env cp' = {e \<in> pending env (heap_Push rest ci'). lastKey < fst e}" by simp_all
          from f True have "{e \<in> pending env cp. lastKey < fst e}
              = {e \<in> pending env (heap_Push rest ci'). lastKey < fst e}"
            by (auto simp: Cons pending_Cons pending_Push current_def)
          with i show ?thesis by simp
        qed
      qed
    qed
  qed
qed

lemma head_newest:
  assumes ok: "heapOk env (ci0 # rest)"
  shows "newest (pending env (ci0 # rest)) (key ci0) (val ci0)"
proof -
  let ?cp = "ci0 # rest"
  from ok have ok0: "itemOk env ci0" by (auto simp: heapOk_def)
  from itemOk_cur [OF ok0] have m: "(key ci0, val ci0, itemEndTxNum ci0) \<in> pending env ?cp"
    by (simp add: pending_Cons current_def)
  have "snd (snd x) \<le> itemEndTxNum ci0" if x: "x \<in> pending env ?cp" "fst x = key ci0" for x
  proof -
    from x(1) obtain ci where ci: "ci \<in> set ?cp" "x \<in> set (fut env ci)"
      by (auto simp: pending_def)
    from ok ci(1) have oki: "itemOk env ci" by (auto simp: heapOk_def)
    from heapOk_head_least [OF ok ci(1)] have le: "key ci0 \<le> key ci" .
    from itemOk_keys [OF oki ci(2)] x(2) le have xc: "x = current ci" by auto
    with x(2) have ke: "key ci = key ci0" by (simp add: current_def)
    show ?thesis
    proof (cases "ci = ci0")
      case True
      with xc show ?thesis by (simp add: current_def)
    next
      case False
      with ci(1) ok have "\<not> Less ci ci0" by (auto simp: heapOk_def)
      moreover from oki have "reverse ci" by (simp add: itemOk_def)
      ultimately have "itemEndTxNum ci \<le> itemEndTxNum ci0" using ke by (simp add: Less_def)
      with xc show ?thesis by (simp add: current_def)
    qed
  qed
  with m show ?thesis unfolding newest_def by blast
qed

lemma newest_later:
  assumes "newest {e \<in> es. k0 < fst e} k v"
  shows "newest es k v \<and> k0 < k"
  using assms unfolding newest_def by auto

lemma mergeLoop_visits:
  "it = recordVisit \<Longrightarrow> heapOk env cp \<Longrightarrow> mergeLoop env cp it s = (r, s') \<Longrightarrow>
     \<exists>new. s' = s @ new \<and> sorted_wrt (<) (map fst new) \<and>
        (\<forall>x \<in> set new. glen (snd x) > 0 \<and> newest (pending env cp) (fst x) (snd x))"
proof (induction env cp it s arbitrary: r s' rule: mergeLoop.induct)
  case (1 env cp it s)
  note it = "1.prems"(1)
  show ?case
  proof (cases cp)
    case Nil
    with "1.prems"(3) show ?thesis by simp
  next
    case (Cons ci0 rest)
    show ?thesis
    proof (cases "advanceSame env (key ci0) cp")
      case (Inl e)
      with Cons "1.prems"(3) have "s' = s" by simp
      then show ?thesis by simp
    next
      case (Inr cp')
      from "1.prems"(2) Cons have ge: "\<forall>ci \<in> set cp. key ci0 \<le> key ci"
        using heapOk_head_least [of env ci0 rest] by blast
      from advanceSame_pending [OF "1.prems"(2) ge Inr]
      have ok': "heapOk env cp'" and p': "pending env cp' = {e \<in> pending env cp. key ci0 < fst e}"
        by simp_all
      from head_newest [of env ci0 rest] "1.prems"(2) Cons
      have hn: "newest (pending env cp) (key ci0) (val ci0)" by simp
      show ?thesis
      proof (cases "glen (val ci0) > 0")
        case False
        with Cons Inr "1.prems"(3) have m: "mergeLoop env cp' it s = (r, s')" by simp
        from "1.IH"(2) [OF Cons Inr False it ok' m] obtain new where
          n: "s' = s @ new" "sorted_wrt (<) (map fst new)"
             "\<forall>x \<in> set new. glen (snd x) > 0 \<and> newest (pending env cp') (fst x) (snd x)" by blast
        have "\<forall>x \<in> set new. glen (snd x) > 0 \<and> newest (pending env cp) (fst x) (snd x)"
        proof
          fix x assume "x \<in> set new"
          with n(3) have g: "glen (snd x) > 0" and w: "newest (pending env cp') (fst x) (snd x)" by auto
          from newest_later [OF w [unfolded p']] g
          show "glen (snd x) > 0 \<and> newest (pending env cp) (fst x) (snd x)" by simp
        qed
        with n(1,2) show ?thesis by blast
      next
        case True
        let ?s1 = "s @ [(key ci0, val ci0)]"
        from it have v: "it (key ci0) (val ci0) s = (None, ?s1)" by (simp add: recordVisit_def)
        with Cons Inr True "1.prems"(3) have m: "mergeLoop env cp' it ?s1 = (r, s')" by simp
        from "1.IH"(1) [OF Cons Inr True v [symmetric] _ it ok' m] obtain new where
          n: "s' = ?s1 @ new" "sorted_wrt (<) (map fst new)"
             "\<forall>x \<in> set new. glen (snd x) > 0 \<and> newest (pending env cp') (fst x) (snd x)" by auto
        have later: "\<forall>x \<in> set new. glen (snd x) > 0 \<and>
            newest (pending env cp) (fst x) (snd x) \<and> key ci0 < fst x"
        proof
          fix x assume "x \<in> set new"
          with n(3) have g: "glen (snd x) > 0" and w: "newest (pending env cp') (fst x) (snd x)" by auto
          from newest_later [OF w [unfolded p']] g
          show "glen (snd x) > 0 \<and> newest (pending env cp) (fst x) (snd x) \<and> key ci0 < fst x" by simp
        qed
        let ?new = "(key ci0, val ci0) # new"
        from n(1) have "s' = s @ ?new" by simp
        moreover from n(2) later have "sorted_wrt (<) (map fst ?new)" by auto
        moreover from later True hn
        have "\<forall>x \<in> set ?new. glen (snd x) > 0 \<and> newest (pending env cp) (fst x) (snd x)" by auto
        ultimately show ?thesis by blast
      qed
    qed
  qed
qed

lemma hasPrefix_ge: "hasPrefix k p \<Longrightarrow> p \<le> k"
proof (induction p arbitrary: k)
  case Nil
  show ?case by simp
next
  case (Cons a p)
  then obtain k' where k: "k = a # k'" and h: "hasPrefix k' p"
    by (cases k) (auto simp: hasPrefix_def)
  from Cons.IH [OF h] k show ?case by simp
qed

lemma hasPrefix_between:
  "p \<le> k1 \<Longrightarrow> k1 \<le> k2 \<Longrightarrow> hasPrefix k2 p \<Longrightarrow> hasPrefix k1 p"
proof (induction p arbitrary: k1 k2)
  case Nil
  show ?case by (simp add: hasPrefix_def)
next
  case (Cons a p)
  from Cons.prems(3) obtain k2' where k2: "k2 = a # k2'" and h: "hasPrefix k2' p"
    by (cases k2) (auto simp: hasPrefix_def)
  from Cons.prems(1) obtain b k1' where k1: "k1 = b # k1'" by (cases k1) auto
  from Cons.prems(1) k1 have 1: "a < b \<or> (a = b \<and> p \<le> k1')" by simp
  from Cons.prems(2) k1 k2 have 2: "b < a \<or> (b = a \<and> k1' \<le> k2')" by simp
  from 1 2 have ab: "a = b" and le1: "p \<le> k1'" and le2: "k1' \<le> k2'" by auto
  from Cons.IH [OF le1 le2 h] ab k1 show ?case by (simp add: hasPrefix_def)
qed

lemma seek_prefix_filter:
  assumes "sorted (map fst xs)"
  shows "takeWhile (\<lambda>r. hasPrefix (fst r) p) (dropWhile (\<lambda>r. fst r < p) xs)
           = filter (\<lambda>r. hasPrefix (fst r) p) xs"
  using assms
proof (induction xs)
  case Nil
  show ?case by simp
next
  case (Cons x xs)
  from Cons.prems have so: "sorted (map fst xs)" and ge: "\<forall>y \<in> set xs. fst x \<le> fst y" by auto
  show ?case
  proof (cases "fst x < p")
    case True
    then have "\<not> hasPrefix (fst x) p" using hasPrefix_ge [of "fst x" p] by auto
    with True Cons.IH [OF so] show ?thesis by simp
  next
    case False
    then have px: "p \<le> fst x" by simp
    show ?thesis
    proof (cases "hasPrefix (fst x) p")
      case True
      have "dropWhile (\<lambda>r. fst r < p) xs = xs"
      proof (cases xs)
        case Nil then show ?thesis by simp
      next
        case (Cons y ys)
        with ge px have "\<not> fst y < p" by auto
        with Cons show ?thesis by simp
      qed
      with Cons.IH [OF so] True False show ?thesis by simp
    next
      case np: False
      have "\<not> hasPrefix (fst y) p" if "y \<in> set xs" for y
      proof
        assume "hasPrefix (fst y) p"
        with hasPrefix_between [OF px _ this] ge that np show False by blast
      qed
      then have "filter (\<lambda>r. hasPrefix (fst r) p) xs = []" by (simp add: filter_empty_conv)
      with np False show ?thesis by simp
    qed
  qed
qed

lemma set_noDupRows: "set (noDupRows xs) \<subseteq> set xs"
proof (induction xs rule: noDupRows.induct)
  case 1
  show ?case by simp
next
  case (2 r rs)
  with set_cursorNextNoDup [of "r # rs"] show ?case by auto
qed

lemma dropWhile_eq_gt:
  assumes "sorted (map fst rs)" "\<forall>x \<in> set rs. k \<le> fst x"
  shows "\<forall>x \<in> set (dropWhile (\<lambda>r'. fst r' = k) rs). k < fst x"
  using assms
proof (induction rs)
  case Nil
  show ?case by simp
next
  case (Cons r rs)
  show ?case
  proof (cases "fst r = k")
    case True
    with Cons show ?thesis by simp
  next
    case False
    with Cons.prems(2) have "k < fst r" by auto
    with Cons.prems(1) have "\<forall>x \<in> set (r # rs). k < fst x" by auto
    with False show ?thesis by simp
  qed
qed

lemma sorted_dropWhile_fst: "sorted (map fst rs) \<Longrightarrow> sorted (map fst (dropWhile P rs))"
  by (induction rs) auto

lemma sorted_noDupRows:
  "sorted (map fst xs) \<Longrightarrow> sorted_wrt (<) (map fst (noDupRows xs))"
proof (induction xs rule: noDupRows.induct)
  case 1
  show ?case by simp
next
  case (2 r rs)
  from "2.prems" have so: "sorted (map fst rs)" and ge: "\<forall>x \<in> set rs. fst r \<le> fst x" by auto
  let ?nx = "cursorNextNoDup (r # rs)"
  have nx: "?nx = dropWhile (\<lambda>r'. fst r' = fst r) rs" by (simp add: cursorNextNoDup_def)
  from sorted_dropWhile_fst [OF so] have "sorted (map fst ?nx)" by (simp add: nx)
  from "2.IH" [OF this] have i: "sorted_wrt (<) (map fst (noDupRows ?nx))" .
  from dropWhile_eq_gt [OF so ge] have "\<forall>x \<in> set ?nx. fst r < fst x" by (simp add: nx)
  with set_noDupRows [of ?nx] have "\<forall>x \<in> set (noDupRows ?nx). fst r < fst x" by blast
  with i show ?case by simp
qed

lemma noDupRows_dropWhile:
  "noDupRows (dropWhile (\<lambda>r. fst r < p) xs) = dropWhile (\<lambda>r. fst r < p) (noDupRows xs)"
proof (induction xs rule: noDupRows.induct)
  case 1
  show ?case by simp
next
  case (2 r rs)
  let ?nx = "cursorNextNoDup (r # rs)"
  have nx: "?nx = dropWhile (\<lambda>r'. fst r' = fst r) rs" by (simp add: cursorNextNoDup_def)
  show ?case
  proof (cases "fst r < p")
    case False
    then show ?thesis by simp
  next
    case True
    have "dropWhile (\<lambda>r. fst r < p) ?nx = dropWhile (\<lambda>r. fst r < p) rs"
      unfolding nx using True by (induction rs) auto
    with "2.IH" True show ?thesis by simp
  qed
qed

lemma seek_noDup_filter:
  assumes "sorted (map fst rows)"
  shows "underPrefix p (noDupRows (cursorSeek rows p))
           = filter (\<lambda>r. hasPrefix (fst r) p) (noDupRows rows)"
proof -
  from sorted_noDupRows [OF assms] have "sorted (map fst (noDupRows rows))"
    by (simp add: strict_sorted_imp_sorted)
  from seek_prefix_filter [OF this, of p] show ?thesis
    by (simp add: underPrefix_def cursorSeek_def noDupRows_dropWhile)
qed

lemma fst_dbEntry: "fst (dbEntry env r) = fst r"
  by (simp add: dbEntry_def)

lemma fst_fileEntry: "fst (fileEntry e r) = fst r"
  by (simp add: fileEntry_def)

lemma pushDb_pending:
  assumes so: "sorted (map fst rows)" and ok: "heapOk env cp" and p: "pushDb env rows cp = Inr cp1"
  shows "heapOk env cp1 \<and> pending env cp1 = pending env cp \<union> set (dbEntries env rows)"
proof -
  let ?pfx = "envPrefix env"
  note sf = seek_noDup_filter [OF so, of ?pfx]
  show ?thesis
  proof (cases "cursorSeek rows ?pfx")
    case Nil
    with sf have "dbEntries env rows = []" by (simp add: dbEntries_def underPrefix_def)
    with Nil p ok show ?thesis by (simp add: pushDb_def)
  next
    case (Cons r rs)
    obtain k v where r: "r = (k, v)" by (cases r)
    show ?thesis
    proof (cases "hasPrefix k ?pfx")
      case False
      with Cons r sf have "dbEntries env rows = []" by (simp add: dbEntries_def underPrefix_def)
      with False Cons r p ok show ?thesis by (simp add: pushDb_def)
    next
      case True
      with Cons r p obtain ci where d: "dbItem env newDbItem ((k, v) # rs) k v = Inr ci"
        and c1: "cp1 = heap_Push cp ci"
        by (auto simp: pushDb_def split: sum.splits)
      from dbItem_cur [OF d] have c: "current ci = dbEntry env (k, v)" "dbCursor ci = (k, v) # rs"
        "ctype ci = DB_CURSOR" "reverse ci" by (simp_all add: newDbItem_def)
      from c(2,3) Cons r sf have f: "fut env ci = dbEntries env rows"
        by (simp add: fut_def dbEntries_def)
      from c(2,3) True c(1) have h: "\<exists>rest. fut env ci = current ci # rest"
        by (simp add: fut_def underPrefix_def)
      have "map fst (dbEntries env rows) = map fst (filter (\<lambda>r. hasPrefix (fst r) ?pfx) (noDupRows rows))"
        by (simp add: dbEntries_def comp_def fst_dbEntry)
      moreover from sorted_noDupRows [OF so]
      have "sorted_wrt (<) (map fst (filter (\<lambda>r. hasPrefix (fst r) ?pfx) (noDupRows rows)))"
        by (simp add: sorted_wrt_map sorted_wrt_filter)
      ultimately have "sorted_wrt (<) (map fst (fut env ci))" by (simp add: f)
      with c(4) h have "itemOk env ci" by (simp add: itemOk_def)
      from heapOk_Push [OF ok this] f c1 show ?thesis by (simp add: pending_Push Un_commute)
    qed
  qed
qed

lemma pushFiles_pending:
  assumes "\<forall>item \<in> set items. sorted_wrt (<) (map fst (fileWords item))"
    and "heapOk env cp" and "pushFiles (envPrefix env) items cp = Inr cp'"
  shows "heapOk env cp' \<and>
         pending env cp' = pending env cp \<union> set (concat (map (fileEntries (envPrefix env)) items))"
  using assms
proof (induction items arbitrary: cp)
  case Nil
  then show ?case by simp
next
  case (Cons item items)
  let ?pfx = "envPrefix env"
  from Cons.prems(1) have rest: "\<forall>item \<in> set items. sorted_wrt (<) (map fst (fileWords item))"
    and so: "sorted_wrt (<) (map fst (fileWords item))" by simp_all
  from Cons.prems(3) obtain kvs where d: "decompressor (src item) = Some kvs" and b: "bindex (src item)"
    by (auto simp: btSeek_def split: option.splits if_splits sum.splits)
  then have fw: "fileWords item = kvs" and s: "btSeek (src item) ?pfx = Inr (dropWhile (\<lambda>r. fst r < ?pfx) kvs)"
    by (simp_all add: fileWords_def btSeek_def)
  from so fw have "sorted (map fst kvs)" by (simp add: strict_sorted_imp_sorted)
  note sf = seek_prefix_filter [OF this, of ?pfx]
  from so fw have ss: "sorted_wrt (<) (map fst (fileEntries ?pfx item))"
    by (simp add: fileEntries_def comp_def fst_fileEntry sorted_wrt_map sorted_wrt_filter)
  show ?case
  proof (cases "dropWhile (\<lambda>r. fst r < ?pfx) kvs")
    case Nil
    with sf fw have e: "fileEntries ?pfx item = []" by (simp add: fileEntries_def)
    from Cons.prems(3) have "pushFiles ?pfx items cp = Inr cp'" by (simp add: s Nil)
    from Cons.IH [OF rest Cons.prems(2) this] e show ?thesis by simp
  next
    case (Cons r rs)
    obtain k v where r: "r = (k, v)" by (cases r)
    show ?thesis
    proof (cases "hasPrefix k ?pfx")
      case False
      with Cons r sf fw have e: "fileEntries ?pfx item = []" by (simp add: fileEntries_def)
      from Cons.prems(3) False have "pushFiles ?pfx items cp = Inr cp'" by (simp add: s Cons r)
      from Cons.IH [OF rest Cons.prems(2) this] e show ?thesis by simp
    next
      case True
      let ?ci = "fileItem item ((k, v) # rs) k v"
      from Cons.prems(3) True have pf: "pushFiles ?pfx items (heap_Push cp ?ci) = Inr cp'"
        by (simp add: s Cons r)
      from Cons r sf fw have f: "fut env ?ci = fileEntries ?pfx item"
        by (simp add: fut_def fileItem_def fileEntries_def underPrefix_def)
      from True have h: "\<exists>rest. fut env ?ci = current ?ci # rest"
        by (simp add: fut_def fileItem_def underPrefix_def current_def fileEntry_def)
      from ss f h have "itemOk env ?ci" by (simp add: itemOk_def fileItem_def)
      from heapOk_Push [OF Cons.prems(2) this] have ok': "heapOk env (heap_Push cp ?ci)" .
      from Cons.IH [OF rest ok' pf] f show ?thesis by (auto simp: pending_Push)
    qed
  qed
qed

lemma sorted_wrt_less_distinct: "sorted_wrt (<) (xs :: bytes list) \<Longrightarrow> distinct xs"
  by (induction xs) auto

lemma merge_run:
  "IteratePrefix mergeContext mergeTx [0xA] recordVisit []
     = (None, [([0xA, 1], Some [7]), ([0xA, 3], Some [8])])"
  by (simp add: IteratePrefix_def mergeContext_def mergeTx_def emptyDomain_def pushDb_def cursorSeek_def
        hasPrefix_def dbItem_def Uint64_minus3 newDbItem_def btSeek_def fileItem_def Less_def
        advanceSame_Cons advanceSame_Nil advance_def cursorNextNoDup_def GetOne_def recordVisit_def
        glen_def Let_def)

lemma merge_entries:
  "prefixEntries mergeContext mergeTx [0xA]
     = [([0xA, 1], Some [7], 8), ([0xA, 3], Some [8], 8), ([0xA, 1], Some [1], 7), ([0xA, 2], Some [], 7)]"
  by (simp add: prefixEntries_def dbEntries_def fileEntries_def fileWords_def prefixEnv_def
        mergeContext_def mergeTx_def emptyDomain_def cursorNextNoDup_def hasPrefix_def dbEntry_def
        fileEntry_def GetOne_def rowEndTxNum_step2)

text \<open>
  Claim C5. Let the keys table be in ascending key order and the words of every file of the
  context in strictly ascending key order, as the store and the files keep them. Then the
  calls of the visitor by \<^verbatim>\<open>IteratePrefix(prefix, visit)\<close>, here recorded in their order, are in
  strictly ascending key order, so that no key is visited twice; every visited key is under
  the prefix, its value is not empty, and it is the value of a source (the hot-tier row of
  the key or a file holding the key) whose \<^verbatim>\<open>endTxNum\<close> no source of the key exceeds. This
  holds of the calls made up to an error, if the iteration returns one.
\<close>

theorem IteratePrefix_newest:
  assumes db: "sorted (map fst (tables tx (keysTable (dc_d dc))))"
    and files: "\<forall>item \<in> set (dc_files dc). sorted_wrt (<) (map fst (fileWords item))"
    and run: "IteratePrefix dc tx pfx recordVisit [] = (r, visits)"
  shows "sorted_wrt (<) (map fst visits) \<and> distinct (map fst visits) \<and>
         (\<forall>x \<in> set visits.
            glen (snd x) > 0 \<and> hasPrefix (fst x) pfx \<and>
            newest (set (prefixEntries dc tx pfx)) (fst x) (snd x))"
proof -
  let ?env = "prefixEnv dc tx pfx"
  let ?rows = "tables tx (keysTable (dc_d dc))"
  have ep: "envPrefix ?env = pfx" by (simp add: prefixEnv_def)
  have e0: "heapOk ?env []" "pending ?env [] = {}" by (simp_all add: heapOk_def pending_def)
  have it: "IteratePrefix dc tx pfx recordVisit [] =
      (case pushDb ?env ?rows [] of
         Inl e \<Rightarrow> (Some e, [])
       | Inr cp1 \<Rightarrow>
           (case pushFiles pfx (dc_files dc) cp1 of
              Inl e \<Rightarrow> (Some e, [])
            | Inr cp2 \<Rightarrow> mergeLoop ?env cp2 recordVisit []))"
    unfolding IteratePrefix_def prefixEnv_def Let_def by (rule refl)
  show ?thesis
  proof (cases "pushDb ?env ?rows []")
    case (Inl e)
    with run it have "visits = []" by simp
    then show ?thesis by simp
  next
    case (Inr cp1)
    from pushDb_pending [OF db e0(1) Inr] e0(2)
    have ok1: "heapOk ?env cp1" and p1: "pending ?env cp1 = set (dbEntries ?env ?rows)" by simp_all
    show ?thesis
    proof (cases "pushFiles pfx (dc_files dc) cp1")
      case (Inl e)
      with Inr run it have "visits = []" by simp
      then show ?thesis by simp
    next
      case cp2: (Inr cp2)
      from pushFiles_pending [OF files ok1, of cp2] cp2 ep p1
      have ok2: "heapOk ?env cp2" and p2: "pending ?env cp2 = set (prefixEntries dc tx pfx)"
        by (simp_all add: prefixEntries_def)
      from Inr cp2 run it have m: "mergeLoop ?env cp2 recordVisit [] = (r, visits)" by simp
      from mergeLoop_visits [OF refl ok2 m] obtain new where
        n: "visits = [] @ new" "sorted_wrt (<) (map fst new)"
           "\<forall>x \<in> set new. glen (snd x) > 0 \<and> newest (pending ?env cp2) (fst x) (snd x)" by blast
      have pre: "hasPrefix (fst x) pfx" if "newest (set (prefixEntries dc tx pfx)) (fst x) (snd x)" for x
      proof -
        from that obtain e where "(fst x, snd x, e) \<in> set (prefixEntries dc tx pfx)"
          by (auto simp: newest_def)
        then show ?thesis
          by (auto simp: prefixEntries_def dbEntries_def fileEntries_def dbEntry_def fileEntry_def ep)
      qed
      from n p2 pre sorted_wrt_less_distinct [OF n(2)] show ?thesis by auto
    qed
  qed
qed

theorem IteratePrefix_newest_witness:
  "sorted (map fst (tables mergeTx (keysTable (dc_d mergeContext)))) \<and>
   list_all (\<lambda>item. sorted_wrt (<) (map fst (fileWords item))) (dc_files mergeContext) \<and>
   IteratePrefix mergeContext mergeTx [0xA] recordVisit []
     = (None, [([0xA, 1], Some [7]), ([0xA, 3], Some [8])]) \<and>
   prefixEntries mergeContext mergeTx [0xA]
     = [([0xA, 1], Some [7], 8), ([0xA, 3], Some [8], 8), ([0xA, 1], Some [1], 7), ([0xA, 2], Some [], 7)] \<and>
   sorted_wrt (<) (map fst [([0xA, 1 :: 8 word], Some [7 :: 8 word]), ([0xA, 3], Some [8])]) \<and>
   newest (set (prefixEntries mergeContext mergeTx [0xA])) [0xA, 1] (Some [7]) \<and>
   newest (set (prefixEntries mergeContext mergeTx [0xA])) [0xA, 3] (Some [8])"
proof -
  have db: "sorted (map fst (tables mergeTx (keysTable (dc_d mergeContext))))"
    by (simp add: mergeContext_def mergeTx_def emptyDomain_def)
  have files: "\<forall>item \<in> set (dc_files mergeContext). sorted_wrt (<) (map fst (fileWords item))"
    by (simp add: mergeContext_def fileWords_def)
  note inst = IteratePrefix_newest [OF db files merge_run]
  from inst have a: "sorted_wrt (<) (map fst [([0xA, 1 :: 8 word], Some [7 :: 8 word]), ([0xA, 3], Some [8])])"
    by blast
  from inst have b: "newest (set (prefixEntries mergeContext mergeTx [0xA])) [0xA, 1] (Some [7])"
    "newest (set (prefixEntries mergeContext mergeTx [0xA])) [0xA, 3] (Some [8])"
    by simp_all
  from db files merge_run merge_entries a b show ?thesis by (simp add: list_all_iff)
qed

subsection \<open>Deleting the storage of a prefix\<close>

lemma unambiguous_subset: "unambiguous es \<Longrightarrow> es' \<subseteq> es \<Longrightarrow> unambiguous es'"
  unfolding unambiguous_def by blast

lemma newest_unique:
  assumes "unambiguous es" "newest es k v" "newest es k v'"
  shows "v = v'"
proof -
  from assms(2) obtain e where e: "(k, v, e) \<in> es" "\<forall>x \<in> es. fst x = k \<longrightarrow> snd (snd x) \<le> e"
    by (auto simp: newest_def)
  from assms(3) obtain e' where e': "(k, v', e') \<in> es" "\<forall>x \<in> es. fst x = k \<longrightarrow> snd (snd x) \<le> e'"
    by (auto simp: newest_def)
  from e(1) e'(2) have "e \<le> e'" by force
  moreover from e'(1) e(2) have "e' \<le> e" by force
  ultimately have "e = e'" by simp
  with assms(1) e(1) e'(1) have "(k, v, e) = (k, v', e')"
    unfolding unambiguous_def by (metis fst_conv snd_conv)
  then show ?thesis by simp
qed

lemma pending_keys_ge:
  assumes "heapOk env (ci0 # rest)" "x \<in> pending env (ci0 # rest)"
  shows "key ci0 \<le> fst x"
proof -
  from assms(2) obtain ci where ci: "ci \<in> set (ci0 # rest)" "x \<in> set (fut env ci)"
    by (auto simp: pending_def)
  from heapOk_head_least [OF assms(1) ci(1)] heapOk_keys_ge [OF assms(1) ci] show ?thesis by simp
qed

lemma newest_restrict:
  assumes "newest es k v" "k0 < k"
  shows "newest {e \<in> es. k0 < fst e} k v"
proof -
  from assms(1) obtain e where e: "(k, v, e) \<in> es" "\<forall>x \<in> es. fst x = k \<longrightarrow> snd (snd x) \<le> e"
    by (auto simp: newest_def)
  from e(1) assms(2) have "(k, v, e) \<in> {e \<in> es. k0 < fst e}" by simp
  moreover from e(2) have "\<forall>x \<in> {e \<in> es. k0 < fst e}. fst x = k \<longrightarrow> snd (snd x) \<le> e" by blast
  ultimately show ?thesis unfolding newest_def by blast
qed

lemma mergeLoop_complete:
  "it = recordVisit \<Longrightarrow> heapOk env cp \<Longrightarrow> unambiguous (pending env cp) \<Longrightarrow>
   mergeLoop env cp it s = (None, s') \<Longrightarrow> newest (pending env cp) k v \<Longrightarrow> glen v > 0 \<Longrightarrow>
     (k, v) \<in> set s'"
proof (induction env cp it s arbitrary: s' rule: mergeLoop.induct)
  case (1 env cp it s)
  note it = "1.prems"(1) and ok = "1.prems"(2) and un = "1.prems"(3) and run = "1.prems"(4)
    and nw = "1.prems"(5) and g = "1.prems"(6)
  show ?case
  proof (cases cp)
    case Nil
    with nw show ?thesis by (simp add: newest_def pending_def)
  next
    case (Cons ci0 rest)
    show ?thesis
    proof (cases "advanceSame env (key ci0) cp")
      case (Inl e)
      with Cons run show ?thesis by simp
    next
      case (Inr cp')
      from ok Cons have ge: "\<forall>ci \<in> set cp. key ci0 \<le> key ci"
        using heapOk_head_least [of env ci0 rest] by blast
      from advanceSame_pending [OF ok ge Inr]
      have ok': "heapOk env cp'" and p': "pending env cp' = {e \<in> pending env cp. key ci0 < fst e}"
        by simp_all
      from p' have sub: "pending env cp' \<subseteq> pending env cp" by auto
      note un' = unambiguous_subset [OF un sub]
      from head_newest [of env ci0 rest] ok Cons
      have hn: "newest (pending env cp) (key ci0) (val ci0)" by simp
      from nw obtain e where "(k, v, e) \<in> pending env cp" by (auto simp: newest_def)
      with pending_keys_ge [of env ci0 rest "(k, v, e)"] ok Cons have kge: "key ci0 \<le> k" by simp
      show ?thesis
      proof (cases "k = key ci0")
        case True
        with newest_unique [OF un nw] hn have v: "v = val ci0" by simp
        with g have pos: "glen (val ci0) > 0" by simp
        let ?s1 = "s @ [(key ci0, val ci0)]"
        from it have vi: "it (key ci0) (val ci0) s = (None, ?s1)" by (simp add: recordVisit_def)
        with Cons Inr pos run have m: "mergeLoop env cp' it ?s1 = (None, s')" by simp
        from mergeLoop_visits [OF it ok' m] obtain new where "s' = ?s1 @ new" by blast
        with True v show ?thesis by simp
      next
        case False
        with kge have lt: "key ci0 < k" by simp
        from newest_restrict [OF nw lt] p' have nw': "newest (pending env cp') k v" by simp
        show ?thesis
        proof (cases "glen (val ci0) > 0")
          case False
          with Cons Inr run have m: "mergeLoop env cp' it s = (None, s')" by simp
          from "1.IH"(2) [OF Cons Inr False it ok' un' m nw' g] show ?thesis .
        next
          case True
          let ?s1 = "s @ [(key ci0, val ci0)]"
          from it have vi: "it (key ci0) (val ci0) s = (None, ?s1)" by (simp add: recordVisit_def)
          with Cons Inr True run have m: "mergeLoop env cp' it ?s1 = (None, s')" by simp
          from "1.IH"(1) [OF Cons Inr True vi [symmetric] _ it ok' un' m nw' g] show ?thesis by simp
        qed
      qed
    qed
  qed
qed

lemma fst_ramEntry: "fst (ramEntry e r) = fst r"
  by (simp add: ramEntry_def)

lemma hasPrefix_nonempty: "hasPrefix k p \<Longrightarrow> p \<noteq> [] \<Longrightarrow> length k > 0"
  by (cases k) (auto simp: hasPrefix_def)

lemma pushRam_pending:
  assumes so: "sorted_wrt (<) (map fst (storage sd))" and ne: "pfx \<noteq> []"
    and env: "envPrefix env = pfx"
  shows "heapOk env (pushRam sd pfx) \<and> pending env (pushRam sd pfx) = set (ramEntries sd pfx)"
proof -
  from so have "sorted (map fst (storage sd))" by (simp add: strict_sorted_imp_sorted)
  from seek_prefix_filter [OF this, of pfx]
  have sf: "filter (\<lambda>r. hasPrefix (fst r) pfx) (storage sd) = underPrefix pfx (btreeSeek (storage sd) pfx)"
    by (simp add: underPrefix_def btreeSeek_def)
  from so have ss: "sorted_wrt (<) (map fst (ramEntries sd pfx))"
    by (simp add: ramEntries_def comp_def fst_ramEntry sorted_wrt_map sorted_wrt_filter)
  show ?thesis
  proof (cases "btreeSeek (storage sd) pfx")
    case Nil
    have "ramEntries sd pfx = []" by (simp add: ramEntries_def sf Nil underPrefix_Nil)
    with Nil show ?thesis by (simp add: pushRam_def heapOk_def pending_def)
  next
    case (Cons r rs)
    obtain k v where r: "r = (k, v)" by (cases r)
    show ?thesis
    proof (cases "hasPrefix k pfx")
      case False
      then have "ramEntries sd pfx = []" by (simp add: ramEntries_def sf Cons r underPrefix_Cons)
      with False Cons r show ?thesis by (simp add: pushRam_def heapOk_def pending_def)
    next
      case True
      from hasPrefix_nonempty [OF True ne] have len: "length k > 0" .
      let ?ci = "ramItem sd ((k, v) # rs) k v"
      from True len Cons r have p: "pushRam sd pfx = [?ci]" by (simp add: pushRam_def)
      from env have f: "fut env ?ci = ramEntries sd pfx"
        by (simp add: fut_def ramItem_def ramEntries_def sf Cons r)
      from True env have h: "\<exists>rest. fut env ?ci = current ?ci # rest"
        by (simp add: fut_def ramItem_def underPrefix_def current_def ramEntry_def)
      from ss f h have "itemOk env ?ci" by (simp add: itemOk_def ramItem_def)
      with f p show ?thesis by (simp add: heapOk_def pending_def)
    qed
  qed
qed

lemma storage_heap:
  assumes so: "sorted_wrt (<) (map fst (storage sd))" and ne: "pfx \<noteq> []"
    and db: "sorted (map fst (tables (roTx sd) (keysTable (dc_d (ctxStorage (aggCtx sd))))))"
    and files: "\<forall>item \<in> set (dc_files (ctxStorage (aggCtx sd))). sorted_wrt (<) (map fst (fileWords item))"
    and p1: "pushDb (storageEnv sd pfx) (tables (roTx sd) (keysTable (dc_d (ctxStorage (aggCtx sd)))))
               (pushRam sd pfx) = Inr cp1"
    and p2: "pushFiles pfx (dc_files (ctxStorage (aggCtx sd))) cp1 = Inr cp2"
  shows "heapOk (storageEnv sd pfx) cp2 \<and>
         pending (storageEnv sd pfx) cp2 = set (storageEntries sd pfx)"
proof -
  let ?env = "storageEnv sd pfx"
  have ep: "envPrefix ?env = pfx" by (simp add: storageEnv_def)
  from pushRam_pending [OF so ne ep]
  have ok0: "heapOk ?env (pushRam sd pfx)" and q0: "pending ?env (pushRam sd pfx) = set (ramEntries sd pfx)"
    by simp_all
  from pushDb_pending [OF db ok0 p1] q0
  have ok1: "heapOk ?env cp1" and q1: "pending ?env cp1 = set (ramEntries sd pfx) \<union>
      set (dbEntries ?env (tables (roTx sd) (keysTable (dc_d (ctxStorage (aggCtx sd))))))"
    by simp_all
  from pushFiles_pending [OF files ok1, of cp2] p2 ep q1
  show ?thesis by (simp add: storageEntries_def lowerEntries_def Un_assoc)
qed

lemma storage_iteration_error:
  assumes ram: "storage sd \<noteq> []"
    and files: "\<forall>item \<in> set (dc_files (ctxStorage (aggCtx sd))).
                  decompressor (src item) \<noteq> None \<and> bindex (src item)"
    and rows: "\<forall>r \<in> set (tables (roTx sd) (keysTable (dc_d (ctxStorage (aggCtx sd))))). 8 \<le> length (snd r)"
    and visitor: "\<forall>k v s. fst (it k v s) = None"
  shows "fst (IterateStoragePrefix sd pfx it s) =
     (if \<exists>r \<in> set (seenRows pfx (tables (roTx sd) (keysTable (dc_d (ctxStorage (aggCtx sd)))))).
           txNum sd \<le> rowEndTxNum (aggStepSize (aggCtx sd)) (snd r)
      then Some setTxNumError else None)"
proof -
  let ?env = "storageEnv sd pfx"
  let ?rows = "tables (roTx sd) (keysTable (dc_d (ctxStorage (aggCtx sd))))"
  let ?P = "\<lambda>r. hasPrefix (fst r) pfx"
  let ?bad = "\<lambda>r. txNum sd \<le> rowEndTxNum (aggStepSize (aggCtx sd)) (snd r)"
  have env: "envHaveRamUpdates ?env" "envPrefix ?env = pfx"
    using ram by (simp_all add: storageEnv_def)
  have bad: "badRow ?env r \<longleftrightarrow> ?bad r" for r
    by (simp add: badRow_def storageEnv_def)
  have r0: "wfRows (pushRam sd pfx)" "\<not> heapBad ?env (pushRam sd pfx)"
    using pushRam_types [of sd pfx] by (auto simp: wfRows_def heapBad_def)
  show ?thesis
  proof (cases "cursorSeek ?rows pfx")
    case Nil
    then have p: "pushDb ?env ?rows (pushRam sd pfx) = Inr (pushRam sd pfx)"
      by (simp add: pushDb_def env)
    from pushFiles_ok [OF files, of pfx "pushRam sd pfx"] obtain cp2 where
      c: "pushFiles pfx (dc_files (ctxStorage (aggCtx sd))) (pushRam sd pfx) = Inr cp2"
         "set (pushRam sd pfx) \<subseteq> set cp2" "\<forall>ci \<in> set cp2 - set (pushRam sd pfx). ctype ci = FILE_CURSOR"
      by blast
    from files_keep_bad [OF c(2,3), of ?env] r0 have "wfRows cp2" "\<not> heapBad ?env cp2" by simp_all
    with mergeLoop_bad [OF env(1) visitor, of cp2 s] have "fst (mergeLoop ?env cp2 it s) = None" by simp
    with p c(1) Nil show ?thesis by (simp add: IterateStoragePrefix_def seenRows_def Let_def)
  next
    case (Cons r rs)
    obtain k v where r: "r = (k, v)" by (cases r)
    have "set (cursorSeek ?rows pfx) \<subseteq> set ?rows"
      unfolding cursorSeek_def by (auto dest: set_dropWhileD)
    then have "set (r # rs) \<subseteq> set ?rows" unfolding Cons .
    with rows have len: "\<forall>r \<in> set (r # rs). 8 \<le> length (snd r)" by blast
    with r have lv: "8 \<le> length v" by simp
    show ?thesis
    proof (cases "hasPrefix k pfx")
      case False
      with Cons r have p: "pushDb ?env ?rows (pushRam sd pfx) = Inr (pushRam sd pfx)"
        by (simp add: pushDb_def env)
      from False Cons r have sr: "seenRows pfx ?rows = []" by (simp add: seenRows_def)
      from pushFiles_ok [OF files, of pfx "pushRam sd pfx"] obtain cp2 where
        c: "pushFiles pfx (dc_files (ctxStorage (aggCtx sd))) (pushRam sd pfx) = Inr cp2"
           "set (pushRam sd pfx) \<subseteq> set cp2" "\<forall>ci \<in> set cp2 - set (pushRam sd pfx). ctype ci = FILE_CURSOR"
        by blast
      from files_keep_bad [OF c(2,3), of ?env] r0 have "wfRows cp2" "\<not> heapBad ?env cp2" by simp_all
      with mergeLoop_bad [OF env(1) visitor, of cp2 s] have "fst (mergeLoop ?env cp2 it s) = None" by simp
      with p c(1) sr show ?thesis by (simp add: IterateStoragePrefix_def Let_def)
    next
      case True
      with Cons r have sr: "seenRows pfx ?rows = r # takeWhile ?P (noDupRows (cursorNextNoDup (r # rs)))"
        by (simp add: seenRows_def)
      show ?thesis
      proof (cases "?bad r")
        case b: True
        with True Cons r have "pushDb ?env ?rows (pushRam sd pfx) = Inl setTxNumError"
          by (simp add: pushDb_def env dbItem_checked [OF lv env(1)] bad)
        with b sr show ?thesis by (simp add: IterateStoragePrefix_def Let_def)
      next
        case g: False
        define ci where "ci = newDbItem\<lparr>dbCursor := (k, v) # rs, key := k,
            itemEndTxNum := rowEndTxNum (envStepSize ?env) v,
            val := GetOne (envRoTx ?env) (envValsTable ?env) (k @ take 8 v)\<rparr>"
        have ct: "ctype ci = DB_CURSOR" "dbCursor ci = r # rs" by (simp_all add: ci_def newDbItem_def r)
        from g True Cons r have p: "pushDb ?env ?rows (pushRam sd pfx) = Inr (heap_Push (pushRam sd pfx) ci)"
          by (simp add: pushDb_def env dbItem_checked [OF lv env(1)] bad ci_def)
        let ?cp1 = "heap_Push (pushRam sd pfx) ci"
        from r0 ct len have w1: "wfRows ?cp1" by (simp add: wfRows_Push wfRows_Cons)
        have n: "nextRows ?env ci = takeWhile ?P (noDupRows (cursorNextNoDup (r # rs)))"
          by (simp add: nextRows_def ct env)
        from r0 ct have b1: "heapBad ?env ?cp1 \<longleftrightarrow> (\<exists>r \<in> set (nextRows ?env ci). ?bad r)"
          by (simp add: heapBad_Push heapBad_Cons bad)
        from pushFiles_ok [OF files, of pfx ?cp1] obtain cp2 where
          c: "pushFiles pfx (dc_files (ctxStorage (aggCtx sd))) ?cp1 = Inr cp2"
             "set ?cp1 \<subseteq> set cp2" "\<forall>ci \<in> set cp2 - set ?cp1. ctype ci = FILE_CURSOR"
          by blast
        from files_keep_bad [OF c(2,3), of ?env] w1 b1
        have "wfRows cp2" "heapBad ?env cp2 \<longleftrightarrow> (\<exists>r \<in> set (nextRows ?env ci). ?bad r)" by simp_all
        with mergeLoop_bad [OF env(1) visitor, of cp2 s]
        have "fst (mergeLoop ?env cp2 it s) =
            (if \<exists>r \<in> set (nextRows ?env ci). ?bad r then Some setTxNumError else None)" by simp
        with p c(1) sr g n show ?thesis by (simp add: IterateStoragePrefix_def Let_def)
      qed
    qed
  qed
qed

lemma tombs_state_fields:
  "IterateStoragePrefix sd pfx it s =
     (let env = \<lparr>envPrefix = pfx, envStepSize = aggStepSize (aggCtx sd),
                 envHaveRamUpdates = (length (storage sd) > 0), envTxNum = txNum sd, envRoTx = roTx sd,
                 envValsTable = valsTable (dc_d (ctxStorage (aggCtx sd)))\<rparr>
      in case pushDb env (tables (roTx sd) (keysTable (dc_d (ctxStorage (aggCtx sd))))) (pushRam sd pfx) of
           Inl e \<Rightarrow> (Some e, s)
         | Inr cp1 \<Rightarrow>
             (case pushFiles pfx (dc_files (ctxStorage (aggCtx sd))) cp1 of
                Inl e \<Rightarrow> (Some e, s)
              | Inr cp2 \<Rightarrow> mergeLoop env cp2 it s))"
  unfolding IterateStoragePrefix_def storageEnv_def ..

lemma IterateStoragePrefix_cong:
  assumes "storage sd' = storage sd" "txNum sd' = txNum sd" "roTx sd' = roTx sd" "aggCtx sd' = aggCtx sd"
  shows "IterateStoragePrefix sd' pfx it s = IterateStoragePrefix sd pfx it s"
  unfolding tombs_state_fields pushRam_def ramItem_def assms ..

lemma set_btreeSet:
  "sorted_wrt (<) (map fst m) \<Longrightarrow> set (btreeSet m k v) = insert (k, v) {r \<in> set m. fst r \<noteq> k}"
proof (induction m)
  case Nil
  show ?case by simp
next
  case (Cons r rs)
  from Cons.prems have so: "sorted_wrt (<) (map fst rs)" and lt: "\<forall>x \<in> set rs. fst r < fst x" by auto
  show ?case
  proof (cases "k < fst r")
    case True
    with lt have "\<forall>x \<in> set (r # rs). fst x \<noteq> k" by auto
    then have "{x \<in> set (r # rs). fst x \<noteq> k} = set (r # rs)" by blast
    with True show ?thesis by simp
  next
    case False
    show ?thesis
    proof (cases "k = fst r")
      case True
      with lt have "\<forall>x \<in> set rs. fst x \<noteq> k" by auto
      then have "{x \<in> set (r # rs). fst x \<noteq> k} = set rs" using True by auto
      with True show ?thesis by simp
    next
      case ne: False
      with False have "btreeSet (r # rs) k v = r # btreeSet rs k v" by simp
      with Cons.IH [OF so] ne show ?thesis by auto
    qed
  qed
qed

lemma sorted_btreeSet:
  "sorted_wrt (<) (map fst m) \<Longrightarrow> sorted_wrt (<) (map fst (btreeSet m k v))"
proof (induction m)
  case Nil
  show ?case by simp
next
  case (Cons r rs)
  from Cons.prems have so: "sorted_wrt (<) (map fst rs)" and lt: "\<forall>x \<in> set rs. fst r < fst x" by auto
  show ?case
  proof (cases "k < fst r")
    case True
    with lt have "\<forall>x \<in> set rs. k < fst x" by auto
    with True Cons.prems show ?thesis by simp
  next
    case False
    show ?thesis
    proof (cases "k = fst r")
      case True
      with Cons.prems show ?thesis by simp
    next
      case ne: False
      with False have e: "btreeSet (r # rs) k v = r # btreeSet rs k v" and rk: "fst r < k" by simp_all
      from set_btreeSet [OF so, of k v] lt rk have "\<forall>x \<in> set (btreeSet rs k v). fst r < fst x" by auto
      with Cons.IH [OF so] e show ?thesis by simp
    qed
  qed
qed

lemma fold_btreeSet:
  "sorted_wrt (<) (map fst m) \<Longrightarrow>
     sorted_wrt (<) (map fst (fold (\<lambda>t m. btreeSet m (fst t) None) tombs m)) \<and>
     set (fold (\<lambda>t m. btreeSet m (fst t) None) tombs m)
       = (\<lambda>t. (fst t, None)) ` set tombs \<union> {r \<in> set m. fst r \<notin> fst ` set tombs}"
proof (induction tombs arbitrary: m)
  case Nil
  then show ?case by simp
next
  case (Cons t tombs)
  let ?m1 = "btreeSet m (fst t) None"
  from sorted_btreeSet [OF Cons.prems] have s1: "sorted_wrt (<) (map fst ?m1)" .
  from Cons.IH [OF s1] have i: "sorted_wrt (<) (map fst (fold (\<lambda>t m. btreeSet m (fst t) None) tombs ?m1))"
    "set (fold (\<lambda>t m. btreeSet m (fst t) None) tombs ?m1)
       = (\<lambda>t. (fst t, None)) ` set tombs \<union> {r \<in> set ?m1. fst r \<notin> fst ` set tombs}" by simp_all
  have "(\<lambda>t. (fst t, None)) ` set tombs \<union> {r \<in> set ?m1. fst r \<notin> fst ` set tombs}
      = (\<lambda>t. (fst t, None)) ` set (t # tombs) \<union> {r \<in> set m. fst r \<notin> fst ` set (t # tombs)}"
    unfolding set_btreeSet [OF Cons.prems] by (fastforce simp: image_iff)
  with i show ?case by simp
qed

lemma DomainDelLeaf_storage:
  assumes "prev \<noteq> None" "DomainDelLeaf libs sd StorageDomain k None prev = (None, sd')"
  shows "storage sd' = btreeSet (storage sd) k None \<and> txNum sd' = txNum sd \<and>
         roTx sd' = roTx sd \<and> aggCtx sd' = aggCtx sd"
  using assms
  by (auto simp: DomainDelLeaf_def delAccountStorage_def put_def gbytes_def Let_def
           split: sum.splits if_splits)

lemma delTombs_state:
  "\<forall>t \<in> set tombs. snd t \<noteq> None \<Longrightarrow> delTombs libs sd tombs = (None, sd') \<Longrightarrow>
     storage sd' = fold (\<lambda>t m. btreeSet m (fst t) None) tombs (storage sd) \<and>
     txNum sd' = txNum sd \<and> roTx sd' = roTx sd \<and> aggCtx sd' = aggCtx sd"
proof (induction tombs arbitrary: sd)
  case Nil
  then show ?case by simp
next
  case (Cons t tombs)
  from Cons.prems(2) obtain sd1 where
    d: "DomainDelLeaf libs sd StorageDomain (fst t) None (snd t) = (None, sd1)"
    and r: "delTombs libs sd1 tombs = (None, sd')"
    by (auto split: prod.splits option.splits)
  from Cons.prems(1) have p: "snd t \<noteq> None" and rest: "\<forall>t \<in> set tombs. snd t \<noteq> None" by simp_all
  from DomainDelLeaf_storage [OF p d] Cons.IH [OF rest r] show ?case by simp
qed

lemma lowerEntries_cong:
  assumes "txNum sd' = txNum sd" "roTx sd' = roTx sd" "aggCtx sd' = aggCtx sd"
  shows "lowerEntries sd' pfx = lowerEntries sd pfx"
  by (simp add: lowerEntries_def dbEntries_def dbEntry_def storageEnv_def assms cong: map_cong)

lemma ramEntries_mem:
  "(k, v, e) \<in> set (ramEntries sd pfx) \<longleftrightarrow>
     (k, v) \<in> set (storage sd) \<and> hasPrefix k pfx \<and> e = txNum sd"
  by (auto simp: ramEntries_def ramEntry_def image_iff)

lemma lowerEntries_prefix: "(k, v, e) \<in> set (lowerEntries sd pfx) \<Longrightarrow> hasPrefix k pfx"
  by (auto simp: lowerEntries_def dbEntries_def fileEntries_def dbEntry_def fileEntry_def storageEnv_def)

lemma storage_unique:
  assumes "sorted_wrt (<) (map fst (m :: (bytes \<times> gobytes) list))" "(k, v) \<in> set m" "(k, v') \<in> set m"
  shows "v = v'"
proof -
  from sorted_wrt_less_distinct [OF assms(1)] have "distinct (map fst m)" .
  from eq_key_imp_eq_value [OF this assms(2,3)] show ?thesis .
qed

lemma storageEntries_unambiguous:
  assumes so: "sorted_wrt (<) (map fst (storage sd))"
    and ahead: "\<forall>e \<in> set (lowerEntries sd pfx). snd (snd e) < txNum sd"
    and un: "unambiguous (set (lowerEntries sd pfx))"
  shows "unambiguous (set (storageEntries sd pfx))"
  unfolding unambiguous_def
proof (intro ballI impI)
  fix x y
  assume x: "x \<in> set (storageEntries sd pfx)" and y: "y \<in> set (storageEntries sd pfx)"
    and e: "fst x = fst y \<and> snd (snd x) = snd (snd y)"
  obtain k v t where xx: "x = (k, v, t)" by (cases x)
  with e obtain v' where yy: "y = (k, v', t)" by (cases y) auto
  from x consider "x \<in> set (ramEntries sd pfx)" | "x \<in> set (lowerEntries sd pfx)"
    by (auto simp: storageEntries_def)
  then show "x = y"
  proof cases
    case 1
    with xx have xr: "(k, v) \<in> set (storage sd)" "t = txNum sd" by (simp_all add: ramEntries_mem)
    have "y \<in> set (ramEntries sd pfx)"
    proof (rule ccontr)
      assume "y \<notin> set (ramEntries sd pfx)"
      with y have "y \<in> set (lowerEntries sd pfx)" by (simp add: storageEntries_def)
      with ahead yy have "t < txNum sd" by force
      with xr(2) show False by simp
    qed
    with yy have "(k, v') \<in> set (storage sd)" by (simp add: ramEntries_mem)
    from storage_unique [OF so xr(1) this] xx yy show ?thesis by simp
  next
    case 2
    with ahead xx have lt: "t < txNum sd" by force
    have "y \<in> set (lowerEntries sd pfx)"
    proof (rule ccontr)
      assume "y \<notin> set (lowerEntries sd pfx)"
      with y have "y \<in> set (ramEntries sd pfx)" by (simp add: storageEntries_def)
      with yy have "t = txNum sd" by (simp add: ramEntries_mem)
      with lt show False by simp
    qed
    with un 2 e show ?thesis unfolding unambiguous_def by blast
  qed
qed

lemma storage_run:
  assumes so: "sorted_wrt (<) (map fst (storage sd))" and ne: "pfx \<noteq> []"
    and db: "sorted (map fst (tables (roTx sd) (keysTable (dc_d (ctxStorage (aggCtx sd))))))"
    and files: "\<forall>item \<in> set (dc_files (ctxStorage (aggCtx sd))). sorted_wrt (<) (map fst (fileWords item))"
    and run: "IterateStoragePrefix sd pfx recordVisit [] = (None, visits)"
  shows "\<exists>cp2. heapOk (storageEnv sd pfx) cp2 \<and>
            pending (storageEnv sd pfx) cp2 = set (storageEntries sd pfx) \<and>
            mergeLoop (storageEnv sd pfx) cp2 recordVisit [] = (None, visits)"
proof -
  let ?env = "storageEnv sd pfx"
  let ?rows = "tables (roTx sd) (keysTable (dc_d (ctxStorage (aggCtx sd))))"
  have it: "IterateStoragePrefix sd pfx recordVisit [] =
      (case pushDb ?env ?rows (pushRam sd pfx) of
         Inl e \<Rightarrow> (Some e, [])
       | Inr cp1 \<Rightarrow>
           (case pushFiles pfx (dc_files (ctxStorage (aggCtx sd))) cp1 of
              Inl e \<Rightarrow> (Some e, [])
            | Inr cp2 \<Rightarrow> mergeLoop ?env cp2 recordVisit []))"
    unfolding IterateStoragePrefix_def Let_def ..
  show ?thesis
  proof (cases "pushDb ?env ?rows (pushRam sd pfx)")
    case (Inl e)
    with run it show ?thesis by simp
  next
    case (Inr cp1)
    show ?thesis
    proof (cases "pushFiles pfx (dc_files (ctxStorage (aggCtx sd))) cp1")
      case (Inl e)
      with Inr run it show ?thesis by simp
    next
      case cp2: (Inr cp2)
      from Inr cp2 run it have m: "mergeLoop ?env cp2 recordVisit [] = (None, visits)" by simp
      from storage_heap [OF so ne db files Inr cp2] m show ?thesis by blast
    qed
  qed
qed

lemma seenRows_entries:
  assumes db: "sorted (map fst rows)" and r: "r \<in> set (seenRows pfx rows)"
    and p: "envPrefix env = pfx"
  shows "dbEntry env r \<in> set (dbEntries env rows)"
proof -
  from seek_noDup_filter [OF db, of pfx] r p show ?thesis
    by (simp add: seenRows_def underPrefix_def dbEntries_def)
qed

lemma aheadSD_fields:
  "storage aheadSD = []" "txNum aheadSD = 9" "roTx aheadSD = mergeTx" "aggCtx aheadSD = fileAgg"
  "discard (storageWriter aheadSD) = False" "setTxNumOnce (storageWriter aheadSD) = True"
  "sdcDiscard (sdCtx aheadSD) = False"
  by (simp_all add: aheadSD_def demoSD_def NewSharedDomains_def sdSetTxNum_def SetTxNum_def
        NewWriter_def newWriter_def demoAgg_def demoContext_def emptyDomain_def Let_def)

lemma boundarySD_writer:
  "discard (storageWriter boundarySD) = False" "setTxNumOnce (storageWriter boundarySD) = True"
  by (simp_all add: boundarySD_def demoSD_def NewSharedDomains_def sdSetTxNum_def SetTxNum_def
        NewWriter_def newWriter_def demoAgg_def demoContext_def emptyDomain_def Let_def)

lemma fileAgg_fields:
  "aggStepSize fileAgg = 4" "keysTable (dc_d (ctxStorage fileAgg)) = ''storageKeys''"
  "valsTable (dc_d (ctxStorage fileAgg)) = ''storageVals''"
  "dc_files (ctxStorage fileAgg) = dc_files mergeContext"
  by (simp_all add: fileAgg_def demoAgg_def mergeContext_def emptyDomain_def)

lemma ahead_run:
  "IterateStoragePrefix aheadSD [0xA] recordVisit []
     = (None, [([0xA, 1], Some [7]), ([0xA, 3], Some [8])])"
  by (simp add: IterateStoragePrefix_def storageEnv_def pushRam_def btreeSeek_def aheadSD_fields
        fileAgg_fields mergeContext_def mergeTx_def pushDb_def cursorSeek_def
        hasPrefix_def dbItem_def Uint64_minus3 newDbItem_def btSeek_def fileItem_def Less_def
        advanceSame_Cons advanceSame_Nil advance_def cursorNextNoDup_def GetOne_def recordVisit_def
        glen_def Let_def)

lemma boundary_run:
  "IterateStoragePrefix boundarySD [0xA] recordVisit [] = (None, [([0xA, 1], Some [7])])"
  by (simp add: IterateStoragePrefix_def storageEnv_def pushRam_def btreeSeek_def boundarySD_fields
        demoAgg_def demoContext_def emptyDomain_def storageTx_def pushDb_def cursorSeek_def
        hasPrefix_def dbItem_def Uint64_minus3 newDbItem_def Less_def
        advanceSame_Cons advanceSame_Nil advance_def cursorNextNoDup_def GetOne_def recordVisit_def
        glen_def Let_def)

lemma delLeaf_ok:
  assumes "discard (storageWriter sd) = False" "setTxNumOnce (storageWriter sd) = True"
  shows "fst (DomainDelLeaf libs sd StorageDomain k None (Some v)) = None \<and>
         discard (storageWriter (snd (DomainDelLeaf libs sd StorageDomain k None (Some v)))) = False \<and>
         setTxNumOnce (storageWriter (snd (DomainDelLeaf libs sd StorageDomain k None (Some v)))) = True"
  using assms
  by (simp add: DomainDelLeaf_def delAccountStorage_def put_def DeleteWithPrev_def AddPrevValue_def
        addValue_def Let_def)

lemma ahead_del: "DomainDelPrefix demoLibs aheadSD StorageDomain [0xA] = (None, aheadDeleted)"
proof -
  let ?a = "DomainDelLeaf demoLibs aheadSD StorageDomain [0xA, 1] None (Some [7])"
  obtain e1 s1 where a: "?a = (e1, s1)" by (cases ?a)
  from delLeaf_ok [OF aheadSD_fields(5,6), of demoLibs "[0xA, 1]" "[7]"] a
  have e1: "e1 = None" and w1: "discard (storageWriter s1) = False" "setTxNumOnce (storageWriter s1) = True"
    by simp_all
  let ?b = "DomainDelLeaf demoLibs s1 StorageDomain [0xA, 3] None (Some [8])"
  obtain e2 s2 where b: "?b = (e2, s2)" by (cases ?b)
  from delLeaf_ok [OF w1, of demoLibs "[0xA, 3]" "[8]"] b have e2: "e2 = None" by simp
  have "fst (DomainDelPrefix demoLibs aheadSD StorageDomain [0xA]) = None"
    by (simp add: DomainDelPrefix_def ahead_run a e1 b e2)
  then show ?thesis by (simp add: aheadDeleted_def prod_eq_iff)
qed

lemma boundary_del: "DomainDelPrefix demoLibs boundarySD StorageDomain [0xA] = (None, boundaryDeleted)"
proof -
  let ?a = "DomainDelLeaf demoLibs boundarySD StorageDomain [0xA, 1] None (Some [7])"
  obtain e1 s1 where a: "?a = (e1, s1)" by (cases ?a)
  from delLeaf_ok [OF boundarySD_writer, of demoLibs "[0xA, 1]" "[7]"] a
  have e1: "e1 = None" by simp
  have "fst (DomainDelPrefix demoLibs boundarySD StorageDomain [0xA]) = None"
    by (simp add: DomainDelPrefix_def boundary_run a e1)
  then show ?thesis by (simp add: boundaryDeleted_def prod_eq_iff)
qed

lemma boundaryDeleted_fields:
  "storage boundaryDeleted = [([0xA, 1], None)]" "txNum boundaryDeleted = 8"
  "roTx boundaryDeleted = storageTx" "aggCtx boundaryDeleted = demoAgg"
proof -
  have nn: "\<forall>t \<in> set [([0xA, 1 :: 8 word], Some [7 :: 8 word])]. snd t \<noteq> None" by simp
  from boundary_del boundary_run
  have "delTombs demoLibs boundarySD [([0xA, 1], Some [7])] = (None, boundaryDeleted)"
    by (simp add: DomainDelPrefix_def)
  from delTombs_state [OF nn this]
  show "storage boundaryDeleted = [([0xA, 1], None)]" "txNum boundaryDeleted = 8"
    "roTx boundaryDeleted = storageTx" "aggCtx boundaryDeleted = demoAgg"
    by (simp_all add: boundarySD_fields)
qed

lemma staleSD_fields:
  "storage staleSD = []" "txNum staleSD = 0" "roTx staleSD = emptyTx" "aggCtx staleSD = fileAgg"
  "discard (storageWriter staleSD) = False" "setTxNumOnce (storageWriter staleSD) = True"
  by (simp_all add: staleSD_def demoSD_def NewSharedDomains_def sdSetTxNum_def SetTxNum_def
        NewWriter_def newWriter_def demoAgg_def demoContext_def emptyDomain_def Let_def)

lemma stale_run:
  "IterateStoragePrefix staleSD [0xA] recordVisit [] = (None, [([0xA, 1], Some [1])])"
  by (simp add: IterateStoragePrefix_def storageEnv_def pushRam_def btreeSeek_def staleSD_fields
        fileAgg_fields mergeContext_def emptyTx_def pushDb_def cursorSeek_def
        hasPrefix_def btSeek_def fileItem_def Less_def
        advanceSame_Cons advanceSame_Nil advance_def recordVisit_def glen_def Let_def)

lemma stale_del: "DomainDelPrefix demoLibs staleSD StorageDomain [0xA] = (None, staleDeleted)"
proof -
  let ?a = "DomainDelLeaf demoLibs staleSD StorageDomain [0xA, 1] None (Some [1])"
  obtain e1 s1 where a: "?a = (e1, s1)" by (cases ?a)
  from delLeaf_ok [OF staleSD_fields(5,6), of demoLibs "[0xA, 1]" "[1]"] a
  have e1: "e1 = None" by simp
  have "fst (DomainDelPrefix demoLibs staleSD StorageDomain [0xA]) = None"
    by (simp add: DomainDelPrefix_def stale_run a e1)
  then show ?thesis by (simp add: staleDeleted_def prod_eq_iff)
qed

lemma staleDeleted_fields:
  "storage staleDeleted = [([0xA, 1], None)]" "txNum staleDeleted = 0"
  "roTx staleDeleted = emptyTx" "aggCtx staleDeleted = fileAgg"
proof -
  have nn: "\<forall>t \<in> set [([0xA, 1 :: 8 word], Some [1 :: 8 word])]. snd t \<noteq> None" by simp
  from stale_del stale_run
  have "delTombs demoLibs staleSD [([0xA, 1], Some [1])] = (None, staleDeleted)"
    by (simp add: DomainDelPrefix_def)
  from delTombs_state [OF nn this]
  show "storage staleDeleted = [([0xA, 1], None)]" "txNum staleDeleted = 0"
    "roTx staleDeleted = emptyTx" "aggCtx staleDeleted = fileAgg"
    by (simp_all add: staleSD_fields)
qed

lemma aheadDeleted_fields:
  "storage aheadDeleted = [([0xA, 1], None), ([0xA, 3], None)]"
proof -
  have nn: "\<forall>t \<in> set [([0xA, 1 :: 8 word], Some [7 :: 8 word]), ([0xA, 3], Some [8])]. snd t \<noteq> None"
    by simp
  from ahead_del ahead_run
  have "delTombs demoLibs aheadSD [([0xA, 1], Some [7]), ([0xA, 3], Some [8])] = (None, aheadDeleted)"
    by (simp add: DomainDelPrefix_def)
  from delTombs_state [OF nn this]
  show ?thesis by (simp add: aheadSD_fields)
qed

lemma ahead_lower:
  "lowerEntries aheadSD [0xA]
     = [([0xA, 1], Some [7], 8), ([0xA, 3], Some [8], 8), ([0xA, 1], Some [1], 7), ([0xA, 2], Some [], 7)]"
  by (simp add: lowerEntries_def dbEntries_def fileEntries_def fileWords_def storageEnv_def
        aheadSD_fields fileAgg_fields mergeContext_def mergeTx_def cursorNextNoDup_def hasPrefix_def
        dbEntry_def fileEntry_def GetOne_def rowEndTxNum_step2)

text \<open>
  Claim C6, as the code has it. Let \<^verbatim>\<open>DomainDelPrefix(storage, prefix)\<close> succeed, for a prefix
  that is not empty, on shared domains whose storage map is in key order, over a keys table
  in key order whose values have at least 8 bytes, and over files that have their decompressor
  and index and their words in strictly ascending key order. If the tx number of the shared
  domains is above the \<^verbatim>\<open>endTxNum\<close> of every entry of the hot tier and of the files under the
  prefix (ram is strictly ahead of db and files), and no two of these entries of one key share
  their \<^verbatim>\<open>endTxNum\<close>, then \<^verbatim>\<open>IterateStoragePrefix(prefix)\<close> returns no error and calls the visitor
  for no key, and a second \<^verbatim>\<open>DomainDelPrefix(storage, prefix)\<close> succeeds and leaves the shared
  domains as they are.
\<close>

theorem DomainDelPrefix_twice:
  assumes del: "DomainDelPrefix libs sd StorageDomain pfx = (None, sd1)"
    and ne: "pfx \<noteq> []"
    and so: "sorted_wrt (<) (map fst (storage sd))"
    and db: "sorted (map fst (tables (roTx sd) (keysTable (dc_d (ctxStorage (aggCtx sd))))))"
    and rows8: "\<forall>r \<in> set (tables (roTx sd) (keysTable (dc_d (ctxStorage (aggCtx sd))))). 8 \<le> length (snd r)"
    and files: "\<forall>item \<in> set (dc_files (ctxStorage (aggCtx sd))). sorted_wrt (<) (map fst (fileWords item))"
    and filesOk: "\<forall>item \<in> set (dc_files (ctxStorage (aggCtx sd))).
                    decompressor (src item) \<noteq> None \<and> bindex (src item)"
    and ahead: "\<forall>e \<in> set (lowerEntries sd pfx). snd (snd e) < txNum sd"
    and un: "unambiguous (set (lowerEntries sd pfx))"
  shows "IterateStoragePrefix sd1 pfx recordVisit [] = (None, []) \<and>
         DomainDelPrefix libs sd1 StorageDomain pfx = (None, sd1)"
proof -
  let ?rows = "tables (roTx sd) (keysTable (dc_d (ctxStorage (aggCtx sd))))"
  from del obtain tombs where run1: "IterateStoragePrefix sd pfx recordVisit [] = (None, tombs)"
    and dt: "delTombs libs sd tombs = (None, sd1)"
    by (auto simp: DomainDelPrefix_def split: prod.splits option.splits)
  from storage_run [OF so ne db files run1] obtain cp2 where
    ok1: "heapOk (storageEnv sd pfx) cp2"
    and p1: "pending (storageEnv sd pfx) cp2 = set (storageEntries sd pfx)"
    and m1: "mergeLoop (storageEnv sd pfx) cp2 recordVisit [] = (None, tombs)" by blast
  from mergeLoop_visits [OF refl ok1 m1]
  have v1: "\<forall>x \<in> set tombs. glen (snd x) > 0" by auto
  have nn: "\<forall>t \<in> set tombs. snd t \<noteq> None"
  proof
    fix t assume "t \<in> set tombs"
    with v1 have "glen (snd t) > 0" by blast
    then show "snd t \<noteq> None" by (cases "snd t") (simp_all add: glen_def)
  qed
  from delTombs_state [OF nn dt] have st: "storage sd1 = fold (\<lambda>t m. btreeSet m (fst t) None) tombs (storage sd)"
    and same: "txNum sd1 = txNum sd" "roTx sd1 = roTx sd" "aggCtx sd1 = aggCtx sd" by simp_all
  from fold_btreeSet [OF so, of tombs] st
  have so1: "sorted_wrt (<) (map fst (storage sd1))"
    and set1: "set (storage sd1) = (\<lambda>t. (fst t, None)) ` set tombs \<union>
        {r \<in> set (storage sd). fst r \<notin> fst ` set tombs}" by simp_all
  note low = lowerEntries_cong [OF same, of pfx]
  note un1 = storageEntries_unambiguous [OF so ahead un]
  have complete: "(k, v) \<in> set tombs" if "newest (set (storageEntries sd pfx)) k v" "glen v > 0" for k v
    using mergeLoop_complete [OF refl ok1 _ m1, of k v] un1 that p1 by simp
  have run2: "IterateStoragePrefix sd1 pfx recordVisit [] = (None, [])"
  proof (cases "storage sd1 = []")
    case True
    with set1 have t0: "tombs = []" by auto
    with st have "storage sd1 = storage sd" by simp
    from IterateStoragePrefix_cong [OF this same, of pfx recordVisit "[]"] run1 t0 show ?thesis by simp
  next
    case False
    have rows1: "\<forall>r \<in> set (tables (roTx sd1) (keysTable (dc_d (ctxStorage (aggCtx sd1))))). 8 \<le> length (snd r)"
      using rows8 same by simp
    have files1: "\<forall>item \<in> set (dc_files (ctxStorage (aggCtx sd1))).
                    decompressor (src item) \<noteq> None \<and> bindex (src item)"
      using filesOk same by simp
    have vis: "\<forall>k v s. fst (recordVisit k v s) = None" by (simp add: recordVisit_def)
    have nobad: "\<not> (\<exists>r \<in> set (seenRows pfx (tables (roTx sd1) (keysTable (dc_d (ctxStorage (aggCtx sd1)))))).
           txNum sd1 \<le> rowEndTxNum (aggStepSize (aggCtx sd1)) (snd r))"
    proof
      assume "\<exists>r \<in> set (seenRows pfx (tables (roTx sd1) (keysTable (dc_d (ctxStorage (aggCtx sd1)))))).
           txNum sd1 \<le> rowEndTxNum (aggStepSize (aggCtx sd1)) (snd r)"
      with same obtain r where r: "r \<in> set (seenRows pfx ?rows)"
        and b: "txNum sd \<le> rowEndTxNum (aggStepSize (aggCtx sd)) (snd r)" by auto
      have "envPrefix (storageEnv sd pfx) = pfx" by (simp add: storageEnv_def)
      from seenRows_entries [OF db r this]
      have "dbEntry (storageEnv sd pfx) r \<in> set (lowerEntries sd pfx)" by (simp add: lowerEntries_def)
      with ahead have "snd (snd (dbEntry (storageEnv sd pfx) r)) < txNum sd" by blast
      then have "rowEndTxNum (aggStepSize (aggCtx sd)) (snd r) < txNum sd"
        by (simp add: dbEntry_def storageEnv_def)
      with b show False by simp
    qed
    from storage_iteration_error [OF False files1 rows1 vis, of pfx "[]"] nobad
    have "fst (IterateStoragePrefix sd1 pfx recordVisit []) = None" by simp
    then obtain visits where run: "IterateStoragePrefix sd1 pfx recordVisit [] = (None, visits)"
      by (cases "IterateStoragePrefix sd1 pfx recordVisit []") auto
    have db1: "sorted (map fst (tables (roTx sd1) (keysTable (dc_d (ctxStorage (aggCtx sd1))))))"
      using db same by simp
    have fs1: "\<forall>item \<in> set (dc_files (ctxStorage (aggCtx sd1))). sorted_wrt (<) (map fst (fileWords item))"
      using files same by simp
    from storage_run [OF so1 ne db1 fs1 run] obtain cp where
      ok2: "heapOk (storageEnv sd1 pfx) cp"
      and p2: "pending (storageEnv sd1 pfx) cp = set (storageEntries sd1 pfx)"
      and m2: "mergeLoop (storageEnv sd1 pfx) cp recordVisit [] = (None, visits)" by blast
    from mergeLoop_visits [OF refl ok2 m2] p2
    have v2: "\<forall>x \<in> set visits. glen (snd x) > 0 \<and> newest (set (storageEntries sd1 pfx)) (fst x) (snd x)"
      by auto
    have "visits = []"
    proof (rule ccontr)
      assume "visits \<noteq> []"
      then obtain x where x: "x \<in> set visits" by (cases visits) auto
      obtain k v where kv: "x = (k, v)" by (cases x)
      from v2 x kv have g: "glen v > 0" and nw: "newest (set (storageEntries sd1 pfx)) k v" by auto
      from nw obtain e where e: "(k, v, e) \<in> set (storageEntries sd1 pfx)"
        and mx: "\<forall>y \<in> set (storageEntries sd1 pfx). fst y = k \<longrightarrow> snd (snd y) \<le> e"
        by (auto simp: newest_def)
      from e have pk: "hasPrefix k pfx"
        by (auto simp: storageEntries_def ramEntries_mem dest: lowerEntries_prefix)
      show False
      proof (cases "k \<in> fst ` set tombs")
        case True
        with set1 have "(k, None) \<in> set (storage sd1)" by (auto simp: image_iff)
        with pk have r: "(k, None, txNum sd1) \<in> set (storageEntries sd1 pfx)"
          by (simp add: storageEntries_def ramEntries_mem)
        with mx have le: "txNum sd1 \<le> e" by force
        have "(k, v, e) \<in> set (ramEntries sd1 pfx)"
        proof (rule ccontr)
          assume "(k, v, e) \<notin> set (ramEntries sd1 pfx)"
          with e have "(k, v, e) \<in> set (lowerEntries sd pfx)" by (simp add: storageEntries_def low)
          with ahead have "e < txNum sd" by force
          with le same show False by simp
        qed
        then have "(k, v) \<in> set (storage sd1)" by (simp add: ramEntries_mem)
        from storage_unique [OF so1 this \<open>(k, None) \<in> set (storage sd1)\<close>] g show False
          by (simp add: glen_def)
      next
        case False
        have eq: "(k, v', e') \<in> set (storageEntries sd1 pfx) \<longleftrightarrow> (k, v', e') \<in> set (storageEntries sd pfx)"
          for v' e'
          using False set1 same by (auto simp: storageEntries_def ramEntries_mem low image_iff)
        from e eq have e1: "(k, v, e) \<in> set (storageEntries sd pfx)" by simp
        have "\<forall>y \<in> set (storageEntries sd pfx). fst y = k \<longrightarrow> snd (snd y) \<le> e"
        proof (intro ballI impI)
          fix y assume y: "y \<in> set (storageEntries sd pfx)" "fst y = k"
          obtain k' v' e' where yy: "y = (k', v', e')" by (cases y)
          with y(2) have yk: "y = (k, v', e')" by simp
          with y(1) eq have "(k, v', e') \<in> set (storageEntries sd1 pfx)" by simp
          with mx have "snd (snd (k, v', e')) \<le> e" by force
          with yk show "snd (snd y) \<le> e" by simp
        qed
        with e1 have "newest (set (storageEntries sd pfx)) k v" unfolding newest_def by blast
        from complete [OF this g] False show False by force
      qed
    qed
    with run show ?thesis by simp
  qed
  then have "DomainDelPrefix libs sd1 StorageDomain pfx = (None, sd1)"
    by (simp add: DomainDelPrefix_def)
  with run2 show ?thesis by simp
qed

theorem DomainDelPrefix_twice_witness:
  "DomainDelPrefix demoLibs aheadSD StorageDomain [0xA] = (None, aheadDeleted) \<and>
   IterateStoragePrefix aheadSD [0xA] recordVisit [] = (None, [([0xA, 1], Some [7]), ([0xA, 3], Some [8])]) \<and>
   storage aheadDeleted = [([0xA, 1], None), ([0xA, 3], None)] \<and>
   txNum aheadSD = 9 \<and>
   lowerEntries aheadSD [0xA]
     = [([0xA, 1], Some [7], 8), ([0xA, 3], Some [8], 8), ([0xA, 1], Some [1], 7), ([0xA, 2], Some [], 7)] \<and>
   unambiguous (set (lowerEntries aheadSD [0xA])) \<and>
   IterateStoragePrefix aheadDeleted [0xA] recordVisit [] = (None, []) \<and>
   DomainDelPrefix demoLibs aheadDeleted StorageDomain [0xA] = (None, aheadDeleted)"
proof -
  let ?rows = "tables (roTx aheadSD) (keysTable (dc_d (ctxStorage (aggCtx aheadSD))))"
  have ne: "[0xA :: 8 word] \<noteq> []" by simp
  have so: "sorted_wrt (<) (map fst (storage aheadSD))" by (simp add: aheadSD_fields)
  have db: "sorted (map fst ?rows)"
    by (simp add: aheadSD_fields fileAgg_fields mergeTx_def)
  have rows8: "\<forall>r \<in> set ?rows. 8 \<le> length (snd r)"
    by (simp add: aheadSD_fields fileAgg_fields mergeTx_def)
  have files: "\<forall>item \<in> set (dc_files (ctxStorage (aggCtx aheadSD))). sorted_wrt (<) (map fst (fileWords item))"
    by (simp add: aheadSD_fields fileAgg_fields mergeContext_def fileWords_def)
  have filesOk: "\<forall>item \<in> set (dc_files (ctxStorage (aggCtx aheadSD))).
      decompressor (src item) \<noteq> None \<and> bindex (src item)"
    by (simp add: aheadSD_fields fileAgg_fields mergeContext_def)
  have ahead: "\<forall>e \<in> set (lowerEntries aheadSD [0xA]). snd (snd e) < txNum aheadSD"
    by (simp add: ahead_lower aheadSD_fields)
  have un: "unambiguous (set (lowerEntries aheadSD [0xA]))"
    by (simp add: ahead_lower unambiguous_def)
  note inst = DomainDelPrefix_twice [OF ahead_del ne so db rows8 files filesOk ahead un]
  from inst ahead_del ahead_run aheadDeleted_fields aheadSD_fields(2) ahead_lower un
  show ?thesis by blast
qed

text \<open>
  The claim as stated fails. At tx number 8, the first of step 2, over a hot tier that holds
  the key \<open>A1\<close> at step 2, the deletion of the prefix succeeds, and the iteration and the second
  deletion return the error of \<^verbatim>\<open>SetTxNum\<close>: the map now has an entry and the row is not behind
  the tx number. At tx number 0 over a file that holds \<open>A1\<close>, the deletion succeeds and the
  iteration still yields \<open>A1\<close>, with the value of the file, whose \<^verbatim>\<open>endTxNum\<close> is above that of
  the tombstone in the map.
\<close>

theorem DomainDelPrefix_not_idempotent:
  "DomainDelPrefix demoLibs boundarySD StorageDomain [0xA] = (None, boundaryDeleted) \<and>
   IterateStoragePrefix boundaryDeleted [0xA] recordVisit [] = (Some setTxNumError, []) \<and>
   DomainDelPrefix demoLibs boundaryDeleted StorageDomain [0xA] = (Some setTxNumError, boundaryDeleted) \<and>
   DomainDelPrefix demoLibs staleSD StorageDomain [0xA] = (None, staleDeleted) \<and>
   IterateStoragePrefix staleDeleted [0xA] recordVisit [] = (None, [([0xA, 1], Some [1])])"
proof -
  have a: "IterateStoragePrefix boundaryDeleted [0xA] recordVisit [] = (Some setTxNumError, [])"
    by (simp add: IterateStoragePrefix_def storageEnv_def pushRam_def btreeSeek_def boundaryDeleted_fields
        demoAgg_def demoContext_def emptyDomain_def storageTx_def pushDb_def cursorSeek_def
        hasPrefix_def dbItem_def Uint64_minus3 Let_def)
  then have b: "DomainDelPrefix demoLibs boundaryDeleted StorageDomain [0xA] = (Some setTxNumError, boundaryDeleted)"
    by (simp add: DomainDelPrefix_def)
  have c: "IterateStoragePrefix staleDeleted [0xA] recordVisit [] = (None, [([0xA, 1], Some [1])])"
    by (simp add: IterateStoragePrefix_def storageEnv_def pushRam_def ramItem_def btreeSeek_def
        staleDeleted_fields fileAgg_fields mergeContext_def emptyTx_def pushDb_def cursorSeek_def
        hasPrefix_def btSeek_def fileItem_def Less_def heap_Push.simps
        advanceSame_Cons advanceSame_Nil advance_def recordVisit_def glen_def Let_def)
  from boundary_del a b stale_del c show ?thesis by blast
qed

end
